(* ===== verification/Prelude.thy ===== *)
theory Prelude
  imports Main "HOL-Library.Word"
begin

text \<open>
  Shared vocabulary of the development.  The fixed-width integers of the
  sources are words of the same width; \<open>usize\<close> is a natural number, with the
  64-bit limit written out wherever the code calls a checked operation.
  Byte slices are lists of octets.  A Rust \<open>Result<T, E>\<close> is the sum type
  with the error on the left, and \<open>Option<T>\<close> is \<open>option\<close>.  The collection
  \<open>bytes_simps\<close> gathers the conversions between words and octets.
\<close>

unbundle bit_operations_syntax

named_theorems bytes_simps \<open>word and octet conversions\<close>
named_theorems result_simps \<open>propagation of results\<close>

type_synonym u8 = "8 word"
type_synonym u16 = "16 word"
type_synonym u32 = "32 word"
type_synonym u64 = "64 word"
type_synonym usize = nat
type_synonym octets = "8 word list"
type_synonym ('e, 'a) result = "'e + 'a"

section \<open>Results\<close>

text \<open>The \<open>?\<close> operator, \<open>Option::ok_or\<close>, \<open>Result::ok\<close> and \<open>Result::is_ok\<close>.\<close>

fun and_then :: "'e + 'a \<Rightarrow> ('a \<Rightarrow> 'e + 'b) \<Rightarrow> 'e + 'b" where
  "and_then (Inl e) f = Inl e"
| "and_then (Inr x) f = f x"

fun ok_or :: "'a option \<Rightarrow> 'e \<Rightarrow> 'e + 'a" where
  "ok_or None e = Inl e"
| "ok_or (Some x) e = Inr x"

fun map_err :: "('e \<Rightarrow> 'f) \<Rightarrow> 'e + 'a \<Rightarrow> 'f + 'a" where
  "map_err f (Inl e) = Inl (f e)"
| "map_err f (Inr x) = Inr x"

fun is_ok :: "'e + 'a \<Rightarrow> bool" where
  "is_ok (Inl e) = False"
| "is_ok (Inr x) = True"

lemma and_then_Inr_iff [result_simps]:
  "and_then r f = Inr y \<longleftrightarrow> (\<exists>x. r = Inr x \<and> f x = Inr y)"
  by (cases r) auto

lemma and_then_Inl_iff [result_simps]:
  "and_then r f = Inl e \<longleftrightarrow> r = Inl e \<or> (\<exists>x. r = Inr x \<and> f x = Inl e)"
  by (cases r) auto

lemma ok_or_Inr_iff [result_simps]: "ok_or x e = Inr y \<longleftrightarrow> x = Some y"
  by (cases x) auto

lemma ok_or_Inl_iff [result_simps]: "ok_or x e = Inl f \<longleftrightarrow> x = None \<and> f = e"
  by (cases x) auto

lemma map_err_Inr_iff [result_simps]: "map_err f r = Inr y \<longleftrightarrow> r = Inr y"
  by (cases r) auto

lemma is_ok_iff [result_simps]: "is_ok r \<longleftrightarrow> (\<exists>x. r = Inr x)"
  by (cases r) auto

section \<open>Integer arithmetic of the standard library\<close>

definition usize_max :: nat where
  "usize_max = 2 ^ 64 - 1"

definition usize_checked_add :: "nat \<Rightarrow> nat \<Rightarrow> nat option" where
  "usize_checked_add a b = (if a + b \<le> usize_max then Some (a + b) else None)"

definition usize_checked_sub :: "nat \<Rightarrow> nat \<Rightarrow> nat option" where
  "usize_checked_sub a b = (if b \<le> a then Some (a - b) else None)"

definition u64_checked_add :: "u64 \<Rightarrow> u64 \<Rightarrow> u64 option" where
  "u64_checked_add a b = (if unat a + unat b < 2 ^ 64 then Some (a + b) else None)"

definition u32_checked_add :: "u32 \<Rightarrow> u32 \<Rightarrow> u32 option" where
  "u32_checked_add a b = (if unat a + unat b < 2 ^ 32 then Some (a + b) else None)"

definition u64_saturating_add :: "u64 \<Rightarrow> u64 \<Rightarrow> u64" where
  "u64_saturating_add a b = (if unat a + unat b < 2 ^ 64 then a + b else - 1)"

definition saturating_sub :: "'a::len word \<Rightarrow> 'a word \<Rightarrow> 'a word" where
  "saturating_sub a b = (if b \<le> a then a - b else 0)"

definition div_ceil :: "nat \<Rightarrow> nat \<Rightarrow> nat" where
  "div_ceil a b = a div b + (if a mod b = 0 then 0 else 1)"

definition u16_try_from :: "nat \<Rightarrow> u16 option" where
  "u16_try_from n = (if n < 2 ^ 16 then Some (of_nat n) else None)"

definition u32_try_from :: "nat \<Rightarrow> u32 option" where
  "u32_try_from n = (if n < 2 ^ 32 then Some (of_nat n) else None)"

definition u64_try_from :: "nat \<Rightarrow> u64 option" where
  "u64_try_from n = (if n < 2 ^ 64 then Some (of_nat n) else None)"

lemma u64_try_from_Some: "u64_try_from n = Some w \<longleftrightarrow> n < 2 ^ 64 \<and> unat w = n"
  by (auto simp: u64_try_from_def unat_of_nat)

lemma u32_try_from_Some: "u32_try_from n = Some w \<longleftrightarrow> n < 2 ^ 32 \<and> unat w = n"
  by (auto simp: u32_try_from_def unat_of_nat)

lemma u16_try_from_Some: "u16_try_from n = Some w \<longleftrightarrow> n < 2 ^ 16 \<and> unat w = n"
  by (auto simp: u16_try_from_def unat_of_nat)

lemma unat_add_no_overflow:
  fixes a b :: "'a::len word"
  assumes "unat a + unat b < 2 ^ LENGTH('a)"
  shows "unat (a + b) = unat a + unat b"
  using assms by (simp add: unat_word_ariths)

lemma u64_checked_add_eq_Some:
  "u64_checked_add a b = Some c \<longleftrightarrow> unat a + unat b < 2 ^ 64 \<and> c = a + b"
  by (auto simp: u64_checked_add_def)

lemma u64_checked_add_unat:
  "u64_checked_add a b = Some c \<Longrightarrow> unat c = unat a + unat b"
  by (auto simp: u64_checked_add_def unat_add_no_overflow split: if_splits)

lemma u64_saturating_add_unat:
  "unat (u64_saturating_add a b) = min (unat a + unat b) (2 ^ 64 - 1)"
  by (auto simp: u64_saturating_add_def unat_add_no_overflow min_def
      unsigned_minus_1_eq_mask mask_eq_exp_minus_1)

lemma saturating_sub_unat: "unat (saturating_sub a b) = unat a - unat b"
  by (auto simp: saturating_sub_def unat_sub word_le_nat_alt)

lemma div_ceil_ge:
  assumes "0 < b"
  shows "a \<le> div_ceil a b * b"
proof -
  have "a = a div b * b + a mod b" by simp
  moreover have "a mod b < b" using assms by simp
  ultimately have "a \<le> a div b * b + (if a mod b = 0 then 0 else b)"
    by (metis add_le_cancel_left add.right_neutral less_imp_le order_refl)
  then show ?thesis by (simp add: div_ceil_def add_mult_distrib split: if_splits)
qed

lemma div_ceil_least: "0 < b \<Longrightarrow> a \<le> k * b \<Longrightarrow> div_ceil a b \<le> k"
proof -
  assume b: "0 < b" and le: "a \<le> k * b"
  show "div_ceil a b \<le> k"
  proof (cases "a mod b = 0")
    case True
    then show ?thesis using b le
      by (simp add: div_ceil_def) (metis div_le_mono div_mult_self_is_m)
  next
    case False
    then have "a \<noteq> k * b" by auto
    with le have "a < k * b" by simp
    then have "a div b < k" using b by (simp add: div_less_iff_less_mult)
    with False show ?thesis by (simp add: div_ceil_def)
  qed
qed

section \<open>Slices\<close>

definition slice :: "nat \<Rightarrow> nat \<Rightarrow> 'a list \<Rightarrow> 'a list" where
  "slice a b xs = take (b - a) (drop a xs)"

text \<open>\<open>output[a..a + n].copy_from_slice(data)\<close> with \<open>n = data.len()\<close>.\<close>

definition copy_at :: "nat \<Rightarrow> 'a list \<Rightarrow> 'a list \<Rightarrow> 'a list" where
  "copy_at a data xs = take a xs @ data @ drop (a + length data) xs"

lemma length_slice [simp]: "length (slice a b xs) = min (b - a) (length xs - a)"
  by (simp add: slice_def)

lemma nth_slice [simp]: "i < b - a \<Longrightarrow> a + i < length xs \<Longrightarrow> slice a b xs ! i = xs ! (a + i)"
  by (simp add: slice_def)

lemma length_copy_at [simp]: "a + length d \<le> length xs \<Longrightarrow> length (copy_at a d xs) = length xs"
  by (simp add: copy_at_def)

lemma nth_copy_at:
  "a + length d \<le> length xs \<Longrightarrow> i < length xs \<Longrightarrow>
   copy_at a d xs ! i = (if a \<le> i \<and> i < a + length d then d ! (i - a) else xs ! i)"
  by (auto simp: copy_at_def nth_append min_def)

lemma slice_copy_at_same [simp]:
  "a + length d \<le> length xs \<Longrightarrow> b = a + length d \<Longrightarrow> slice a b (copy_at a d xs) = d"
  by (simp add: copy_at_def slice_def)

lemma slice_copy_at_disjoint:
  "a + length d \<le> length xs \<Longrightarrow> c \<le> length xs \<Longrightarrow> c \<le> a \<or> a + length d \<le> b \<Longrightarrow>
   slice b c (copy_at a d xs) = slice b c xs"
  by (rule nth_equalityI) (auto simp: nth_copy_at)

text \<open>Successive writes to a buffer merge into one prefix.\<close>

lemma list_update_copy_at: "i < length xs \<Longrightarrow> xs[i := v] = copy_at i [v] xs"
  by (simp add: copy_at_def upd_conv_take_nth_drop)

lemma copy_at_adjacent:
  "a + length x = b \<Longrightarrow> b + length y \<le> length xs \<Longrightarrow>
   copy_at b y (copy_at a x xs) = copy_at a (x @ y) xs"
  by (rule nth_equalityI) (auto simp: nth_copy_at nth_append)

lemma copy_at_0: "copy_at 0 d xs = d @ drop (length d) xs"
  by (simp add: copy_at_def)

lemma distinct_map_filterI:
  assumes "\<And>i j. i < length xs \<Longrightarrow> j < length xs \<Longrightarrow> P (xs ! i) \<Longrightarrow> P (xs ! j) \<Longrightarrow>
    f (xs ! i) = f (xs ! j) \<Longrightarrow> i = j"
  shows "distinct (map f (filter P xs))"
  using assms
proof (induction xs)
  case (Cons x xs)
  have "distinct (map f (filter P xs))"
    using Cons.prems [of "Suc _" "Suc _"] by (intro Cons.IH) auto
  moreover have "f x \<notin> f ` set (filter P xs)" if "P x"
  proof
    assume "f x \<in> f ` set (filter P xs)"
    then obtain i where "i < length xs" "P (xs ! i)" "f x = f (xs ! i)"
      by (auto simp: in_set_conv_nth)
    then show False using Cons.prems [of 0 "Suc i"] that by simp
  qed
  ultimately show ?case by simp
qed simp

lemma length_filter_update:
  "i < length xs \<Longrightarrow>
   length (filter P (xs[i := x])) + (if P (xs ! i) then 1 else 0)
     = length (filter P xs) + (if P x then 1 else 0)"
proof (induction xs arbitrary: i)
  case (Cons y ys)
  then show ?case using Cons.IH [of "i - 1"] by (cases i) auto
qed simp

section \<open>Words and octets\<close>

definition u16_from_be_bytes :: "u8 \<Rightarrow> u8 \<Rightarrow> u16" where
  "u16_from_be_bytes a b = push_bit 8 (ucast a) OR ucast b"

definition u16_to_be_bytes :: "u16 \<Rightarrow> u8 list" where
  "u16_to_be_bytes w = [ucast (drop_bit 8 w), ucast w]"

definition u32_from_be_bytes :: "u8 \<Rightarrow> u8 \<Rightarrow> u8 \<Rightarrow> u8 \<Rightarrow> u32" where
  "u32_from_be_bytes a b c d =
     push_bit 24 (ucast a) OR push_bit 16 (ucast b) OR push_bit 8 (ucast c) OR ucast d"

definition u32_to_be_bytes :: "u32 \<Rightarrow> u8 list" where
  "u32_to_be_bytes w =
     [ucast (drop_bit 24 w), ucast (drop_bit 16 w), ucast (drop_bit 8 w), ucast w]"

definition u32_from_le_bytes :: "u8 \<Rightarrow> u8 \<Rightarrow> u8 \<Rightarrow> u8 \<Rightarrow> u32" where
  "u32_from_le_bytes a b c d = u32_from_be_bytes d c b a"

definition u32_to_le_bytes :: "u32 \<Rightarrow> u8 list" where
  "u32_to_le_bytes w = rev (u32_to_be_bytes w)"

definition u64_from_be_bytes ::
  "u8 \<Rightarrow> u8 \<Rightarrow> u8 \<Rightarrow> u8 \<Rightarrow> u8 \<Rightarrow> u8 \<Rightarrow> u8 \<Rightarrow> u8 \<Rightarrow> u64" where
  "u64_from_be_bytes a b c d e f g h =
     push_bit 32 (ucast (u32_from_be_bytes a b c d)) OR ucast (u32_from_be_bytes e f g h)"

definition u64_to_be_bytes :: "u64 \<Rightarrow> u8 list" where
  "u64_to_be_bytes w = u32_to_be_bytes (ucast (drop_bit 32 w)) @ u32_to_be_bytes (ucast w)"

lemma bit_beyond: "LENGTH('a) \<le> n \<Longrightarrow> \<not> bit (w :: 'a::len word) n"
  by (meson bit_imp_le_length not_le)

lemma length_to_bytes [simp]:
  "length (u16_to_be_bytes v) = 2" "length (u32_to_be_bytes w) = 4"
  "length (u32_to_le_bytes w) = 4" "length (u64_to_be_bytes x) = 8"
  by (simp_all add: u16_to_be_bytes_def u32_to_be_bytes_def u32_to_le_bytes_def u64_to_be_bytes_def)

lemma u16_be_bytes_roundtrip [bytes_simps]:
  "u16_from_be_bytes (u16_to_be_bytes w ! 0) (u16_to_be_bytes w ! Suc 0) = w"
  by (rule bit_word_eqI)
    (auto simp: u16_from_be_bytes_def u16_to_be_bytes_def bit_simps)

lemma u16_be_bytes_roundtrip' [bytes_simps]:
  "u16_to_be_bytes (u16_from_be_bytes a b) = [a, b]"
  by (auto simp: u16_from_be_bytes_def u16_to_be_bytes_def bit_simps bit_beyond intro!: bit_word_eqI)

lemma u32_be_bytes_roundtrip [bytes_simps]:
  "u32_from_be_bytes (u32_to_be_bytes w ! 0) (u32_to_be_bytes w ! Suc 0)
     (u32_to_be_bytes w ! 2) (u32_to_be_bytes w ! 3) = w"
proof (rule bit_word_eqI)
  fix n assume "n < LENGTH(32)"
  then consider "n < 8" | "8 \<le> n" "n < 16" | "16 \<le> n" "n < 24" | "24 \<le> n" "n < 32"
    by fastforce
  then show "bit (u32_from_be_bytes (u32_to_be_bytes w ! 0) (u32_to_be_bytes w ! Suc 0)
     (u32_to_be_bytes w ! 2) (u32_to_be_bytes w ! 3)) n = bit w n"
    by cases (auto simp: u32_from_be_bytes_def u32_to_be_bytes_def bit_simps)
qed

lemma u32_be_bytes_roundtrip' [bytes_simps]:
  "u32_to_be_bytes (u32_from_be_bytes a b c d) = [a, b, c, d]"
  by (auto simp: u32_from_be_bytes_def u32_to_be_bytes_def bit_simps bit_beyond intro!: bit_word_eqI)

lemma u64_be_bytes_roundtrip [bytes_simps]:
  "u64_from_be_bytes (u64_to_be_bytes w ! 0) (u64_to_be_bytes w ! Suc 0)
     (u64_to_be_bytes w ! 2) (u64_to_be_bytes w ! 3) (u64_to_be_bytes w ! 4)
     (u64_to_be_bytes w ! 5) (u64_to_be_bytes w ! 6) (u64_to_be_bytes w ! 7) = w"
proof -
  have "u64_from_be_bytes (u64_to_be_bytes w ! 0) (u64_to_be_bytes w ! Suc 0)
     (u64_to_be_bytes w ! 2) (u64_to_be_bytes w ! 3) (u64_to_be_bytes w ! 4)
     (u64_to_be_bytes w ! 5) (u64_to_be_bytes w ! 6) (u64_to_be_bytes w ! 7)
     = push_bit 32 (ucast (ucast (drop_bit 32 w) :: u32)) OR ucast (ucast w :: u32)"
    by (simp add: u64_from_be_bytes_def u64_to_be_bytes_def nth_append u32_be_bytes_roundtrip)
  also have "\<dots> = w"
    by (rule bit_word_eqI) (auto simp: bit_simps)
  finally show ?thesis .
qed

lemma u64_be_bytes_roundtrip' [bytes_simps]:
  "u64_to_be_bytes (u64_from_be_bytes a b c d e f g h) = [a, b, c, d, e, f, g, h]"
proof -
  have "ucast (drop_bit 32 (push_bit 32 (ucast x) OR ucast y :: u64)) = x"
    and "ucast (push_bit 32 (ucast x) OR ucast y :: u64) = y" for x y :: u32
    by (auto intro!: bit_word_eqI simp: bit_simps bit_beyond)
  then show ?thesis
    by (simp add: u64_from_be_bytes_def u64_to_be_bytes_def u32_be_bytes_roundtrip')
qed

lemma u16_be_expand [bytes_simps]:
  "u16_from_be_bytes (ucast (drop_bit 8 w)) (ucast w) = w"
  using u16_be_bytes_roundtrip [of w] by (simp add: u16_to_be_bytes_def)

lemma u32_be_expand [bytes_simps]:
  "u32_from_be_bytes (ucast (drop_bit 24 w)) (ucast (drop_bit 16 w)) (ucast (drop_bit 8 w)) (ucast w)
     = w"
  using u32_be_bytes_roundtrip [of w] by (simp add: u32_to_be_bytes_def)

section \<open>Bit fields\<close>

lemma le_mask_and:
  fixes w :: "'a::len word"
  assumes "w \<le> mask n"
  shows "w AND mask n = w"
proof -
  have "uint w \<le> uint (mask n :: 'a word)" using assms by (simp add: word_le_def)
  also have "\<dots> = take_bit LENGTH('a) (mask n)"
    by (rule bit_eqI) (simp add: bit_simps)
  also have "\<dots> \<le> mask n" by (simp only: take_bit_int_less_eq_self_iff) simp
  finally have "uint w < 2 ^ n" by (simp add: mask_eq_exp_minus_1)
  then have "take_bit n w = w"
    by (simp add: word_uint_eq_iff unsigned_take_bit_eq take_bit_int_eq_self)
  then show ?thesis by (simp add: take_bit_eq_mask)
qed

lemma le_mask_and_0:
  "w \<le> mask n \<Longrightarrow> mask n AND m = 0 \<Longrightarrow> w AND m = (0 :: 'a::len word)"
  by (metis and.assoc and_zero_eq le_mask_and)

lemma and_single_bit:
  fixes w m :: "'a::len word"
  assumes "m = 2 ^ n"
  shows "(if w AND m \<noteq> 0 then m else 0) = w AND m"
  unfolding assms by (rule bit_word_eqI) (auto simp: bit_simps and_exp_eq_0_iff_not_bit)

lemma u8_eqI:
  fixes x y :: u8
  assumes "bit x 0 = bit y 0" "bit x 1 = bit y 1" "bit x 2 = bit y 2" "bit x 3 = bit y 3"
    "bit x 4 = bit y 4" "bit x 5 = bit y 5" "bit x 6 = bit y 6" "bit x 7 = bit y 7"
  shows "x = y"
proof (rule bit_word_eqI)
  fix n assume "n < LENGTH(8)"
  then have "n \<in> {0, 1, 2, 3, 4, 5, 6, 7}" by auto
  then show "bit x n = bit y n" using assms by auto
qed

end
