(* ===== verification/Core_Psn.thy ===== *)
theory Core_Psn
  imports Prelude
begin

text \<open>
  The 24-bit packet sequence numbers of \<open>rocev2-core/src/psn.rs\<close>.  A PSN is
  related to the unbounded sequence number it stands for by \<open>psn_of\<close>; the
  lemmas state each operation on those numbers, so that the windows built on
  top of them can be verified without wrap-around.
\<close>

section \<open>Model\<close>

definition PSN_MASK :: u32 where
  "PSN_MASK = 0x00ffffff"

definition PSN_MODULUS :: u32 where
  "PSN_MODULUS = PSN_MASK + 1"

datatype PsnOrdering = Before | Equal | After

datatype psn = Psn (psn_value: u32)

definition psn_zero :: psn where
  "psn_zero = Psn 0"

definition psn_new :: "u32 \<Rightarrow> psn option" where
  "psn_new value = (if value \<le> PSN_MASK then Some (Psn value) else None)"

definition new_truncated :: "u32 \<Rightarrow> psn" where
  "new_truncated value = Psn (value AND PSN_MASK)"

definition wrapping_add :: "psn \<Rightarrow> u32 \<Rightarrow> psn" where
  "wrapping_add p increment = new_truncated (psn_value p + increment)"

definition psn_next :: "psn \<Rightarrow> psn" where
  "psn_next p = wrapping_add p 1"

definition forward_distance_from :: "psn \<Rightarrow> psn \<Rightarrow> u32" where
  "forward_distance_from p older = (psn_value p - psn_value older) AND PSN_MASK"

definition psn_compare :: "psn \<Rightarrow> psn \<Rightarrow> PsnOrdering" where
  "psn_compare p reference =
     (if psn_value p = psn_value reference then Equal
      else let shifted = push_bit 8 ((psn_value p - psn_value reference) AND PSN_MASK)
           in if shifted AND 0x80000000 \<noteq> 0 then Before else After)"

definition is_before :: "psn \<Rightarrow> psn \<Rightarrow> bool" where
  "is_before p reference = (psn_compare p reference = Before)"

definition is_after :: "psn \<Rightarrow> psn \<Rightarrow> bool" where
  "is_after p reference = (psn_compare p reference = After)"

section \<open>Sequence numbers without wrap-around\<close>

definition psn_ok :: "psn \<Rightarrow> bool" where
  "psn_ok p = (psn_value p \<le> PSN_MASK)"

definition psn_of :: "int \<Rightarrow> psn" where
  "psn_of k = Psn (word_of_int (k mod 2 ^ 24))"

lemma PSN_MASK_mask: "PSN_MASK = mask 24"
  by (simp add: PSN_MASK_def mask_eq_exp_minus_1)

lemma uint_and_PSN_MASK: "uint (w AND PSN_MASK) = uint w mod 2 ^ 24"
  unfolding PSN_MASK_mask take_bit_eq_mask [symmetric] unsigned_take_bit_eq
  by (simp add: take_bit_eq_mod)

lemma uint_psn_of [simp]: "uint (psn_value (psn_of k)) = k mod 2 ^ 24"
  by (simp add: psn_of_def unsigned_of_int take_bit_eq_mod mod_mod_cancel)

lemma psn_eq_iff: "p = q \<longleftrightarrow> uint (psn_value p) = uint (psn_value q)"
  by (cases p; cases q) (simp add: word_uint_eq_iff)

lemma psn_ok_iff: "psn_ok p \<longleftrightarrow> uint (psn_value p) < 2 ^ 24"
  by (simp add: psn_ok_def PSN_MASK_def word_le_def) linarith

lemma psn_ok_psn_of [simp]: "psn_ok (psn_of k)"
  by (simp add: psn_ok_iff)

lemma psn_of_eq_iff: "psn_of a = psn_of b \<longleftrightarrow> a mod 2 ^ 24 = b mod 2 ^ 24"
  by (simp add: psn_eq_iff)

lemma psn_of_uint: "psn_ok p \<Longrightarrow> psn_of (uint (psn_value p)) = p"
  by (simp add: psn_eq_iff psn_ok_iff)

lemma psn_ok_obtain:
  assumes "psn_ok p"
  obtains k where "p = psn_of k" and "c \<le> k" and "k < c + 2 ^ 24"
proof
  let ?k = "c + (uint (psn_value p) - c) mod 2 ^ 24"
  show "p = psn_of ?k"
    using assms by (simp add: psn_eq_iff psn_ok_iff mod_simps)
  show "c \<le> ?k" and "?k < c + 2 ^ 24" by simp_all
qed

lemma new_truncated_eq: "new_truncated v = psn_of (uint v)"
  by (simp add: psn_eq_iff new_truncated_def uint_and_PSN_MASK)

lemma wrapping_add_psn_of: "wrapping_add (psn_of k) n = psn_of (k + uint n)"
  by (simp add: wrapping_add_def new_truncated_eq psn_of_eq_iff uint_word_ariths mod_mod_cancel
      mod_simps)

lemma psn_next_psn_of: "psn_next (psn_of k) = psn_of (k + 1)"
  by (simp add: psn_next_def wrapping_add_psn_of)

lemma uint_forward_distance:
  "uint (forward_distance_from (psn_of a) (psn_of b)) = (a - b) mod 2 ^ 24"
  by (simp add: forward_distance_from_def uint_and_PSN_MASK uint_word_ariths mod_mod_cancel
      mod_simps)

lemma sign_bit_24:
  fixes w :: u32
  assumes "uint w < 2 ^ 24"
  shows "push_bit 8 w AND 0x80000000 \<noteq> 0 \<longleftrightarrow> 2 ^ 23 \<le> uint w"
proof -
  have "(0x80000000 :: u32) = push_bit 31 1" by (simp add: push_bit_eq_mult)
  then have "push_bit 8 w AND 0x80000000 \<noteq> 0 \<longleftrightarrow> bit (push_bit 8 w) 31"
    by (simp only: bit_iff_and_push_bit_not_eq_0)
  also have "\<dots> \<longleftrightarrow> bit w 23"
    by (simp add: bit_simps)
  also have "\<dots> \<longleftrightarrow> bit (uint w) 23"
    by (simp add: bit_unsigned_iff)
  also have "\<dots> \<longleftrightarrow> odd (uint w div 2 ^ 23)"
    by (rule bit_iff_odd)
  also have "\<dots> \<longleftrightarrow> 2 ^ 23 \<le> uint w"
  proof (cases "2 ^ 23 \<le> uint w")
    case True
    then have "uint w div 2 ^ 23 = 1" using assms
      by (intro int_div_pos_eq [of _ _ _ "uint w - 2 ^ 23"]) simp_all
    then show ?thesis using True by simp
  next
    case False
    then have "uint w div 2 ^ 23 = 0" by (simp add: div_pos_pos_trivial)
    then show ?thesis using False by simp
  qed
  finally show ?thesis .
qed

text \<open>Comparison is exact on sequence numbers less than half the space apart.\<close>

lemma psn_compare_psn_of:
  assumes "- (2 ^ 23) \<le> a - b" and "a - b < 2 ^ 23"
  shows "psn_compare (psn_of a) (psn_of b) =
    (if a < b then Before else if a = b then Equal else After)"
proof -
  let ?d = "(psn_value (psn_of a) - psn_value (psn_of b)) AND PSN_MASK"
  have d: "uint ?d = (a - b) mod 2 ^ 24"
    using uint_forward_distance by (simp add: forward_distance_from_def)
  have sign: "push_bit 8 ?d AND 0x80000000 \<noteq> 0 \<longleftrightarrow> 2 ^ 23 \<le> (a - b) mod 2 ^ 24"
    using sign_bit_24 [of ?d] unfolding d by simp
  have m: "(a - b) mod 2 ^ 24 = (if a < b then a - b + 2 ^ 24 else a - b)"
  proof (cases "a < b")
    case True
    have "(a - b) mod 2 ^ 24 = (a - b + 2 ^ 24) mod 2 ^ 24" by simp
    also have "\<dots> = a - b + 2 ^ 24" using True assms by (intro mod_pos_pos_trivial) simp_all
    finally show ?thesis using True by simp
  qed (use assms in simp)
  have eq: "psn_value (psn_of a) = psn_value (psn_of b) \<longleftrightarrow> a = b"
  proof
    assume "psn_value (psn_of a) = psn_value (psn_of b)"
    then have "(a - b) mod 2 ^ 24 = 0" using d by simp
    then show "a = b" using m assms by (auto split: if_splits)
  qed simp
  show ?thesis
    unfolding psn_compare_def Let_def eq sign m using assms by auto
qed

lemma is_before_psn_of:
  assumes "- (2 ^ 23) \<le> a - b" and "a - b < 2 ^ 23"
  shows "is_before (psn_of a) (psn_of b) \<longleftrightarrow> a < b"
  using psn_compare_psn_of [OF assms] by (simp add: is_before_def)

lemma is_after_psn_of:
  assumes "- (2 ^ 23) \<le> a - b" and "a - b < 2 ^ 23"
  shows "is_after (psn_of a) (psn_of b) \<longleftrightarrow> b < a"
  using psn_compare_psn_of [OF assms] by (auto simp: is_after_def)

end
