(* ===== verification/Core_Ack.thy ===== *)
theory Core_Ack
  imports Core_Psn
begin

text \<open>
  ACK processing and receive-side classification, \<open>rocev2-core/src/ack.rs\<close>.
  The abstract send window is a pair \<open>u \<le> n\<close> of unbounded sequence numbers
  (first unacknowledged, next to send); \<open>window_rep\<close> relates it to the two
  24-bit fields, and every operation is shown to act on that pair.
\<close>

section \<open>Model\<close>

definition MAX_OUTSTANDING_PACKETS :: u32 where
  "MAX_OUTSTANDING_PACKETS = PSN_MODULUS div 2 - 1"

datatype AckAdvance =
    Advanced (packets: u32) (next_unacknowledged: psn)
  | AckDuplicate
  | AckInvalid

datatype ReceiveDisposition = Expected | Duplicate | Future

record ReceivePsn =
  expected :: psn

definition receive_psn_new :: "psn \<Rightarrow> ReceivePsn" where
  "receive_psn_new e = \<lparr>expected = e\<rparr>"

definition classify :: "ReceivePsn \<Rightarrow> psn \<Rightarrow> ReceiveDisposition" where
  "classify r received =
     (case psn_compare received (expected r) of
        Equal \<Rightarrow> Expected
      | Before \<Rightarrow> Duplicate
      | After \<Rightarrow> Future)"

definition observe_span :: "ReceivePsn \<Rightarrow> psn \<Rightarrow> u32 \<Rightarrow> ReceivePsn \<times> ReceiveDisposition" where
  "observe_span r received n =
     (let disposition = classify r received;
          r' = (if disposition = Expected \<and> n \<noteq> 0
                then r\<lparr>expected := wrapping_add (expected r) n\<rparr> else r)
      in (r', disposition))"

definition observe :: "ReceivePsn \<Rightarrow> psn \<Rightarrow> ReceivePsn \<times> ReceiveDisposition" where
  "observe r received = observe_span r received 1"

definition receive_psn_reset :: "ReceivePsn \<Rightarrow> psn \<Rightarrow> ReceivePsn" where
  "receive_psn_reset r e = r\<lparr>expected := e\<rparr>"

record SendWindow =
  oldest_unacknowledged :: psn
  next_to_send :: psn

definition send_window_new :: "psn \<Rightarrow> SendWindow" where
  "send_window_new initial_psn =
     \<lparr>oldest_unacknowledged = initial_psn, next_to_send = initial_psn\<rparr>"

definition outstanding :: "SendWindow \<Rightarrow> u32" where
  "outstanding w = forward_distance_from (next_to_send w) (oldest_unacknowledged w)"

definition reserve_many :: "SendWindow \<Rightarrow> u32 \<Rightarrow> SendWindow \<times> psn option" where
  "reserve_many w n =
     (if n = 0 \<or> n > MAX_OUTSTANDING_PACKETS
         \<or> outstanding w > MAX_OUTSTANDING_PACKETS - n
      then (w, None)
      else (w\<lparr>next_to_send := wrapping_add (next_to_send w) n\<rparr>, Some (next_to_send w)))"

definition reserve :: "SendWindow \<Rightarrow> SendWindow \<times> psn option" where
  "reserve w = reserve_many w 1"

definition acknowledge :: "SendWindow \<Rightarrow> psn \<Rightarrow> SendWindow \<times> AckAdvance" where
  "acknowledge w acknowledged =
     (if psn_compare acknowledged (oldest_unacknowledged w) = Before
      then (w, AckDuplicate)
      else if psn_compare acknowledged (next_to_send w) \<noteq> Before
      then (w, AckInvalid)
      else let n = forward_distance_from acknowledged (oldest_unacknowledged w) + 1;
               w' = w\<lparr>oldest_unacknowledged := psn_next acknowledged\<rparr>
           in (w', Advanced n (oldest_unacknowledged w')))"

definition send_window_reset :: "SendWindow \<Rightarrow> psn \<Rightarrow> SendWindow" where
  "send_window_reset w initial_psn =
     w\<lparr>oldest_unacknowledged := initial_psn, next_to_send := initial_psn\<rparr>"

section \<open>The window on unbounded sequence numbers\<close>

definition window_rep :: "SendWindow \<Rightarrow> int \<Rightarrow> int \<Rightarrow> bool" where
  "window_rep w u n \<longleftrightarrow>
     oldest_unacknowledged w = psn_of u \<and> next_to_send w = psn_of n \<and>
     u \<le> n \<and> n - u \<le> uint MAX_OUTSTANDING_PACKETS"

lemma uint_MAX_OUTSTANDING [simp]: "uint MAX_OUTSTANDING_PACKETS = 2 ^ 23 - 1"
  by (simp add: MAX_OUTSTANDING_PACKETS_def PSN_MODULUS_def PSN_MASK_def uint_div_distrib)

lemma window_rep_new: "window_rep (send_window_new (psn_of k)) k k"
  by (simp add: window_rep_def send_window_new_def)

lemma window_rep_outstanding:
  "window_rep w u n \<Longrightarrow> uint (outstanding w) = n - u"
  by (simp add: window_rep_def outstanding_def uint_forward_distance mod_pos_pos_trivial)

lemma reserve_many_rep:
  assumes "window_rep w u n"
  shows "reserve_many w p =
    (if 0 < uint p \<and> n - u + uint p \<le> 2 ^ 23 - 1
     then (w\<lparr>next_to_send := psn_of (n + uint p)\<rparr>, Some (psn_of n))
     else (w, None))"
proof -
  have full: "n > MAX_OUTSTANDING_PACKETS \<longleftrightarrow> 2 ^ 23 - 1 < uint n" for n
    by (simp add: word_less_def)
  have room: "outstanding w > MAX_OUTSTANDING_PACKETS - p \<longleftrightarrow> 2 ^ 23 - 1 < n - u + uint p"
    if "\<not> p > MAX_OUTSTANDING_PACKETS"
  proof -
    have "uint (MAX_OUTSTANDING_PACKETS - p) = uint MAX_OUTSTANDING_PACKETS - uint p"
      using that by (simp only: not_less uint_minus_simple_alt)
    then show ?thesis
      by (simp add: word_less_def window_rep_outstanding [OF assms]) linarith
  qed
  have nz: "p = 0 \<longleftrightarrow> \<not> 0 < uint p"
    using uint_nonnegative [of p] by (auto simp: word_uint_eq_iff order.order_iff_strict)
  show ?thesis
  proof (cases "p > MAX_OUTSTANDING_PACKETS")
    case True
    then show ?thesis using assms unfolding reserve_many_def full window_rep_def by auto
  next
    case False
    have "wrapping_add (next_to_send w) p = psn_of (n + uint p)" and "next_to_send w = psn_of n"
      using assms by (simp_all add: window_rep_def wrapping_add_psn_of)
    then show ?thesis
      using False unfolding reserve_many_def room [OF False] nz by auto
  qed
qed

lemma reserve_many_keeps_rep:
  assumes "window_rep w u n" and "reserve_many w p = (w', Some q)"
  shows "window_rep w' u (n + uint p)"
  using assms by (auto simp: reserve_many_rep [OF assms(1)] window_rep_def split: if_splits)

lemma acknowledge_rep:
  assumes "window_rep w u n" and "u - 2 ^ 23 \<le> k" and "k < u + 2 ^ 23"
  shows "acknowledge w (psn_of k) =
    (if k < u then (w, AckDuplicate)
     else if n \<le> k then (w, AckInvalid)
     else (w\<lparr>oldest_unacknowledged := psn_of (k + 1)\<rparr>,
           Advanced (word_of_int (k - u + 1)) (psn_of (k + 1))))"
proof -
  have fields: "oldest_unacknowledged w = psn_of u" "next_to_send w = psn_of n"
    and bounds: "u \<le> n" "n - u \<le> 2 ^ 23 - 1"
    using assms(1) by (simp_all add: window_rep_def)
  have old: "psn_compare (psn_of k) (psn_of u) = Before \<longleftrightarrow> k < u"
    using assms(2,3) by (subst psn_compare_psn_of) auto
  have new: "psn_compare (psn_of k) (psn_of n) = Before \<longleftrightarrow> k < n" if "u \<le> k"
    using that assms(3) bounds by (subst psn_compare_psn_of) auto
  have distance: "forward_distance_from (psn_of k) (psn_of u) + 1 = word_of_int (k - u + 1)"
    if "u \<le> k"
  proof -
    have "uint (forward_distance_from (psn_of k) (psn_of u)) = k - u"
      using that assms(3) by (simp add: uint_forward_distance mod_pos_pos_trivial)
    then have "forward_distance_from (psn_of k) (psn_of u) = word_of_int (k - u)"
      by (metis word_of_int_uint)
    then show ?thesis by simp
  qed
  show ?thesis
    unfolding acknowledge_def fields Let_def
    using old new distance by (auto simp: psn_next_psn_of not_le not_less)
qed

lemma acknowledge_keeps_rep:
  assumes "window_rep w u n" and "u \<le> k" and "k < n"
  shows "window_rep (fst (acknowledge w (psn_of k))) (k + 1) n"
  using assms by (subst acknowledge_rep [OF assms(1)]) (auto simp: window_rep_def)

text \<open>The receive tracker on unbounded sequence numbers.\<close>

lemma classify_rep:
  assumes "expected r = psn_of e" and "e - 2 ^ 23 \<le> k" and "k < e + 2 ^ 23"
  shows "classify r (psn_of k) = (if k < e then Duplicate else if k = e then Expected else Future)"
  using assms by (simp add: classify_def psn_compare_psn_of)

lemma classify_Expected_iff: "classify r p = Expected \<longleftrightarrow> psn_value p = psn_value (expected r)"
  by (auto simp: classify_def psn_compare_def Let_def split: PsnOrdering.splits if_splits)

lemma classify_Expected: "classify r p = Expected \<longleftrightarrow> p = expected r"
  by (cases p; cases "expected r") (simp add: classify_Expected_iff)

lemma observe_span_rep:
  assumes "expected r = psn_of e"
  shows "observe_span r p n =
    (if p = psn_of e then r\<lparr>expected := psn_of (e + uint n)\<rparr> else r, classify r p)"
  using assms
  by (auto simp: observe_span_def Let_def classify_Expected wrapping_add_psn_of)

section \<open>Histories of a send window\<close>

text \<open>
  A history is a sequence of reservations and received acknowledgements.
  \<open>window_run\<close> returns the final window with the number of packets whose PSN
  was reserved and the number reported as newly acknowledged.
\<close>

datatype window_event = Reserve_Event u32 | Ack_Event psn

fun window_run :: "window_event list \<Rightarrow> SendWindow \<Rightarrow> SendWindow \<times> int \<times> int" where
  "window_run [] w = (w, 0, 0)"
| "window_run (Reserve_Event n # es) w =
     (let (w', r) = reserve_many w n; (w'', sent, acked) = window_run es w'
      in (w'', (if r = None then 0 else uint n) + sent, acked))"
| "window_run (Ack_Event p # es) w =
     (let (w', a) = acknowledge w p; (w'', sent, acked) = window_run es w'
      in (w'', sent, (case a of Advanced n q \<Rightarrow> uint n | _ \<Rightarrow> 0) + acked))"

fun event_ok :: "window_event \<Rightarrow> bool" where
  "event_ok (Reserve_Event n) = True"
| "event_ok (Ack_Event p) = psn_ok p"

lemma window_run_rep:
  assumes "window_rep w u n" and "\<forall>e \<in> set es. event_ok e"
    and "window_run es w = (w', sent, acked)"
  shows "0 \<le> sent \<and> 0 \<le> acked \<and> window_rep w' (u + acked) (n + sent)"
  using assms
proof (induction es w arbitrary: u n w' sent acked rule: window_run.induct)
  case (2 m es w)
  obtain w1 r where r: "reserve_many w m = (w1, r)" by fastforce
  obtain w2 s a where rest: "window_run es w1 = (w2, s, a)" using prod_cases3 by blast
  have res: "w' = w2" "sent = (if r = None then 0 else uint m) + s" "acked = a"
    using "2.prems"(3) r rest by auto
  have "window_rep w1 u (n + (if r = None then 0 else uint m))"
    using r reserve_many_keeps_rep [OF "2.prems"(1)] "2.prems"(1)
    by (auto simp: reserve_many_rep [OF "2.prems"(1)] split: if_splits)
  from "2.IH" [OF r [symmetric] refl this _ rest] "2.prems"(2) show ?case
    by (auto simp: res add.assoc)
next
  case (3 p es w)
  obtain w1 r where r: "acknowledge w p = (w1, r)" by fastforce
  obtain w2 s a where rest: "window_run es w1 = (w2, s, a)" using prod_cases3 by blast
  define d where "d = (case r of Advanced n q \<Rightarrow> uint n | _ \<Rightarrow> 0)"
  have res: "w' = w2" "sent = s" "acked = d + a"
    using "3.prems"(3) r rest by (auto simp: d_def)
  obtain k where k: "p = psn_of k" "u - 2 ^ 23 \<le> k" "k < u - 2 ^ 23 + 2 ^ 24"
    using psn_ok_obtain "3.prems"(2) by (metis event_ok.simps(2) list.set_intros(1))
  have k': "k < u + 2 ^ 23" using k by simp
  have "uint (word_of_int (k - u + 1) :: u32) = k - u + 1" if "u \<le> k"
    using that k' by (simp add: unsigned_of_int take_bit_int_eq_self del: of_int_add of_int_diff)
  then have d: "d = (if u \<le> k \<and> k < n then k - u + 1 else 0)"
    using r k' unfolding k(1) acknowledge_rep [OF "3.prems"(1) k(2) k'] d_def
    by (auto simp del: of_int_add of_int_diff split: if_splits)
  have "window_rep w1 (u + d) n"
    using r acknowledge_keeps_rep [OF "3.prems"(1), of k] "3.prems"(1) d
    unfolding k(1) acknowledge_rep [OF "3.prems"(1) k(2) k']
    by (auto split: if_splits)
  from "3.IH" [OF r [symmetric] refl this _ rest] "3.prems"(2) show ?case
    using d by (auto simp: res add.assoc)
qed simp

section \<open>Properties\<close>

text \<open>C12: Cumulative acknowledgement is exact.  Let a send window represent the
  sequence numbers from \<open>u\<close> (first unacknowledged) up to \<open>n\<close> (next to send), at
  most \<open>2^23 - 1\<close> of them, and let \<open>k\<close> be the unique sequence number in the half
  space around \<open>u\<close> that the received 24-bit PSN stands for.  An ACK below \<open>u\<close> is
  a duplicate and one at or above \<open>n\<close> is invalid, both leaving the window alone;
  any other ACK retires exactly the packets \<open>u..k\<close>, across PSN wrap-around.\<close>

theorem acknowledge_exact:
  assumes "window_rep w u n" and "u - 2 ^ 23 \<le> k" and "k < u + 2 ^ 23"
  shows "acknowledge w (psn_of k) =
    (if k < u then (w, AckDuplicate)
     else if n \<le> k then (w, AckInvalid)
     else (w\<lparr>oldest_unacknowledged := psn_of (k + 1)\<rparr>,
           Advanced (word_of_int (k - u + 1)) (psn_of (k + 1)))) \<and>
    (u \<le> k \<and> k < n \<longrightarrow> window_rep (fst (acknowledge w (psn_of k))) (k + 1) n)"
  using acknowledge_rep [OF assms] acknowledge_keeps_rep [OF assms(1)] by blast

theorem acknowledge_exact_witness:
  "acknowledge \<lparr>oldest_unacknowledged = Psn 0xfffffe, next_to_send = Psn 3\<rparr> (Psn 1) =
     (\<lparr>oldest_unacknowledged = Psn 2, next_to_send = Psn 3\<rparr>, Advanced 4 (Psn 2))"
proof -
  let ?w = "\<lparr>oldest_unacknowledged = Psn 0xfffffe, next_to_send = Psn 3\<rparr>"
  have "window_rep ?w 0xfffffe 0x1000003"
    by (simp add: window_rep_def psn_of_def)
  from acknowledge_exact [OF this, where k = "0x1000001"] show ?thesis
    by (simp add: psn_of_def)
qed

text \<open>C11: Packet accounting over any history.  Starting from a fresh window, after any
  interleaving of range reservations and received (24-bit) acknowledgements, the number
  of packets reported acknowledged never exceeds the number reserved, their difference
  is the window's \<open>outstanding\<close> count and stays below half the PSN space, and both ends
  of the window are the initial PSN advanced by those two counts.\<close>

theorem send_window_history:
  assumes "psn_ok p0" and "\<forall>e \<in> set es. event_ok e"
    and "window_run es (send_window_new p0) = (w, sent, acked)"
  shows "0 \<le> acked \<and> acked \<le> sent \<and> uint (outstanding w) = sent - acked \<and>
    sent - acked \<le> uint MAX_OUTSTANDING_PACKETS \<and>
    oldest_unacknowledged w = psn_of (uint (psn_value p0) + acked) \<and>
    next_to_send w = psn_of (uint (psn_value p0) + sent)"
proof -
  let ?k = "uint (psn_value p0)"
  have "window_rep (send_window_new p0) ?k ?k"
    using window_rep_new [of ?k] by (simp add: psn_of_uint assms(1))
  from window_run_rep [OF this assms(2,3)]
  have "0 \<le> acked" and rep: "window_rep w (?k + acked) (?k + sent)" by auto
  then show ?thesis
    using window_rep_outstanding [OF rep] by (simp add: window_rep_def)
qed

theorem send_window_history_witness:
  "window_run [Reserve_Event 4, Ack_Event (Psn 0), Ack_Event (Psn 0)]
     (send_window_new (Psn 0xfffffe)) =
     (\<lparr>oldest_unacknowledged = Psn 1, next_to_send = Psn 2\<rparr>, 4, 3) \<and>
   outstanding \<lparr>oldest_unacknowledged = Psn 1, next_to_send = Psn 2\<rparr> = 1"
proof -
  let ?es = "[Reserve_Event 4, Ack_Event (Psn 0), Ack_Event (Psn 0)]"
  let ?w = "\<lparr>oldest_unacknowledged = Psn 1, next_to_send = Psn 2\<rparr>"
  have run: "window_run ?es (send_window_new (Psn 0xfffffe)) = (?w, 4, 3)"
    by code_simp
  have "psn_ok (Psn 0xfffffe)" and "\<forall>e \<in> set ?es. event_ok e"
    by (simp_all add: psn_ok_def PSN_MASK_def)
  from send_window_history [OF this run] have "uint (outstanding ?w) = 4 - 3" by blast
  then show ?thesis using run by (simp add: word_uint_eq_iff)
qed

text \<open>C13: The receive tracker advances exactly over the accepted span.  With expected
  sequence number \<open>e\<close>, a PSN standing for \<open>k\<close> in the half space around \<open>e\<close> is a duplicate
  below \<open>e\<close>, expected at \<open>e\<close> and future above it; only the expected PSN moves the tracker,
  to \<open>e + n\<close>, and every packet of the consumed span is from then on a duplicate.\<close>

theorem observe_span_exact:
  assumes "expected r = psn_of e" and "e - 2 ^ 23 \<le> k" and "k < e + 2 ^ 23"
    and "uint n \<le> 2 ^ 23"
  shows "observe_span r (psn_of k) n =
      (if k = e then r\<lparr>expected := psn_of (e + uint n)\<rparr> else r,
       if k < e then Duplicate else if k = e then Expected else Future) \<and>
    (k = e \<longrightarrow> (\<forall>j. e \<le> j \<and> j < e + uint n \<longrightarrow>
       classify (fst (observe_span r (psn_of k) n)) (psn_of j) = Duplicate))"
proof -
  have "psn_of k = psn_of e \<longleftrightarrow> k = e"
    using classify_rep [OF assms(1-3)] assms(1)
    by (metis ReceiveDisposition.distinct(1,3) classify_Expected less_irrefl)
  then have run: "observe_span r (psn_of k) n =
      (if k = e then r\<lparr>expected := psn_of (e + uint n)\<rparr> else r,
       if k < e then Duplicate else if k = e then Expected else Future)"
    using classify_rep [OF assms(1-3)] by (simp add: observe_span_rep [OF assms(1)])
  have "classify (r\<lparr>expected := psn_of (e + uint n)\<rparr>) (psn_of j) = Duplicate"
    if "e \<le> j" and "j < e + uint n" for j
    using that assms(4) by (subst classify_rep [where e = "e + uint n"]) auto
  then show ?thesis unfolding run by simp
qed

theorem observe_span_exact_witness:
  "observe_span \<lparr>expected = Psn 0xffffff\<rparr> (Psn 0xffffff) 3 = (\<lparr>expected = Psn 2\<rparr>, Expected)
   \<and> classify \<lparr>expected = Psn 2\<rparr> (Psn 1) = Duplicate"
  using observe_span_exact [of "\<lparr>expected = Psn 0xffffff\<rparr>" "0xffffff" "0xffffff" 3]
  by (auto simp: psn_of_def dest!: spec [of _ "0x1000001"])

end
