(* ===== verification/Contracts.thy ===== *)
theory Contracts
  imports Prelude "HOL-Library.Sublist"
begin

text \<open>
  The interfaces between the components, as locales: the operations a client
  calls, an abstraction to a mathematical value, an invariant, and the laws the
  provider promises.  The clients' lemmas are proved once here; each locale is
  interpreted on the model's data structure in the theory of that structure.
\<close>

section \<open>Bounded FIFO queues\<close>

datatype 'a PushError = Full (into_inner: 'a)

datatype 'a fifo_op = Push_Op 'a | Pop_Op

text \<open>
  Running a sequence of operations; the outputs are the rejected item of a push
  and the removed item of a pop.
\<close>

fun fifo_run :: "('q \<Rightarrow> 'a \<Rightarrow> 'q \<times> ('a PushError + unit)) \<Rightarrow> ('q \<Rightarrow> 'q \<times> 'a option) \<Rightarrow>
    'a fifo_op list \<Rightarrow> 'q \<Rightarrow> 'q \<times> 'a option list" where
  "fifo_run push pop [] q = (q, [])"
| "fifo_run push pop (Push_Op x # ops) q =
     (let (q', r) = push q x; (q'', out) = fifo_run push pop ops q'
      in (q'', (case r of Inl e \<Rightarrow> Some (into_inner e) | Inr _ \<Rightarrow> None) # out))"
| "fifo_run push pop (Pop_Op # ops) q =
     (let (q', r) = pop q; (q'', out) = fifo_run push pop ops q' in (q'', r # out))"

text \<open>The reference queue: a list of at most \<open>n\<close> items.\<close>

definition list_push :: "nat \<Rightarrow> 'a list \<Rightarrow> 'a \<Rightarrow> 'a list \<times> ('a PushError + unit)" where
  "list_push n xs x = (if length xs = n then (xs, Inl (Full x)) else (xs @ [x], Inr ()))"

fun list_pop :: "'a list \<Rightarrow> 'a list \<times> 'a option" where
  "list_pop [] = ([], None)"
| "list_pop (x # xs) = (xs, Some x)"

fun push_all :: "('q \<Rightarrow> 'a \<Rightarrow> 'q \<times> ('a PushError + unit)) \<Rightarrow> 'a list \<Rightarrow> 'q \<Rightarrow> 'q \<times> bool" where
  "push_all push [] q = (q, True)"
| "push_all push (x # xs) q =
     (case push q x of (q', Inl _) \<Rightarrow> (q', False) | (q', Inr _) \<Rightarrow> push_all push xs q')"

locale bounded_fifo =
  fixes fifo_cap :: "'q \<Rightarrow> nat"
    and fifo_push :: "'q \<Rightarrow> 'a \<Rightarrow> 'q \<times> ('a PushError + unit)"
    and fifo_pop :: "'q \<Rightarrow> 'q \<times> 'a option"
    and fifo_list :: "'q \<Rightarrow> 'a list"
    and fifo_inv :: "'q \<Rightarrow> bool"
  assumes fifo_bounded: "fifo_inv q \<Longrightarrow> length (fifo_list q) \<le> fifo_cap q"
    and fifo_push_inv: "fifo_inv q \<Longrightarrow> fifo_inv (fst (fifo_push q x)) \<and>
      fifo_cap (fst (fifo_push q x)) = fifo_cap q"
    and fifo_push_list: "fifo_inv q \<Longrightarrow>
      (fifo_list (fst (fifo_push q x)), snd (fifo_push q x)) = list_push (fifo_cap q) (fifo_list q) x"
    and fifo_pop_inv: "fifo_inv q \<Longrightarrow> fifo_inv (fst (fifo_pop q)) \<and>
      fifo_cap (fst (fifo_pop q)) = fifo_cap q"
    and fifo_pop_list: "fifo_inv q \<Longrightarrow>
      (fifo_list (fst (fifo_pop q)), snd (fifo_pop q)) = list_pop (fifo_list q)"
begin

text \<open>Single operations: a queue with room accepts, the oldest element is removed.\<close>

lemma push_room:
  assumes "fifo_inv q" "length (fifo_list q) < fifo_cap q"
  obtains q' where "fifo_push q x = (q', Inr ())" "fifo_inv q'" "fifo_cap q' = fifo_cap q"
    "fifo_list q' = fifo_list q @ [x]"
  using fifo_push_inv [OF assms(1), of x] fifo_push_list [OF assms(1), of x] assms(2)
  by (cases "fifo_push q x") (auto simp: list_push_def)

lemma push_refused:
  assumes "fifo_inv q" "fifo_push q x = (q', Inl e)"
  shows "length (fifo_list q) = fifo_cap q" "fifo_list q' = fifo_list q" "fifo_inv q'" "fifo_cap q' = fifo_cap q"
  using fifo_push_inv [OF assms(1), of x] fifo_push_list [OF assms(1), of x] assms(2)
  by (auto simp: list_push_def split: if_splits)

lemma pop_oldest:
  assumes "fifo_inv q" "fifo_pop q = (q', Some x)"
  shows "fifo_list q = x # fifo_list q'" "fifo_inv q'" "fifo_cap q' = fifo_cap q"
  using fifo_pop_inv [OF assms(1)] fifo_pop_list [OF assms(1)] assms(2)
  by (cases "fifo_list q"; simp)+

lemma pop_nothing:
  assumes "fifo_inv q" "fifo_pop q = (q', None)"
  shows "fifo_list q = []" "fifo_list q' = []" "fifo_inv q'" "fifo_cap q' = fifo_cap q"
  using fifo_pop_inv [OF assms(1)] fifo_pop_list [OF assms(1)] assms(2)
  by (cases "fifo_list q"; simp)+

text \<open>Any sequence of operations gives the outputs of the reference queue.\<close>

lemma run_refines:
  assumes "fifo_inv q"
  shows "fifo_inv (fst (fifo_run fifo_push fifo_pop ops q)) \<and>
    fifo_cap (fst (fifo_run fifo_push fifo_pop ops q)) = fifo_cap q \<and>
    (fifo_list (fst (fifo_run fifo_push fifo_pop ops q)), snd (fifo_run fifo_push fifo_pop ops q))
      = fifo_run (list_push (fifo_cap q)) list_pop ops (fifo_list q)"
  using assms
proof (induction ops arbitrary: q)
  case (Cons op ops)
  show ?case
  proof (cases op)
    case (Push_Op x)
    obtain q' r where p: "fifo_push q x = (q', r)" by fastforce
    have "fifo_inv q'" "fifo_cap q' = fifo_cap q"
      using fifo_push_inv [OF Cons.prems, of x] p by auto
    moreover have "list_push (fifo_cap q) (fifo_list q) x = (fifo_list q', r)"
      using fifo_push_list [OF Cons.prems, of x] p by simp
    ultimately show ?thesis
      using Cons.IH [of q'] p Push_Op by (auto simp: split_beta prod_eq_iff)
  next
    case Pop_Op
    obtain q' r where p: "fifo_pop q = (q', r)" by fastforce
    have "fifo_inv q'" "fifo_cap q' = fifo_cap q"
      using fifo_pop_inv [OF Cons.prems] p by auto
    moreover have "list_pop (fifo_list q) = (fifo_list q', r)"
      using fifo_pop_list [OF Cons.prems] p by simp
    ultimately show ?thesis
      using Cons.IH [of q'] p Pop_Op by (auto simp: split_beta prod_eq_iff)
  qed
qed simp

text \<open>A batch that fits is accepted completely and in order.\<close>

lemma push_all_fits:
  assumes "fifo_inv q" and "length (fifo_list q) + length xs \<le> fifo_cap q"
  shows "fifo_inv (fst (push_all fifo_push xs q)) \<and> snd (push_all fifo_push xs q) \<and>
    fifo_cap (fst (push_all fifo_push xs q)) = fifo_cap q \<and>
    fifo_list (fst (push_all fifo_push xs q)) = fifo_list q @ xs"
  using assms
proof (induction xs arbitrary: q)
  case (Cons x xs)
  obtain q' r where p: "fifo_push q x = (q', r)" by fastforce
  have q': "fifo_inv q'" "fifo_cap q' = fifo_cap q"
    using fifo_push_inv [OF Cons.prems(1), of x] p by auto
  have "r = Inr ()" and l: "fifo_list q' = fifo_list q @ [x]"
    using fifo_push_list [OF Cons.prems(1), of x] p Cons.prems(2)
    by (auto simp: list_push_def split: if_splits)
  with q' p Cons.IH [of q'] Cons.prems(2) show ?case by simp
qed simp

end

section \<open>Fixed-length header codecs\<close>

text \<open>
  A codec writes the \<open>len\<close> octets of a well-formed header at the start of a
  buffer and reads them back; \<open>wire\<close> is its canonical octet form.
\<close>

locale header_encoder =
  fixes enc :: "'h \<Rightarrow> octets \<Rightarrow> 'e + octets"
    and dec :: "octets \<Rightarrow> 'e + 'h"
    and len :: nat
    and well_formed :: "'h \<Rightarrow> bool"
    and wire :: "'h \<Rightarrow> octets"
  assumes wire_length: "length (wire h) = len"
    and enc_ok: "well_formed h \<Longrightarrow> len \<le> length out \<Longrightarrow> enc h out = Inr (wire h @ drop len out)"
    and enc_fail: "\<not> (well_formed h \<and> len \<le> length out) \<Longrightarrow> \<exists>e. enc h out = Inl e"
    and dec_wire: "well_formed h \<Longrightarrow> dec (wire h @ rest) = Inr h"
begin

lemma enc_ok_iff: "enc h out = Inr out' \<longleftrightarrow>
    well_formed h \<and> len \<le> length out \<and> out' = wire h @ drop len out"
  using enc_ok [of h out] enc_fail [of h out]
  by (cases "well_formed h \<and> len \<le> length out") auto

lemma decode_encode: "enc h out = Inr out' \<Longrightarrow> dec out' = Inr h \<and> length out' = length out"
  by (auto simp: enc_ok_iff dec_wire wire_length)

lemma wire_inj: "well_formed h \<Longrightarrow> well_formed h' \<Longrightarrow> wire h = wire h' \<Longrightarrow> h = h'"
  using dec_wire [of h "[]"] dec_wire [of h' "[]"] by simp

end

locale header_codec = header_encoder enc dec len well_formed wire
  for enc :: "'h \<Rightarrow> octets \<Rightarrow> 'e + octets"
    and dec :: "octets \<Rightarrow> 'e + 'h"
    and len :: nat
    and well_formed :: "'h \<Rightarrow> bool"
    and wire :: "'h \<Rightarrow> octets" +
  assumes dec_sound: "dec input = Inr h \<Longrightarrow> well_formed h \<and> len \<le> length input \<and> take len input = wire h"
begin

lemma encode_decode: "dec input = Inr h \<Longrightarrow> enc h input = Inr input"
  using dec_sound [of input h] by (simp add: enc_ok) (metis append_take_drop_id)

lemma dec_iff: "dec input = Inr h \<longleftrightarrow> well_formed h \<and> len \<le> length input \<and> take len input = wire h"
  using dec_sound [of input h] dec_wire [of h "drop len input"]
  by (metis append_take_drop_id)

end

section \<open>Bounded finite maps\<close>

text \<open>
  A fixed-capacity map: \<open>put\<close> adds a fresh key and fails on a key that is bad or
  present, or without room; \<open>del\<close> forgets a key.
\<close>

datatype ('k, 'v) map_op = Put_Op 'k 'v | Del_Op 'k

fun map_run :: "('t \<Rightarrow> 'k \<Rightarrow> 'v \<Rightarrow> 't option) \<Rightarrow> ('t \<Rightarrow> 'k \<Rightarrow> 't) \<Rightarrow> ('k, 'v) map_op list \<Rightarrow> 't \<Rightarrow> 't" where
  "map_run put del [] t = t"
| "map_run put del (Put_Op k v # ops) t =
     map_run put del ops (case put t k v of None \<Rightarrow> t | Some t' \<Rightarrow> t')"
| "map_run put del (Del_Op k # ops) t = map_run put del ops (del t k)"

definition spec_put :: "nat \<Rightarrow> ('k \<Rightarrow> bool) \<Rightarrow> ('k \<rightharpoonup> 'v) \<Rightarrow> 'k \<Rightarrow> 'v \<Rightarrow> ('k \<rightharpoonup> 'v) option" where
  "spec_put n good m k v =
     (if good k \<and> m k = None \<and> card (dom m) < n then Some (m(k \<mapsto> v)) else None)"

definition spec_del :: "('k \<rightharpoonup> 'v) \<Rightarrow> 'k \<Rightarrow> ('k \<rightharpoonup> 'v)" where
  "spec_del m k = m(k := None)"

locale bounded_map =
  fixes lookup :: "'t \<Rightarrow> 'k \<rightharpoonup> 'v"
    and put :: "'t \<Rightarrow> 'k \<Rightarrow> 'v \<Rightarrow> 't option"
    and del :: "'t \<Rightarrow> 'k \<Rightarrow> 't"
    and map_cap :: "'t \<Rightarrow> nat"
    and good_key :: "'k \<Rightarrow> bool"
    and map_inv :: "'t \<Rightarrow> bool"
  assumes put_refines: "map_inv t \<Longrightarrow>
      map_option lookup (put t k v) = spec_put (map_cap t) good_key (lookup t) k v"
    and put_inv: "map_inv t \<Longrightarrow> put t k v = Some t' \<Longrightarrow> map_inv t' \<and> map_cap t' = map_cap t"
    and del_refines: "map_inv t \<Longrightarrow> lookup (del t k) = spec_del (lookup t) k"
    and del_inv: "map_inv t \<Longrightarrow> map_inv (del t k) \<and> map_cap (del t k) = map_cap t"
begin

lemma map_run_refines:
  assumes "map_inv t"
  shows "map_inv (map_run put del ops t) \<and>
    lookup (map_run put del ops t) = map_run (spec_put (map_cap t) good_key) spec_del ops (lookup t)"
  using assms
proof (induction ops arbitrary: t)
  case (Cons op ops)
  show ?case
  proof (cases op)
    case (Put_Op k v)
    show ?thesis
    proof (cases "put t k v")
      case None
      then have "spec_put (map_cap t) good_key (lookup t) k v = None"
        using put_refines [OF Cons.prems, of k v] by simp
      then show ?thesis using Cons None Put_Op by simp
    next
      case (Some t')
      then have "spec_put (map_cap t) good_key (lookup t) k v = Some (lookup t')"
        using put_refines [OF Cons.prems, of k v] by simp
      then show ?thesis using Cons.IH [of t'] put_inv [OF Cons.prems Some] Some Put_Op by simp
    qed
  next
    case (Del_Op k)
    then show ?thesis
      using Cons.IH [of "del t k"] del_inv [OF Cons.prems, of k] del_refines [OF Cons.prems, of k]
      by simp
  qed
qed simp

end

section \<open>Run queues\<close>

text \<open>
  A queue of runnable slots in which a slot occurs at most once: scheduling a
  queued slot is a no-op, and a slot can be cancelled from the middle.
\<close>

datatype run_op = Schedule_Op nat | Cancel_Op nat | Run_Op

datatype run_out = Flag bool | Slot "nat option"

fun run_queue_exec :: "('q \<Rightarrow> nat \<Rightarrow> 'q \<times> bool) \<Rightarrow> ('q \<Rightarrow> nat \<Rightarrow> 'q \<times> bool) \<Rightarrow> ('q \<Rightarrow> 'q \<times> nat option)
    \<Rightarrow> run_op list \<Rightarrow> 'q \<Rightarrow> 'q \<times> run_out list" where
  "run_queue_exec sched canc nxt [] q = (q, [])"
| "run_queue_exec sched canc nxt (Schedule_Op i # ops) q =
     (let (q', b) = sched q i; (q'', out) = run_queue_exec sched canc nxt ops q' in (q'', Flag b # out))"
| "run_queue_exec sched canc nxt (Cancel_Op i # ops) q =
     (let (q', b) = canc q i; (q'', out) = run_queue_exec sched canc nxt ops q' in (q'', Flag b # out))"
| "run_queue_exec sched canc nxt (Run_Op # ops) q =
     (let (q', r) = nxt q; (q'', out) = run_queue_exec sched canc nxt ops q' in (q'', Slot r # out))"

definition list_schedule :: "(nat \<Rightarrow> bool) \<Rightarrow> nat list \<Rightarrow> nat \<Rightarrow> nat list \<times> bool" where
  "list_schedule good xs i = (if good i \<and> i \<notin> set xs then (xs @ [i], True) else (xs, False))"

definition list_cancel :: "nat list \<Rightarrow> nat \<Rightarrow> nat list \<times> bool" where
  "list_cancel xs i = (remove1 i xs, i \<in> set xs)"

locale run_queue =
  fixes sched :: "'q \<Rightarrow> nat \<Rightarrow> 'q \<times> bool"
    and canc :: "'q \<Rightarrow> nat \<Rightarrow> 'q \<times> bool"
    and next_run :: "'q \<Rightarrow> 'q \<times> nat option"
    and order :: "'q \<Rightarrow> nat list"
    and good_slot :: "'q \<Rightarrow> nat \<Rightarrow> bool"
    and run_inv :: "'q \<Rightarrow> bool"
  assumes order_distinct: "run_inv q \<Longrightarrow> distinct (order q)"
    and sched_law: "run_inv q \<Longrightarrow> run_inv (fst (sched q i)) \<and> good_slot (fst (sched q i)) = good_slot q \<and>
      (order (fst (sched q i)), snd (sched q i)) = list_schedule (good_slot q) (order q) i"
    and canc_law: "run_inv q \<Longrightarrow> run_inv (fst (canc q i)) \<and> good_slot (fst (canc q i)) = good_slot q \<and>
      (order (fst (canc q i)), snd (canc q i)) = list_cancel (order q) i"
    and next_run_law: "run_inv q \<Longrightarrow> run_inv (fst (next_run q)) \<and> good_slot (fst (next_run q)) = good_slot q \<and>
      (order (fst (next_run q)), snd (next_run q)) = list_pop (order q)"
begin

lemma exec_refines:
  assumes "run_inv q"
  shows "run_inv (fst (run_queue_exec sched canc next_run ops q)) \<and>
    (order (fst (run_queue_exec sched canc next_run ops q)), snd (run_queue_exec sched canc next_run ops q))
      = run_queue_exec (list_schedule (good_slot q)) list_cancel list_pop ops (order q)"
  using assms
proof (induction ops arbitrary: q)
  case (Cons op ops)
  show ?case
  proof (cases op)
    case (Schedule_Op i)
    obtain q' b where p: "sched q i = (q', b)" by fastforce
    have q': "run_inv q'" "good_slot q' = good_slot q"
      and l: "list_schedule (good_slot q) (order q) i = (order q', b)"
      using sched_law [OF Cons.prems, of i] p by auto
    show ?thesis using Cons.IH [OF q'(1)] p l q'(2) Schedule_Op by (auto simp: split_beta prod_eq_iff)
  next
    case (Cancel_Op i)
    obtain q' b where p: "canc q i = (q', b)" by fastforce
    have q': "run_inv q'" "good_slot q' = good_slot q" and l: "list_cancel (order q) i = (order q', b)"
      using canc_law [OF Cons.prems, of i] p by auto
    show ?thesis using Cons.IH [OF q'(1)] p l q'(2) Cancel_Op by (auto simp: split_beta prod_eq_iff)
  next
    case Run_Op
    obtain q' r where p: "next_run q = (q', r)" by fastforce
    have q': "run_inv q'" "good_slot q' = good_slot q" and l: "list_pop (order q) = (order q', r)"
      using next_run_law [OF Cons.prems] p by auto
    show ?thesis using Cons.IH [OF q'(1)] p l q'(2) Run_Op by (auto simp: split_beta prod_eq_iff)
  qed
qed simp

end

section \<open>Deadline queues\<close>

text \<open>
  At most one entry per key, with the least entry first.  \<open>drain\<close> takes the
  least entry repeatedly.
\<close>

fun drain :: "('s \<Rightarrow> 's \<times> 'e option) \<Rightarrow> nat \<Rightarrow> 's \<Rightarrow> 'e list" where
  "drain take_min 0 s = []"
| "drain take_min (Suc n) s =
     (case take_min s of (s', None) \<Rightarrow> [] | (s', Some e) \<Rightarrow> e # drain take_min n s')"

locale deadline_queue =
  fixes armed :: "'s \<Rightarrow> 'k \<rightharpoonup> 'e::linorder"
    and arm :: "'s \<Rightarrow> 'e \<Rightarrow> 's \<times> bool"
    and disarm :: "'s \<Rightarrow> 'k \<Rightarrow> 's \<times> 'e option"
    and take_min :: "'s \<Rightarrow> 's \<times> 'e option"
    and key_of :: "'e \<Rightarrow> 'k"
    and good_timer :: "'s \<Rightarrow> 'k \<Rightarrow> bool"
    and dq_inv :: "'s \<Rightarrow> bool"
  assumes armed_finite: "dq_inv s \<Longrightarrow> finite (dom (armed s))"
    and armed_key: "dq_inv s \<Longrightarrow> armed s k = Some e \<Longrightarrow> key_of e = k"
    and arm_law: "dq_inv s \<Longrightarrow> dq_inv (fst (arm s e)) \<and> good_timer (fst (arm s e)) = good_timer s \<and>
      snd (arm s e) = good_timer s (key_of e) \<and>
      armed (fst (arm s e)) = (if good_timer s (key_of e) then (armed s)(key_of e \<mapsto> e) else armed s)"
    and disarm_law: "dq_inv s \<Longrightarrow> dq_inv (fst (disarm s k)) \<and> good_timer (fst (disarm s k)) = good_timer s \<and>
      snd (disarm s k) = armed s k \<and> armed (fst (disarm s k)) = (armed s)(k := None)"
    and take_min_law: "dq_inv s \<Longrightarrow> dq_inv (fst (take_min s)) \<and> good_timer (fst (take_min s)) = good_timer s \<and>
      (case snd (take_min s) of
         None \<Rightarrow> armed s = Map.empty \<and> armed (fst (take_min s)) = Map.empty
       | Some e \<Rightarrow> armed s (key_of e) = Some e \<and> (\<forall>k e'. armed s k = Some e' \<longrightarrow> e \<le> e') \<and>
           armed (fst (take_min s)) = (armed s)(key_of e := None))"
begin

lemma drain_sorted:
  assumes "dq_inv s" and "card (dom (armed s)) \<le> n"
  shows "sorted (drain take_min n s) \<and> distinct (drain take_min n s) \<and>
    set (drain take_min n s) = ran (armed s)"
  using assms
proof (induction n arbitrary: s)
  case 0
  then have "dom (armed s) = {}" using armed_finite by simp
  then show ?case by simp
next
  case (Suc n)
  obtain s' r where m: "take_min s = (s', r)" by fastforce
  show ?case
  proof (cases r)
    case None
    then show ?thesis using take_min_law [OF Suc.prems(1)] m by simp
  next
    case (Some e)
    have s': "dq_inv s'" "armed s' = (armed s)(key_of e := None)" "armed s (key_of e) = Some e"
      and least: "\<And>k e'. armed s k = Some e' \<Longrightarrow> e \<le> e'"
      using take_min_law [OF Suc.prems(1)] m Some by auto
    have "card (dom (armed s')) \<le> n"
      using Suc.prems s' armed_finite [OF Suc.prems(1)] by (auto simp: card_Diff_singleton domI)
    from Suc.IH [OF s'(1) this] have IH: "sorted (drain take_min n s')" "distinct (drain take_min n s')"
      "set (drain take_min n s') = ran (armed s')" by auto
    have "e \<notin> ran (armed s')"
    proof
      assume "e \<in> ran (armed s')"
      then obtain k where k: "armed s' k = Some e" by (auto simp: ran_def)
      then have "key_of e = k" by (rule armed_key [OF s'(1)])
      then show False using k s'(2) by simp
    qed
    moreover have "armed s k = Some e' \<longleftrightarrow> armed s' k = Some e' \<or> (k = key_of e \<and> e' = e)" for k e'
      using s'(2,3) by auto
    then have "ran (armed s) = insert e (ran (armed s'))" and "\<forall>e' \<in> ran (armed s'). e \<le> e'"
      using least unfolding ran_def by blast+
    ultimately show ?thesis using IH m Some by simp
  qed
qed

end

section \<open>In-order receivers\<close>

text \<open>
  The receiving half of a go-back-N transport.  \<open>progress k\<close> holds of the states that
  have accepted exactly the first \<open>k\<close> of \<open>segments\<close> packets of a message.  The receiver
  accepts the next packet and ignores every other one; then whatever the network loses,
  repeats or reorders, the receiver holds a prefix, and it holds all of the message as
  soon as the packets have arrived once in order, possibly with others in between.
\<close>

primrec in_order :: "nat \<Rightarrow> nat list \<Rightarrow> nat" where
  "in_order k [] = k"
| "in_order k (i # is) = in_order (if i = k then Suc k else k) is"

fun deliver_all :: "('p \<Rightarrow> 's \<Rightarrow> 's) \<Rightarrow> (nat \<times> 'p) list \<Rightarrow> 's \<Rightarrow> 's" where
  "deliver_all deliver [] s = s"
| "deliver_all deliver ((i, p) # ds) s = deliver_all deliver ds (deliver p s)"

lemma in_order_bound: "k \<le> n \<Longrightarrow> list_all (\<lambda>i. i < n) is \<Longrightarrow> k \<le> in_order k is \<and> in_order k is \<le> n"
proof (induction "is" arbitrary: k)
  case (Cons i js)
  show ?case using Cons.IH [of "Suc k"] Cons.IH [of k] Cons.prems by (cases "i = k") auto
qed simp

lemma in_order_complete:
  assumes "k \<le> n" "list_all (\<lambda>i. i < n) is" "subseq [k..<n] is"
  shows "in_order k is = n"
  using assms
proof (induction "is" arbitrary: k)
  case Nil
  then show ?case by (cases "k < n") (simp_all add: upt_rec)
next
  case (Cons i js)
  show ?case
  proof (cases "k < n")
    case False
    then show ?thesis using in_order_bound [OF Cons.prems(1,2)] Cons.prems(1) by simp
  next
    case True
    then have up: "[k..<n] = k # [Suc k..<n]" by (simp add: upt_rec)
    have "subseq [if i = k then Suc k else k..<n] js"
      using Cons.prems(3) unfolding up by (cases "i = k") (auto simp: up)
    then show ?thesis using Cons.IH [of "if i = k then Suc k else k"] Cons.prems True by simp
  qed
qed

locale in_order_receiver =
  fixes deliver :: "'p \<Rightarrow> 's \<Rightarrow> 's"
    and segment :: "nat \<Rightarrow> 'p \<Rightarrow> bool"
    and progress :: "nat \<Rightarrow> 's \<Rightarrow> bool"
    and segments :: nat
  assumes accept: "progress k s \<Longrightarrow> k < segments \<Longrightarrow> segment k p \<Longrightarrow> progress (Suc k) (deliver p s)"
    and ignore: "progress k s \<Longrightarrow> k \<le> segments \<Longrightarrow> i < segments \<Longrightarrow> i \<noteq> k \<Longrightarrow> segment i p \<Longrightarrow> progress k (deliver p s)"
begin

lemma prefix_held:
  assumes "progress k s" "k \<le> segments" "list_all (\<lambda>(i, p). i < segments \<and> segment i p) ds"
  shows "progress (in_order k (map fst ds)) (deliver_all deliver ds s)"
  using assms
proof (induction ds arbitrary: k s)
  case (Cons d ds)
  obtain i p where d: "d = (i, p)" by fastforce
  show ?case
    using Cons.IH [of "if i = k then Suc k else k" "deliver p s"] Cons.prems accept [of k s p] ignore [of k s i p]
    by (auto simp: d)
qed simp

lemma all_held:
  assumes "progress k s" "k \<le> segments" "list_all (\<lambda>(i, p). i < segments \<and> segment i p) ds"
    and "subseq [k..<segments] (map fst ds)"
  shows "progress segments (deliver_all deliver ds s)"
proof -
  have "list_all (\<lambda>i. i < segments) (map fst ds)"
    using assms(3) by (auto simp: list_all_iff)
  then show ?thesis using prefix_held [OF assms(1-3)] in_order_complete [OF assms(2) _ assms(4)] by simp
qed

end

end
