(* ===== verification/Core_Ring.thy ===== *)
theory Core_Ring
  imports Contracts
begin

text \<open>
  The fixed-capacity ring of \<open>rocev2-core/src/ring.rs\<close>: a slot array with
  head, tail and length.  The const generic \<open>N\<close> is the length of the slot
  list.  \<open>ring_list\<close> reads the occupied slots in order; the ring implements the
  bounded FIFO contract for it.
\<close>

section \<open>Model\<close>

record 'a Ring =
  ring_slots :: "'a option list"
  ring_head :: usize
  ring_tail :: usize
  ring_len :: usize

definition ring_new :: "nat \<Rightarrow> 'a Ring" where
  "ring_new n = \<lparr>ring_slots = replicate n None, ring_head = 0, ring_tail = 0, ring_len = 0\<rparr>"

definition ring_capacity :: "'a Ring \<Rightarrow> usize" where
  "ring_capacity r = length (ring_slots r)"

definition ring_is_empty :: "'a Ring \<Rightarrow> bool" where
  "ring_is_empty r = (ring_len r = 0)"

definition ring_is_full :: "'a Ring \<Rightarrow> bool" where
  "ring_is_full r = (ring_len r = ring_capacity r)"

definition ring_remaining_capacity :: "'a Ring \<Rightarrow> usize" where
  "ring_remaining_capacity r = ring_capacity r - ring_len r"

definition ring_get :: "'a Ring \<Rightarrow> usize \<Rightarrow> 'a option" where
  "ring_get r offset =
     (if offset \<ge> ring_len r \<or> ring_capacity r = 0 then None
      else ring_slots r ! ((ring_head r + offset) mod ring_capacity r))"

definition ring_push :: "'a Ring \<Rightarrow> 'a \<Rightarrow> 'a Ring \<times> ('a PushError + unit)" where
  "ring_push r item =
     (if ring_is_full r then (r, Inl (Full item))
      else (r\<lparr>ring_slots := (ring_slots r)[ring_tail r := Some item],
              ring_tail := (ring_tail r + 1) mod ring_capacity r,
              ring_len := ring_len r + 1\<rparr>, Inr ()))"

definition ring_pop :: "'a Ring \<Rightarrow> 'a Ring \<times> 'a option" where
  "ring_pop r =
     (if ring_is_empty r then (r, None)
      else (r\<lparr>ring_slots := (ring_slots r)[ring_head r := None],
              ring_head := (ring_head r + 1) mod ring_capacity r,
              ring_len := ring_len r - 1\<rparr>, ring_slots r ! ring_head r))"

definition ring_front :: "'a Ring \<Rightarrow> 'a option" where
  "ring_front r = (if ring_is_empty r then None else ring_slots r ! ring_head r)"

text \<open>\<open>front_mut\<close> hands out a mutable reference; \<open>f\<close> is what the caller does to it.\<close>

definition ring_front_mut :: "('a \<Rightarrow> 'a) \<Rightarrow> 'a Ring \<Rightarrow> 'a Ring" where
  "ring_front_mut f r =
     (if ring_is_empty r then r
      else r\<lparr>ring_slots := (ring_slots r)[ring_head r := map_option f (ring_slots r ! ring_head r)]\<rparr>)"

function ring_clear :: "'a Ring \<Rightarrow> 'a Ring" where
  "ring_clear r =
     (case ring_pop r of (r', Some _) \<Rightarrow> ring_clear r' | (r', None) \<Rightarrow> r')"
  by auto
termination
  by (relation "measure ring_len")
    (auto simp: ring_pop_def ring_is_empty_def split: if_splits)

declare ring_clear.simps [simp del]

section \<open>The ring as a list\<close>

definition ring_list :: "'a Ring \<Rightarrow> 'a list" where
  "ring_list r =
     map (\<lambda>i. the (ring_slots r ! ((ring_head r + i) mod ring_capacity r))) [0..<ring_len r]"

definition ring_inv :: "'a Ring \<Rightarrow> bool" where
  "ring_inv r \<longleftrightarrow>
     ring_len r \<le> ring_capacity r \<and>
     (ring_capacity r \<noteq> 0 \<longrightarrow>
        ring_head r < ring_capacity r \<and>
        ring_tail r = (ring_head r + ring_len r) mod ring_capacity r \<and>
        (\<forall>i < ring_capacity r.
           (ring_slots r ! ((ring_head r + i) mod ring_capacity r) \<noteq> None) = (i < ring_len r)))"

lemma length_ring_list [simp]: "length (ring_list r) = ring_len r"
  by (simp add: ring_list_def)

lemma nth_ring_list:
  "i < ring_len r \<Longrightarrow>
   ring_list r ! i = the (ring_slots r ! ((ring_head r + i) mod ring_capacity r))"
  by (simp add: ring_list_def)

lemma ring_inv_occupied:
  "ring_inv r \<Longrightarrow> i < ring_capacity r \<Longrightarrow>
   (ring_slots r ! ((ring_head r + i) mod ring_capacity r) \<noteq> None) = (i < ring_len r)"
  by (auto simp: ring_inv_def)

lemma ring_new_inv [simp]: "ring_inv (ring_new n)" "ring_list (ring_new n) = []"
  "ring_capacity (ring_new n) = n"
  by (auto simp: ring_inv_def ring_new_def ring_capacity_def ring_list_def)

lemma ring_offset_inj:
  fixes h i j n :: nat
  assumes "i < n" and "j < n" and "(h + i) mod n = (h + j) mod n"
  shows "i = j"
proof -
  have "i mod n = j mod n" using assms(3) by (simp add: nat_mod_eq_iff)
  with assms show ?thesis by simp
qed

lemma ring_slot_update:
  assumes "i < length xs" and "j < length xs"
  shows "xs[(h + i) mod length xs := v] ! ((h + j) mod length xs) =
    (if j = i then v else xs ! ((h + j) mod length xs))"
proof -
  have "0 < length xs" using assms by linarith
  then show ?thesis using ring_offset_inj [of i "length xs" j h] assms
    by (auto simp: nth_list_update)
qed

lemma ring_capacity_ops [simp]:
  "ring_capacity (fst (ring_push r x)) = ring_capacity r"
  "ring_capacity (fst (ring_pop r)) = ring_capacity r"
  "ring_capacity (ring_front_mut f r) = ring_capacity r"
  by (auto simp: ring_push_def ring_pop_def ring_front_mut_def ring_capacity_def)

lemma ring_push_slots:
  assumes "ring_inv r" and "\<not> ring_is_full r" and "j < ring_capacity r"
  shows "ring_slots (fst (ring_push r x)) ! ((ring_head r + j) mod ring_capacity r) =
    (if j = ring_len r then Some x else ring_slots r ! ((ring_head r + j) mod ring_capacity r))"
  using assms ring_slot_update [of "ring_len r" "ring_slots r" j "ring_head r" "Some x"]
  by (auto simp: ring_push_def ring_inv_def ring_is_full_def ring_capacity_def)

lemma ring_push_inv:
  assumes "ring_inv r"
  shows "ring_inv (fst (ring_push r x))"
proof (cases "ring_is_full r")
  case False
  have upd: "ring_len (fst (ring_push r x)) = ring_len r + 1"
    "ring_head (fst (ring_push r x)) = ring_head r"
    "ring_tail (fst (ring_push r x)) = (ring_tail r + 1) mod ring_capacity r"
    using False by (simp_all add: ring_push_def)
  show ?thesis
    using assms False ring_push_slots [OF assms False, of _ x]
    unfolding ring_inv_def upd ring_capacity_ops
    by (auto simp: ring_is_full_def mod_simps less_Suc_eq)
qed (use assms in \<open>simp add: ring_push_def\<close>)

lemma ring_push_list:
  assumes "ring_inv r"
  shows "(ring_list (fst (ring_push r x)), snd (ring_push r x))
    = list_push (ring_capacity r) (ring_list r) x"
proof (cases "ring_is_full r")
  case False
  have upd: "ring_len (fst (ring_push r x)) = ring_len r + 1"
    "ring_head (fst (ring_push r x)) = ring_head r"
    using False by (simp_all add: ring_push_def)
  have "ring_list (fst (ring_push r x)) = ring_list r @ [x]"
  proof (rule nth_equalityI)
    fix i assume "i < length (ring_list (fst (ring_push r x)))"
    moreover have "ring_len r < ring_capacity r"
      using assms False by (simp add: ring_inv_def ring_is_full_def)
    ultimately show "ring_list (fst (ring_push r x)) ! i = (ring_list r @ [x]) ! i"
      using ring_push_slots [OF assms False, of i x]
      by (auto simp: nth_ring_list nth_append upd)
  qed (simp add: upd)
  with False show ?thesis
    by (simp add: list_push_def ring_push_def ring_is_full_def)
qed (simp add: list_push_def ring_push_def ring_is_full_def)

lemma ring_pop_slots:
  assumes "ring_inv r" and "\<not> ring_is_empty r" and "j < ring_capacity r"
  shows "ring_slots (fst (ring_pop r)) ! ((ring_head (fst (ring_pop r)) + j) mod ring_capacity r) =
    (if j + 1 = ring_capacity r then None
     else ring_slots r ! ((ring_head r + (j + 1)) mod ring_capacity r))"
proof -
  let ?n = "ring_capacity r" and ?h = "ring_head r"
  have h: "?h < ?n" using assms by (auto simp: ring_inv_def)
  have index: "(ring_head (fst (ring_pop r)) + j) mod ?n = (?h + (j + 1)) mod ?n"
    using assms(2) by (simp add: ring_pop_def mod_simps)
  show ?thesis
  proof (cases "j + 1 = ?n")
    case True
    then have "(?h + (j + 1)) mod ?n = ?h" using h by simp
    then show ?thesis using True assms(2) h
      unfolding index by (simp add: ring_pop_def ring_capacity_def)
  next
    case False
    then have "j + 1 < length (ring_slots r)" and "ring_slots r \<noteq> []"
      using assms(3) by (auto simp: ring_capacity_def)
    with ring_slot_update [of 0 "ring_slots r" "j + 1" ?h None] h False assms(2) show ?thesis
      unfolding index by (auto simp: ring_pop_def ring_capacity_def)
  qed
qed

lemma ring_pop_inv:
  assumes "ring_inv r"
  shows "ring_inv (fst (ring_pop r))"
proof (cases "ring_is_empty r")
  case False
  let ?n = "ring_capacity r" and ?h = "ring_head r" and ?r = "fst (ring_pop r)"
  have upd: "ring_len ?r = ring_len r - 1" "ring_head ?r = (?h + 1) mod ?n"
    "ring_tail ?r = ring_tail r"
    using False by (simp_all add: ring_pop_def)
  have len: "0 < ring_len r" "ring_len r \<le> ?n"
    using assms False by (auto simp: ring_inv_def ring_is_empty_def)
  have "(ring_slots ?r ! ((ring_head ?r + j) mod ?n) \<noteq> None) = (j < ring_len ?r)" if "j < ?n" for j
    unfolding ring_pop_slots [OF assms False that]
    using ring_inv_occupied [OF assms, of "j + 1"] that len by (auto simp: upd)
  moreover have "ring_tail ?r = (ring_head ?r + ring_len ?r) mod ?n"
  proof -
    have "(ring_head ?r + ring_len ?r) mod ?n = (?h + 1 + (ring_len r - 1)) mod ?n"
      by (simp only: upd mod_add_left_eq)
    then show ?thesis using assms len by (simp add: upd ring_inv_def)
  qed
  ultimately show ?thesis
    using len unfolding ring_inv_def ring_capacity_ops by (auto simp: upd)
qed (use assms in \<open>simp add: ring_pop_def\<close>)

lemma ring_pop_list:
  assumes "ring_inv r"
  shows "(ring_list (fst (ring_pop r)), snd (ring_pop r)) = list_pop (ring_list r)"
proof (cases "ring_is_empty r")
  case True
  then show ?thesis by (simp add: ring_pop_def ring_is_empty_def ring_list_def)
next
  case False
  let ?r = "fst (ring_pop r)"
  have len: "0 < ring_len r" "ring_len r \<le> ring_capacity r" "ring_len ?r = ring_len r - 1"
    using assms False by (auto simp: ring_inv_def ring_is_empty_def ring_pop_def)
  have "ring_head r < ring_capacity r" "ring_slots r ! (ring_head r mod ring_capacity r) \<noteq> None"
    using assms len ring_inv_occupied [OF assms, of 0] by (auto simp: ring_inv_def)
  then have out: "snd (ring_pop r) = Some (ring_list r ! 0)"
    using False len by (auto simp: ring_pop_def nth_ring_list)
  have "ring_list ?r = tl (ring_list r)"
  proof (rule nth_equalityI)
    fix i assume "i < length (ring_list ?r)"
    then have i: "i + 1 < ring_len r" "i < ring_capacity r" "i + 1 \<noteq> ring_capacity r"
      using len by auto
    then show "ring_list ?r ! i = tl (ring_list r) ! i"
      using ring_pop_slots [OF assms False i(2)] len by (simp add: nth_ring_list nth_tl)
  qed (simp add: len)
  with out len show ?thesis
    by (cases "ring_list r") (auto simp flip: length_ring_list)
qed

interpretation ring: bounded_fifo ring_capacity ring_push ring_pop ring_list ring_inv
proof (unfold_locales, goal_cases)
  case (1 q)
  then show ?case by (simp add: ring_inv_def)
qed (simp_all add: ring_push_inv ring_push_list ring_pop_inv ring_pop_list)

lemma ring_len_list: "ring_len r = length (ring_list r)"
  by simp

lemma ring_is_empty_list: "ring_is_empty r \<longleftrightarrow> ring_list r = []"
  by (simp add: ring_is_empty_def flip: length_0_conv)

lemma ring_is_full_list: "ring_is_full r \<longleftrightarrow> length (ring_list r) = ring_capacity r"
  by (simp add: ring_is_full_def)

lemma ring_get_list:
  assumes "ring_inv r"
  shows "ring_get r i = (if i < length (ring_list r) then Some (ring_list r ! i) else None)"
proof (cases "i < ring_len r")
  case True
  then have "ring_slots r ! ((ring_head r + i) mod ring_capacity r) \<noteq> None" "ring_capacity r \<noteq> 0"
    using assms by (auto simp: ring_inv_def)
  then show ?thesis using True by (auto simp: ring_get_def nth_ring_list)
qed (simp add: ring_get_def)

lemma ring_front_list:
  assumes "ring_inv r"
  shows "ring_front r = (case ring_list r of [] \<Rightarrow> None | x # xs \<Rightarrow> Some x)"
proof -
  have "ring_front r = snd (ring_pop r)"
    by (simp add: ring_front_def ring_pop_def)
  also have "\<dots> = snd (list_pop (ring_list r))"
    using ring_pop_list [OF assms] by (metis snd_conv)
  finally show ?thesis by (simp split: list.splits)
qed

lemma ring_clear_correct:
  assumes "ring_inv r"
  shows "ring_inv (ring_clear r) \<and> ring_list (ring_clear r) = [] \<and>
    ring_capacity (ring_clear r) = ring_capacity r"
  using assms
proof (induction r rule: ring_clear.induct)
  case (1 r)
  show ?case
  proof (cases "snd (ring_pop r)")
    case None
    then have "ring_list (fst (ring_pop r)) = []"
      using ring_pop_list [OF "1.prems"] by (cases "ring_list r") auto
    then show ?thesis using None ring_pop_inv [OF "1.prems"]
      by (subst (1 2 3) ring_clear.simps) (simp add: split_beta)
  next
    case (Some x)
    then obtain r' where p: "ring_pop r = (r', Some x)"
      by (cases "ring_pop r") auto
    then have "ring_inv r'" "ring_capacity r' = ring_capacity r"
      using ring_pop_inv [OF "1.prems"] ring_capacity_ops(2) [of r] by auto
    with "1.IH" [OF p [symmetric] refl] p show ?thesis
      by (subst (1 2 3) ring_clear.simps) simp
  qed
qed

section \<open>Properties\<close>

text \<open>C14: The ring refines a bounded FIFO list.  For every capacity and every sequence of
  pushes and pops on a new ring, the rejected and the removed items are exactly those of a
  list queue of that capacity, and the ring ends in a state that reads as that list.\<close>

theorem ring_refines_fifo:
  "(ring_list (fst (fifo_run ring_push ring_pop ops (ring_new n))),
    snd (fifo_run ring_push ring_pop ops (ring_new n)))
   = fifo_run (list_push n) list_pop ops [] \<and>
   ring_inv (fst (fifo_run ring_push ring_pop ops (ring_new n)))"
  using ring.run_refines [of "ring_new n" ops] by simp

end
