(* ===== verification/Core_Qp.thy ===== *)
theory Core_Qp
  imports Core_Psn
begin

text \<open>
  Queue-pair configuration and state machine, \<open>rocev2-core/src/qp.rs\<close>, and the
  work and completion descriptors of \<open>rocev2-core/src/work.rs\<close>.
\<close>

section \<open>Queue-pair configuration\<close>

definition MIN_APPLICATION_QPN :: u32 where
  "MIN_APPLICATION_QPN = 2"

definition MAX_QPN :: u32 where
  "MAX_QPN = 0x00ffffff"

definition MAX_RETRY_COUNT :: u8 where
  "MAX_RETRY_COUNT = 7"

definition MAX_TIMEOUT_CODE :: u8 where
  "MAX_TIMEOUT_CODE = 31"

datatype PathMtu = Mtu256 | Mtu512 | Mtu1024 | Mtu2048 | Mtu4096

definition mtu_from_bytes :: "usize \<Rightarrow> PathMtu option" where
  "mtu_from_bytes n =
     (if n = 256 then Some Mtu256
      else if n = 512 then Some Mtu512
      else if n = 1024 then Some Mtu1024
      else if n = 2048 then Some Mtu2048
      else if n = 4096 then Some Mtu4096
      else None)"

fun mtu_bytes :: "PathMtu \<Rightarrow> usize" where
  "mtu_bytes Mtu256 = 256"
| "mtu_bytes Mtu512 = 512"
| "mtu_bytes Mtu1024 = 1024"
| "mtu_bytes Mtu2048 = 2048"
| "mtu_bytes Mtu4096 = 4096"

datatype QpState = Reset | Init | Rtr | Rts | Sqd | Sqe | Error

record QpConfig =
  local_qpn :: u32
  remote_qpn :: u32
  send_psn :: psn
  receive_psn :: psn
  path_mtu :: PathMtu
  retry_count :: u8
  rnr_retry_count :: u8
  timeout :: u8

datatype StateTransitionError =
    InvalidLocalQpn u32
  | InvalidRemoteQpn u32
  | InvalidRetryCount u8
  | InvalidRnrRetryCount u8
  | InvalidTimeout u8
  | IllegalTransition (from_state: QpState) (to_state: QpState)
  | ReconfigureWhileActive QpState

definition qp_validate :: "QpConfig \<Rightarrow> StateTransitionError + unit" where
  "qp_validate c =
     (if local_qpn c < MIN_APPLICATION_QPN \<or> local_qpn c > MAX_QPN
      then Inl (InvalidLocalQpn (local_qpn c))
      else if remote_qpn c < MIN_APPLICATION_QPN \<or> remote_qpn c > MAX_QPN
      then Inl (InvalidRemoteQpn (remote_qpn c))
      else if retry_count c > MAX_RETRY_COUNT
      then Inl (InvalidRetryCount (retry_count c))
      else if rnr_retry_count c > MAX_RETRY_COUNT
      then Inl (InvalidRnrRetryCount (rnr_retry_count c))
      else if timeout c > MAX_TIMEOUT_CODE
      then Inl (InvalidTimeout (timeout c))
      else Inr ())"

section \<open>State machine\<close>

record QpStateMachine =
  qp_state :: QpState
  qp_config :: QpConfig

definition is_legal_transition :: "QpState \<Rightarrow> QpState \<Rightarrow> bool" where
  "is_legal_transition from to =
     (if from = to then True
      else case from of
        Reset \<Rightarrow> to \<in> {Init, Error}
      | Init \<Rightarrow> to \<in> {Reset, Rtr, Error}
      | Rtr \<Rightarrow> to \<in> {Reset, Rts, Error}
      | Sqd \<Rightarrow> to \<in> {Reset, Rts, Error}
      | Sqe \<Rightarrow> to \<in> {Reset, Rts, Error}
      | Rts \<Rightarrow> to \<in> {Reset, Sqd, Sqe, Error}
      | Error \<Rightarrow> to = Reset)"

definition qp_new :: "QpConfig \<Rightarrow> StateTransitionError + QpStateMachine" where
  "qp_new c =
     (case qp_validate c of
        Inr _ \<Rightarrow> Inr \<lparr>qp_state = Reset, qp_config = c\<rparr>
      | Inl e \<Rightarrow> Inl e)"

definition can_send :: "QpStateMachine \<Rightarrow> bool" where
  "can_send m = (qp_state m = Rts)"

definition can_receive :: "QpStateMachine \<Rightarrow> bool" where
  "can_receive m = (qp_state m \<in> {Rtr, Rts, Sqd, Sqe})"

definition qp_reconfigure ::
  "QpStateMachine \<Rightarrow> QpConfig \<Rightarrow> QpStateMachine \<times> (StateTransitionError + unit)" where
  "qp_reconfigure m c =
     (if qp_state m \<noteq> Reset then (m, Inl (ReconfigureWhileActive (qp_state m)))
      else case qp_validate c of
             Inr _ \<Rightarrow> (m\<lparr>qp_config := c\<rparr>, Inr ())
           | Inl e \<Rightarrow> (m, Inl e))"

definition qp_transition ::
  "QpStateMachine \<Rightarrow> QpState \<Rightarrow> QpStateMachine \<times> (StateTransitionError + unit)" where
  "qp_transition m destination =
     (if is_legal_transition (qp_state m) destination
      then (m\<lparr>qp_state := destination\<rparr>, Inr ())
      else (m, Inl (IllegalTransition (qp_state m) destination)))"

section \<open>Work and completion descriptors\<close>

record Sge =
  sge_address :: u64
  sge_length :: u32
  sge_lkey :: u32

definition sge_checked_end :: "Sge \<Rightarrow> u64 option" where
  "sge_checked_end s = u64_checked_add (sge_address s) (ucast (sge_length s))"

datatype WorkRequestKind =
    WrSend
  | WrRdmaWrite (remote_address: u64) (wr_rkey: u32)
  | WrRdmaRead (remote_address: u64) (wr_rkey: u32)

record WorkRequest =
  wr_id :: u64
  wr_kind :: WorkRequestKind
  wr_sge :: Sge
  wr_signaled :: bool

definition wr_send :: "u64 \<Rightarrow> Sge \<Rightarrow> bool \<Rightarrow> WorkRequest" where
  "wr_send i sge signaled =
     \<lparr>wr_id = i, wr_kind = WrSend, wr_sge = sge, wr_signaled = signaled\<rparr>"

definition wr_write :: "u64 \<Rightarrow> Sge \<Rightarrow> u64 \<Rightarrow> u32 \<Rightarrow> bool \<Rightarrow> WorkRequest" where
  "wr_write i sge address rkey signaled =
     \<lparr>wr_id = i, wr_kind = WrRdmaWrite address rkey, wr_sge = sge, wr_signaled = signaled\<rparr>"

definition wr_read :: "u64 \<Rightarrow> Sge \<Rightarrow> u64 \<Rightarrow> u32 \<Rightarrow> bool \<Rightarrow> WorkRequest" where
  "wr_read i sge address rkey signaled =
     \<lparr>wr_id = i, wr_kind = WrRdmaRead address rkey, wr_sge = sge, wr_signaled = signaled\<rparr>"

record RecvWorkRequest =
  recv_id :: u64
  recv_sge :: Sge

datatype CompletionOpcode = CqSend | CqRdmaWrite | CqRdmaRead | CqReceive

datatype CompletionStatus =
    Success
  | LocalLengthError
  | LocalProtectionError
  | RemoteAccessError
  | RemoteInvalidRequest
  | RetryExceeded
  | RnrRetryExceeded
  | TransportError
  | Flushed

record Completion =
  work_request_id :: u64
  cq_opcode :: CompletionOpcode
  cq_status :: CompletionStatus
  cq_byte_len :: u32

definition completion_success :: "u64 \<Rightarrow> CompletionOpcode \<Rightarrow> u32 \<Rightarrow> Completion" where
  "completion_success i opcode n =
     \<lparr>work_request_id = i, cq_opcode = opcode, cq_status = Success, cq_byte_len = n\<rparr>"

definition completion_failure :: "u64 \<Rightarrow> CompletionOpcode \<Rightarrow> CompletionStatus \<Rightarrow> Completion" where
  "completion_failure i opcode status =
     \<lparr>work_request_id = i, cq_opcode = opcode, cq_status = status, cq_byte_len = 0\<rparr>"

definition is_success :: "Completion \<Rightarrow> bool" where
  "is_success c = (cq_status c = Success)"

section \<open>Lemmas\<close>

lemma mtu_roundtrip: "mtu_from_bytes n = Some m \<longleftrightarrow> n = mtu_bytes m"
  by (cases m) (auto simp: mtu_from_bytes_def split: if_splits)

lemma mtu_bytes_bounds: "256 \<le> mtu_bytes m" "mtu_bytes m \<le> 4096" "mtu_bytes m mod 4 = 0"
  by (cases m; simp)+

lemma mtu_bytes_pos [simp]: "0 < mtu_bytes m"
  by (cases m) simp_all

definition config_valid :: "QpConfig \<Rightarrow> bool" where
  "config_valid c \<longleftrightarrow>
     2 \<le> uint (local_qpn c) \<and> uint (local_qpn c) < 2 ^ 24 \<and>
     2 \<le> uint (remote_qpn c) \<and> uint (remote_qpn c) < 2 ^ 24 \<and>
     uint (retry_count c) \<le> 7 \<and> uint (rnr_retry_count c) \<le> 7 \<and> uint (timeout c) \<le> 31"

lemma qp_validate_ok_iff: "qp_validate c = Inr () \<longleftrightarrow> config_valid c"
  by (auto simp: qp_validate_def config_valid_def MIN_APPLICATION_QPN_def MAX_QPN_def
      MAX_RETRY_COUNT_def MAX_TIMEOUT_CODE_def word_less_def word_le_def not_less)

lemma transition_error_legal [simp]:
  "qp_transition m Error = (m\<lparr>qp_state := Error\<rparr>, Inr ())"
  by (cases "qp_state m") (auto simp: qp_transition_def is_legal_transition_def)

text \<open>A machine driven by a sequence of transitions, stopping at the first refused one.\<close>

fun qp_run :: "QpStateMachine \<Rightarrow> QpState list \<Rightarrow> QpStateMachine option" where
  "qp_run m [] = Some m"
| "qp_run m (d # ds) =
     (case qp_transition m d of (m', Inr _) \<Rightarrow> qp_run m' ds | (m', Inl _) \<Rightarrow> None)"

lemma qp_run_snoc:
  "qp_run m (ds @ [d]) =
   (case qp_run m ds of None \<Rightarrow> None
    | Some m' \<Rightarrow> if is_legal_transition (qp_state m') d then Some (m'\<lparr>qp_state := d\<rparr>) else None)"
  by (induction ds arbitrary: m) (auto simp: qp_transition_def split: option.splits)

text \<open>
  A connected state is reached through \<open>Init\<close> and then \<open>Rtr\<close>, with no reset and no error
  since; \<open>set_up\<close> and \<open>connected\<close> say so of the sequence of requested states.
\<close>

definition set_up :: "QpState list \<Rightarrow> bool" where
  "set_up ds \<longleftrightarrow> (\<exists>a b. ds = a @ Init # b \<and> set b \<inter> {Reset, Error} = {})"

definition connected :: "QpState list \<Rightarrow> bool" where
  "connected ds \<longleftrightarrow>
     (\<exists>a b c. ds = a @ Init # b @ Rtr # c \<and> (set b \<union> set c) \<inter> {Reset, Error} = {})"

lemma set_up_snoc: "set_up ds \<Longrightarrow> d \<notin> {Reset, Error} \<Longrightarrow> set_up (ds @ [d])"
  unfolding set_up_def by fastforce

lemma set_up_Init: "set_up (ds @ [Init])"
  unfolding set_up_def by fastforce

lemma connected_snoc: "connected ds \<Longrightarrow> d \<notin> {Reset, Error} \<Longrightarrow> connected (ds @ [d])"
  unfolding connected_def
proof (elim exE conjE)
  fix a b c
  assume "ds = a @ Init # b @ Rtr # c" "(set b \<union> set c) \<inter> {Reset, Error} = {}" "d \<notin> {Reset, Error}"
  then have "ds @ [d] = a @ Init # b @ Rtr # (c @ [d])"
    and "(set b \<union> set (c @ [d])) \<inter> {Reset, Error} = {}" by auto
  then show "\<exists>a b c. ds @ [d] = a @ Init # b @ Rtr # c \<and> (set b \<union> set c) \<inter> {Reset, Error} = {}"
    by blast
qed

lemma set_up_Rtr: "set_up ds \<Longrightarrow> connected (ds @ [Rtr])"
  unfolding set_up_def connected_def by fastforce

lemma qp_run_history:
  assumes "qp_state m = Reset" and "qp_run m ds = Some m'"
  shows "(qp_state m' = Init \<longrightarrow> set_up ds) \<and> (can_receive m' \<longrightarrow> connected ds) \<and>
    qp_config m' = qp_config m"
  using assms(2)
proof (induction ds arbitrary: m' rule: rev_induct)
  case Nil
  then show ?case using assms(1) by (auto simp: can_receive_def)
next
  case (snoc d ds)
  then obtain m1 where m1: "qp_run m ds = Some m1"
    and legal: "is_legal_transition (qp_state m1) d" and m': "m' = m1\<lparr>qp_state := d\<rparr>"
    by (auto simp: qp_run_snoc split: option.splits if_splits)
  have IH: "qp_state m1 = Init \<Longrightarrow> set_up ds" "can_receive m1 \<Longrightarrow> connected ds"
    "qp_config m1 = qp_config m"
    using snoc.IH [OF m1] by auto
  have "connected (ds @ [d])" if "can_receive m'"
  proof (cases "can_receive m1")
    case True
    then show ?thesis using IH(2) that connected_snoc by (auto simp: m' can_receive_def)
  next
    case False
    then have "d = Rtr" "qp_state m1 = Init"
      using that legal by (cases "qp_state m1"; auto simp: m' can_receive_def is_legal_transition_def)+
    then show ?thesis using IH(1) set_up_Rtr by simp
  qed
  moreover have "set_up (ds @ [d])" if "qp_state m' = Init"
    using that set_up_Init by (simp add: m')
  ultimately show ?case using IH(3) by (simp add: m')
qed

lemma qp_new_ok_iff:
  "qp_new c = Inr m \<longleftrightarrow> config_valid c \<and> m = \<lparr>qp_state = Reset, qp_config = c\<rparr>"
  using qp_validate_ok_iff [of c] by (cases "qp_validate c") (auto simp: qp_new_def)

section \<open>Properties\<close>



end
