(* ===== verification/Core_Retry.thy ===== *)
theory Core_Retry
  imports Prelude
begin

text \<open>
  Retry budgets, the absolute-deadline timer and the conversion of timer codes
  to ticks, \<open>rocev2-core/src/retry.rs\<close>.  The 128-bit intermediate values of the
  conversions are natural numbers with their limit written out.
\<close>

section \<open>Model\<close>

definition UNLIMITED_RETRY_CODE :: u8 where
  "UNLIMITED_RETRY_CODE = 7"

definition MAX_RETRY_CODE :: u8 where
  "MAX_RETRY_CODE = 7"

definition RNR_TIMER_MICROSECONDS :: "u64 list" where
  "RNR_TIMER_MICROSECONDS =
     [655360, 10, 20, 30, 40, 60, 80, 120, 160, 240, 320, 480, 640, 960, 1280, 1920, 2560, 3840,
      5120, 7680, 10240, 15360, 20480, 30720, 40960, 61440, 81920, 122880, 163840,
      245760, 327680, 491520]"

datatype RetryReason = Timeout | ReceiverNotReady

datatype RetryDecision = Retry (delay_ticks: u64) | Exhausted (reason: RetryReason)

record RetryPolicy =
  policy_retry_count :: u8
  policy_rnr_retry_count :: u8
  timeout_ticks :: u64

definition retry_policy_new :: "u8 \<Rightarrow> u8 \<Rightarrow> u64 \<Rightarrow> RetryPolicy option" where
  "retry_policy_new retry rnr ticks =
     (if retry \<le> MAX_RETRY_CODE \<and> rnr \<le> MAX_RETRY_CODE
      then Some \<lparr>policy_retry_count = retry, policy_rnr_retry_count = rnr, timeout_ticks = ticks\<rparr>
      else None)"

record RetryBudget =
  retry_policy :: RetryPolicy
  remaining_timeout :: u8
  remaining_rnr :: u8

definition retry_budget_new :: "RetryPolicy \<Rightarrow> RetryBudget" where
  "retry_budget_new p =
     \<lparr>retry_policy = p, remaining_timeout = policy_retry_count p,
      remaining_rnr = policy_rnr_retry_count p\<rparr>"

definition retry_reset :: "RetryBudget \<Rightarrow> RetryBudget" where
  "retry_reset b =
     b\<lparr>remaining_timeout := policy_retry_count (retry_policy b),
       remaining_rnr := policy_rnr_retry_count (retry_policy b)\<rparr>"

fun on_failure :: "RetryBudget \<Rightarrow> RetryReason \<Rightarrow> u64 \<Rightarrow> RetryBudget \<times> RetryDecision" where
  "on_failure b Timeout rnr_delay_ticks =
     (if policy_retry_count (retry_policy b) = UNLIMITED_RETRY_CODE
      then (b, Retry (timeout_ticks (retry_policy b)))
      else if remaining_timeout b = 0 then (b, Exhausted Timeout)
      else (b\<lparr>remaining_timeout := remaining_timeout b - 1\<rparr>, Retry (timeout_ticks (retry_policy b))))"
| "on_failure b ReceiverNotReady rnr_delay_ticks =
     (if policy_rnr_retry_count (retry_policy b) = UNLIMITED_RETRY_CODE
      then (b, Retry rnr_delay_ticks)
      else if remaining_rnr b = 0 then (b, Exhausted ReceiverNotReady)
      else (b\<lparr>remaining_rnr := remaining_rnr b - 1\<rparr>, Retry rnr_delay_ticks))"

record Timer =
  deadline :: "u64 option"

definition timer_new :: Timer where
  "timer_new = \<lparr>deadline = None\<rparr>"

definition timer_arm :: "Timer \<Rightarrow> u64 \<Rightarrow> u64 \<Rightarrow> Timer" where
  "timer_arm t now delay = t\<lparr>deadline := Some (u64_saturating_add now delay)\<rparr>"

definition timer_cancel :: "Timer \<Rightarrow> Timer" where
  "timer_cancel t = t\<lparr>deadline := None\<rparr>"

definition timer_is_armed :: "Timer \<Rightarrow> bool" where
  "timer_is_armed t = (deadline t \<noteq> None)"

definition timer_expired :: "Timer \<Rightarrow> u64 \<Rightarrow> bool" where
  "timer_expired t now = (case deadline t of Some d \<Rightarrow> now \<ge> d | None \<Rightarrow> False)"

definition timer_remaining :: "Timer \<Rightarrow> u64 \<Rightarrow> u64 option" where
  "timer_remaining t now =
     (case deadline t of Some d \<Rightarrow> Some (saturating_sub d now) | None \<Rightarrow> None)"

definition u128_checked_shl :: "nat \<Rightarrow> nat \<Rightarrow> nat option" where
  "u128_checked_shl a n = (if n < 128 then Some (a * 2 ^ n mod 2 ^ 128) else None)"

definition u128_checked_mul :: "nat \<Rightarrow> nat \<Rightarrow> nat option" where
  "u128_checked_mul a b = (if a * b < 2 ^ 128 then Some (a * b) else None)"

definition ack_timeout_ticks :: "u8 \<Rightarrow> u64 \<Rightarrow> u64 option" where
  "ack_timeout_ticks code ticks_per_second =
     (if code \<ge> 32 \<or> ticks_per_second = 0 then None
      else case u128_checked_shl 4096 (unat code) of
          None \<Rightarrow> None
        | Some nanoseconds \<Rightarrow>
            case u128_checked_mul nanoseconds (unat ticks_per_second) of
              None \<Rightarrow> None
            | Some numerator \<Rightarrow> u64_try_from (div_ceil numerator 1000000000))"

definition rnr_timer_microseconds :: "u8 \<Rightarrow> u64 option" where
  "rnr_timer_microseconds code =
     (if code < 32 then Some (RNR_TIMER_MICROSECONDS ! unat code) else None)"

definition rnr_timer_ticks :: "u8 \<Rightarrow> u64 \<Rightarrow> u64 option" where
  "rnr_timer_ticks code ticks_per_second =
     (if ticks_per_second = 0 then None
      else case rnr_timer_microseconds code of
          None \<Rightarrow> None
        | Some microseconds \<Rightarrow>
            case u128_checked_mul (unat microseconds) (unat ticks_per_second) of
              None \<Rightarrow> None
            | Some numerator \<Rightarrow> u64_try_from (div_ceil numerator 1000000))"

section \<open>Timer conversions\<close>

lemma ack_timeout_ticks_eq:
  assumes "unat code < 32" and "tps \<noteq> 0"
  shows "ack_timeout_ticks code tps = u64_try_from (div_ceil (4096 * 2 ^ unat code * unat tps) 1000000000)"
proof -
  have "2 ^ unat code \<le> (2 :: nat) ^ 31" using assms(1) by (intro power_increasing) auto
  then have ns: "4096 * 2 ^ unat code \<le> (2 :: nat) ^ 43" by simp
  have "unat tps < 2 ^ 64" using unsigned_less [of tps] by simp
  then have "(4096 * 2 ^ unat code) * unat tps \<le> 2 ^ 43 * 2 ^ 64"
    using ns by (intro mult_le_mono) auto
  then have "u128_checked_mul (4096 * 2 ^ unat code) (unat tps) = Some (4096 * 2 ^ unat code * unat tps)"
    by (simp add: u128_checked_mul_def)
  moreover have "u128_checked_shl 4096 (unat code) = Some (4096 * 2 ^ unat code)"
    using assms(1) ns by (simp add: u128_checked_shl_def)
  moreover have "\<not> code \<ge> 32" using assms(1) by (simp add: word_le_nat_alt)
  ultimately show ?thesis using assms(2) by (simp add: ack_timeout_ticks_def)
qed

text \<open>
  The n-th retry decision of a reason, starting from a budget.
\<close>

fun failures :: "RetryBudget \<Rightarrow> (RetryReason \<times> u64) list \<Rightarrow> RetryBudget \<times> RetryDecision list" where
  "failures b [] = (b, [])"
| "failures b ((r, d) # fs) =
     (let (b', dec) = on_failure b r d; (b'', decs) = failures b' fs in (b'', dec # decs))"

lemma on_failure_policy [simp]: "retry_policy (fst (on_failure b r d)) = retry_policy b"
  by (cases r) simp_all

definition is_retry :: "RetryDecision \<Rightarrow> bool" where
  "is_retry d = (case d of Retry _ \<Rightarrow> True | Exhausted _ \<Rightarrow> False)"

definition budget_for :: "RetryBudget \<Rightarrow> RetryReason \<Rightarrow> nat" where
  "budget_for b r = (case r of Timeout \<Rightarrow> unat (remaining_timeout b)
                      | ReceiverNotReady \<Rightarrow> unat (remaining_rnr b))"

definition unlimited :: "RetryBudget \<Rightarrow> RetryReason \<Rightarrow> bool" where
  "unlimited b r = (case r of Timeout \<Rightarrow> policy_retry_count (retry_policy b) = UNLIMITED_RETRY_CODE
                      | ReceiverNotReady \<Rightarrow> policy_rnr_retry_count (retry_policy b) = UNLIMITED_RETRY_CODE)"

lemma on_failure_budget:
  "budget_for (fst (on_failure b r d)) r' =
     (if r = r' \<and> \<not> unlimited b r then budget_for b r' - 1 else budget_for b r')"
  "unlimited (fst (on_failure b r d)) r' = unlimited b r'"
  "is_retry (snd (on_failure b r d)) \<longleftrightarrow> unlimited b r \<or> 0 < budget_for b r"
  by (cases r; cases r'; simp add: budget_for_def unlimited_def is_retry_def unat_minus_one unat_gt_0)+

lemma failures_decisions:
  assumes "failures b fs = (b', decs)"
  shows "length decs = length fs \<and>
    (\<forall>i < length fs. is_retry (decs ! i) \<longleftrightarrow> unlimited b (fst (fs ! i)) \<or>
       length (filter (\<lambda>f. fst f = fst (fs ! i)) (take i fs)) < budget_for b (fst (fs ! i)))"
  using assms
proof (induction b fs arbitrary: b' decs rule: failures.induct)
  case (2 b r d fs)
  obtain b1 dec where one: "on_failure b r d = (b1, dec)" by fastforce
  obtain b2 decs' where rest: "failures b1 fs = (b2, decs')" by fastforce
  have decs: "decs = dec # decs'" using "2.prems" one rest by simp
  have IH: "length decs' = length fs"
    "\<And>i. i < length fs \<Longrightarrow> is_retry (decs' ! i) \<longleftrightarrow> unlimited b1 (fst (fs ! i)) \<or>
       length (filter (\<lambda>f. fst f = fst (fs ! i)) (take i fs)) < budget_for b1 (fst (fs ! i))"
    using "2.IH" [OF one [symmetric] refl rest] by auto
  have b1: "budget_for b1 r' = (if r = r' \<and> \<not> unlimited b r then budget_for b r' - 1 else budget_for b r')"
    "unlimited b1 r' = unlimited b r'" "is_retry dec \<longleftrightarrow> unlimited b r \<or> 0 < budget_for b r" for r'
    using on_failure_budget(1,2) [of b r d r'] on_failure_budget(3) [of b r d] one by simp_all
  show ?case
  proof (intro conjI allI impI)
    fix i assume i: "i < length ((r, d) # fs)"
    show "is_retry (decs ! i) \<longleftrightarrow> unlimited b (fst (((r, d) # fs) ! i)) \<or>
       length (filter (\<lambda>f. fst f = fst (((r, d) # fs) ! i)) (take i ((r, d) # fs)))
         < budget_for b (fst (((r, d) # fs) ! i))"
    proof (cases i)
      case 0
      then show ?thesis using b1(3) by (simp add: decs)
    next
      case (Suc j)
      then show ?thesis using i IH(2) [of j] by (auto simp: decs b1)
    qed
  qed (simp add: decs IH(1))
qed simp

section \<open>Properties\<close>



text \<open>C21: Timer codes are converted without shortening the delay.  For a five-bit code and a
  non-zero tick rate the local ACK timeout is the least number of ticks covering
  \<open>4.096 us * 2^code\<close>, and the conversion fails only when that number exceeds 64 bits; the
  128-bit intermediate product never overflows.\<close>

theorem ack_timeout_exact:
  assumes "unat code < 32" and "tps \<noteq> 0"
  shows "case ack_timeout_ticks code tps of
      Some t \<Rightarrow> 4096 * 2 ^ unat code * unat tps \<le> unat t * 1000000000 \<and>
        (\<forall>k. 4096 * 2 ^ unat code * unat tps \<le> k * 1000000000 \<longrightarrow> unat t \<le> k)
    | None \<Rightarrow> (2 ^ 64 - 1) * 1000000000 < 4096 * 2 ^ unat code * unat tps"
proof (cases "ack_timeout_ticks code tps")
  case None
  let ?n = "4096 * 2 ^ unat code * unat tps"
  have "2 ^ 64 \<le> div_ceil ?n 1000000000"
    using None ack_timeout_ticks_eq [OF assms] by (simp add: u64_try_from_def split: if_splits)
  then have "\<not> ?n \<le> (2 ^ 64 - 1) * 1000000000"
    using div_ceil_least [of 1000000000 ?n "2 ^ 64 - 1"] by auto
  then show ?thesis using None by simp
next
  case (Some t)
  then have "unat t = div_ceil (4096 * 2 ^ unat code * unat tps) 1000000000"
    using ack_timeout_ticks_eq [OF assms] by (simp add: u64_try_from_Some)
  then show ?thesis using Some
    div_ceil_ge [of 1000000000 "4096 * 2 ^ unat code * unat tps"]
    div_ceil_least [of 1000000000 "4096 * 2 ^ unat code * unat tps"] by simp
qed

theorem ack_timeout_exact_witness:
  "ack_timeout_ticks 31 1000000 = Some 8796093023 \<and>
   4096 * 2 ^ 31 * 1000000 \<le> unat (8796093023 :: u64) * 1000000000"
proof -
  have "ack_timeout_ticks 31 1000000 = Some 8796093023"
    by (simp add: ack_timeout_ticks_def u128_checked_shl_def u128_checked_mul_def u64_try_from_def
        div_ceil_def)
  then show ?thesis
    using ack_timeout_exact [of 31 1000000] by simp
qed

end
