(* ===== verification/Wire_Opcode.thy ===== *)
theory Wire_Opcode
  imports Prelude
begin

text \<open>
  Wire errors, constants and Reliable Connected opcodes: \<open>rocev2-wire/src/error.rs\<close>,
  \<open>lib.rs\<close> and \<open>opcode.rs\<close>.
\<close>

section \<open>Errors and constants\<close>

datatype WireError =
    BufferTooShort (needed: usize) (actual: usize)
  | UnsupportedOpcode u8
  | InvalidTransportVersion u8
  | ValueOutOfRange (range_field: string) (range_value: u64)
  | ReservedBitsSet (reserved_field: string) (reserved_value: u32)
  | HeaderMismatch (mismatch_opcode: u8) (mismatch_expected: string)
  | LengthMismatch (length_expected: usize) (length_actual: usize)
  | NonZeroPadding
  | IcrcMismatch (icrc_wire: u32) (icrc_computed: u32)
  | InvalidIpv4Header
  | UnsupportedIpv4Options
  | ArithmeticOverflow

definition ROCE_V2_UDP_PORT :: u16 where
  "ROCE_V2_UDP_PORT = 4791"

definition BTH_LEN :: usize where
  "BTH_LEN = 12"

definition RETH_LEN :: usize where
  "RETH_LEN = 16"

definition AETH_LEN :: usize where
  "AETH_LEN = 4"

definition WIRE_PSN_MASK :: u32 where
  "WIRE_PSN_MASK = 0x00ffffff"

definition QPN_MASK :: u32 where
  "QPN_MASK = 0x00ffffff"

section \<open>Opcodes\<close>

datatype Opcode =
    SendFirst | SendMiddle | SendLast | SendLastWithImmediate | SendOnly | SendOnlyWithImmediate
  | RdmaWriteFirst | RdmaWriteMiddle | RdmaWriteLast | RdmaWriteLastWithImmediate
  | RdmaWriteOnly | RdmaWriteOnlyWithImmediate
  | RdmaReadRequest | RdmaReadResponseFirst | RdmaReadResponseMiddle | RdmaReadResponseLast
  | RdmaReadResponseOnly | Acknowledge

datatype Operation = OpSend | OpWrite | OpReadRequest | OpReadResponse | OpAcknowledge

datatype SegmentPosition = First | Middle | Last | Only

definition opcode_from_u8 :: "u8 \<Rightarrow> WireError + Opcode" where
  "opcode_from_u8 value =
     (if value = 0x00 then Inr SendFirst
      else if value = 0x01 then Inr SendMiddle
      else if value = 0x02 then Inr SendLast
      else if value = 0x03 then Inr SendLastWithImmediate
      else if value = 0x04 then Inr SendOnly
      else if value = 0x05 then Inr SendOnlyWithImmediate
      else if value = 0x06 then Inr RdmaWriteFirst
      else if value = 0x07 then Inr RdmaWriteMiddle
      else if value = 0x08 then Inr RdmaWriteLast
      else if value = 0x09 then Inr RdmaWriteLastWithImmediate
      else if value = 0x0a then Inr RdmaWriteOnly
      else if value = 0x0b then Inr RdmaWriteOnlyWithImmediate
      else if value = 0x0c then Inr RdmaReadRequest
      else if value = 0x0d then Inr RdmaReadResponseFirst
      else if value = 0x0e then Inr RdmaReadResponseMiddle
      else if value = 0x0f then Inr RdmaReadResponseLast
      else if value = 0x10 then Inr RdmaReadResponseOnly
      else if value = 0x11 then Inr Acknowledge
      else Inl (UnsupportedOpcode value))"

fun as_u8 :: "Opcode \<Rightarrow> u8" where
  "as_u8 SendFirst = 0x00"
| "as_u8 SendMiddle = 0x01"
| "as_u8 SendLast = 0x02"
| "as_u8 SendLastWithImmediate = 0x03"
| "as_u8 SendOnly = 0x04"
| "as_u8 SendOnlyWithImmediate = 0x05"
| "as_u8 RdmaWriteFirst = 0x06"
| "as_u8 RdmaWriteMiddle = 0x07"
| "as_u8 RdmaWriteLast = 0x08"
| "as_u8 RdmaWriteLastWithImmediate = 0x09"
| "as_u8 RdmaWriteOnly = 0x0a"
| "as_u8 RdmaWriteOnlyWithImmediate = 0x0b"
| "as_u8 RdmaReadRequest = 0x0c"
| "as_u8 RdmaReadResponseFirst = 0x0d"
| "as_u8 RdmaReadResponseMiddle = 0x0e"
| "as_u8 RdmaReadResponseLast = 0x0f"
| "as_u8 RdmaReadResponseOnly = 0x10"
| "as_u8 Acknowledge = 0x11"

definition operation :: "Opcode \<Rightarrow> Operation" where
  "operation opcode =
     (if opcode \<in> {SendFirst, SendMiddle, SendLast, SendLastWithImmediate, SendOnly,
                   SendOnlyWithImmediate} then OpSend
      else if opcode \<in> {RdmaWriteFirst, RdmaWriteMiddle, RdmaWriteLast, RdmaWriteLastWithImmediate,
                        RdmaWriteOnly, RdmaWriteOnlyWithImmediate} then OpWrite
      else if opcode = RdmaReadRequest then OpReadRequest
      else if opcode \<in> {RdmaReadResponseFirst, RdmaReadResponseMiddle, RdmaReadResponseLast,
                        RdmaReadResponseOnly} then OpReadResponse
      else OpAcknowledge)"

definition position :: "Opcode \<Rightarrow> SegmentPosition" where
  "position opcode =
     (if opcode \<in> {SendFirst, RdmaWriteFirst, RdmaReadResponseFirst} then First
      else if opcode \<in> {SendMiddle, RdmaWriteMiddle, RdmaReadResponseMiddle} then Middle
      else if opcode \<in> {SendLast, SendLastWithImmediate, RdmaWriteLast, RdmaWriteLastWithImmediate,
                        RdmaReadResponseLast} then Last
      else Only)"

definition has_reth :: "Opcode \<Rightarrow> bool" where
  "has_reth opcode =
     (opcode \<in> {RdmaWriteFirst, RdmaWriteOnly, RdmaWriteOnlyWithImmediate, RdmaReadRequest})"

definition has_aeth :: "Opcode \<Rightarrow> bool" where
  "has_aeth opcode =
     (opcode \<in> {RdmaReadResponseFirst, RdmaReadResponseLast, RdmaReadResponseOnly, Acknowledge})"

definition has_immediate :: "Opcode \<Rightarrow> bool" where
  "has_immediate opcode =
     (opcode \<in> {SendLastWithImmediate, SendOnlyWithImmediate, RdmaWriteLastWithImmediate,
                RdmaWriteOnlyWithImmediate})"

definition fixed_header_len :: "Opcode \<Rightarrow> usize" where
  "fixed_header_len opcode =
     BTH_LEN + (if has_reth opcode then RETH_LEN else 0) + (if has_aeth opcode then AETH_LEN else 0)"

definition allows_payload :: "Opcode \<Rightarrow> bool" where
  "allows_payload opcode = (opcode \<notin> {RdmaReadRequest, Acknowledge})"

definition is_request :: "Opcode \<Rightarrow> bool" where
  "is_request opcode = (operation opcode \<in> {OpSend, OpWrite, OpReadRequest})"

definition is_response :: "Opcode \<Rightarrow> bool" where
  "is_response opcode = (\<not> is_request opcode)"

section \<open>Lemmas\<close>

lemma opcode_roundtrip [simp]: "opcode_from_u8 (as_u8 opcode) = Inr opcode"
  by (cases opcode) (simp_all add: opcode_from_u8_def)

lemma opcode_from_u8_Inr: "opcode_from_u8 v = Inr opcode \<longleftrightarrow> v = as_u8 opcode"
proof
  show "opcode_from_u8 v = Inr opcode \<Longrightarrow> v = as_u8 opcode"
    by (auto simp: opcode_from_u8_def split: if_splits)
qed simp

lemma not_reth_and_aeth: "\<not> (has_reth opcode \<and> has_aeth opcode)"
  by (auto simp: has_reth_def has_aeth_def)

end
