(* ===== verification/Core_Segment.thy ===== *)
theory Core_Segment
  imports Wire_Opcode
begin

text \<open>
  Segmentation of a transfer into packets, \<open>rocev2-core/src/segment.rs\<close>.
  \<open>remaining_segments\<close> returns \<open>None\<close> where its subtraction underflows, which is a
  panic with overflow checks on.  \<open>segment_collect\<close> drives the iterator with a
  bound on the number of calls and returns \<open>Some\<close> once the iterator has
  returned its \<open>None\<close>.
\<close>

section \<open>Model\<close>

datatype TransferKind = TkSend | TkWrite | TkReadResponse

datatype SegmentError = ZeroPayloadCapacity

record Segment =
  seg_opcode :: Opcode
  seg_offset :: usize
  seg_payload :: octets

record Segmenter =
  sgr_kind :: TransferKind
  sgr_payload :: octets
  max_payload :: usize
  sgr_offset :: usize
  emitted_empty :: bool

definition segmenter_new :: "TransferKind \<Rightarrow> octets \<Rightarrow> usize \<Rightarrow> SegmentError + Segmenter" where
  "segmenter_new kind payload max_pl =
     (if max_pl = 0 then Inl ZeroPayloadCapacity
      else Inr \<lparr>sgr_kind = kind, sgr_payload = payload, max_payload = max_pl, sgr_offset = 0,
                emitted_empty = False\<rparr>)"

definition total_segments :: "Segmenter \<Rightarrow> usize" where
  "total_segments s =
     (if sgr_payload s = [] then 1
      else 1 + (length (sgr_payload s) - 1) div max_payload s)"

definition remaining_segments :: "Segmenter \<Rightarrow> usize option" where
  "remaining_segments s =
     (if sgr_payload s = [] then Some (if emitted_empty s then 0 else 1)
      else let remaining = length (sgr_payload s) - sgr_offset s
           in map_option (\<lambda>r. 1 + r div max_payload s) (usize_checked_sub remaining 1))"

fun opcode_for :: "TransferKind \<Rightarrow> bool \<Rightarrow> bool \<Rightarrow> Opcode" where
  "opcode_for TkSend True True = SendOnly"
| "opcode_for TkSend True False = SendFirst"
| "opcode_for TkSend False True = SendLast"
| "opcode_for TkSend False False = SendMiddle"
| "opcode_for TkWrite True True = RdmaWriteOnly"
| "opcode_for TkWrite True False = RdmaWriteFirst"
| "opcode_for TkWrite False True = RdmaWriteLast"
| "opcode_for TkWrite False False = RdmaWriteMiddle"
| "opcode_for TkReadResponse True True = RdmaReadResponseOnly"
| "opcode_for TkReadResponse True False = RdmaReadResponseFirst"
| "opcode_for TkReadResponse False True = RdmaReadResponseLast"
| "opcode_for TkReadResponse False False = RdmaReadResponseMiddle"

definition segmenter_next :: "Segmenter \<Rightarrow> Segmenter \<times> Segment option" where
  "segmenter_next s =
     (if sgr_payload s = [] then
        (if emitted_empty s then (s, None)
         else (s\<lparr>emitted_empty := True\<rparr>,
               Some \<lparr>seg_opcode = opcode_for (sgr_kind s) True True, seg_offset = 0, seg_payload = []\<rparr>))
      else if sgr_offset s = length (sgr_payload s) then (s, None)
      else let start = sgr_offset s;
               seg_end = min (min (start + max_payload s) usize_max) (length (sgr_payload s));
               first = (start = 0);
               last = (seg_end = length (sgr_payload s))
           in (s\<lparr>sgr_offset := seg_end\<rparr>,
               Some \<lparr>seg_opcode = opcode_for (sgr_kind s) first last, seg_offset = start,
                     seg_payload = slice start seg_end (sgr_payload s)\<rparr>))"

fun segment_collect :: "nat \<Rightarrow> Segmenter \<Rightarrow> (Segment list \<times> Segmenter) option" where
  "segment_collect 0 s = None"
| "segment_collect (Suc n) s =
     (case segmenter_next s of
        (s', None) \<Rightarrow> Some ([], s')
      | (s', Some g) \<Rightarrow> map_option (\<lambda>(gs, t). (g # gs, t)) (segment_collect n s'))"

section \<open>Lemmas\<close>

fun kind_operation :: "TransferKind \<Rightarrow> Operation" where
  "kind_operation TkSend = OpSend"
| "kind_operation TkWrite = OpWrite"
| "kind_operation TkReadResponse = OpReadResponse"

lemma operation_opcode_for [simp]: "operation (opcode_for k f l) = kind_operation k"
  by (cases k; cases f; cases l) (simp_all add: operation_def)

lemma position_opcode_for [simp]:
  "position (opcode_for k f l) = (if f then if l then Only else First else if l then Last else Middle)"
  by (cases k; cases f; cases l) (simp_all add: position_def)

text \<open>The positions of \<open>n\<close> consecutive packets, the first one of the message or not.\<close>

fun positions :: "bool \<Rightarrow> nat \<Rightarrow> SegmentPosition list" where
  "positions f 0 = []"
| "positions f (Suc 0) = [if f then Only else Last]"
| "positions f (Suc (Suc n)) = (if f then First else Middle) # positions False (Suc n)"

lemma positions_False: "positions False (Suc n) = replicate n Middle @ [Last]"
  by (induction n) simp_all

lemma segments_from_offset:
  assumes "sgr_offset s < length (sgr_payload s)" and "0 < max_payload s"
    and "length (sgr_payload s) \<le> usize_max"
    and "n = (length (sgr_payload s) - sgr_offset s - 1) div max_payload s"
    and "Suc n < fuel"
  shows "\<exists>gs. segment_collect fuel s = Some (gs, s\<lparr>sgr_offset := length (sgr_payload s)\<rparr>) \<and>
    concat (map seg_payload gs) = drop (sgr_offset s) (sgr_payload s) \<and>
    length gs = Suc n \<and>
    (\<forall>g \<in> set gs. length (seg_payload g) \<le> max_payload s \<and> seg_payload g \<noteq> [] \<and>
       operation (seg_opcode g) = kind_operation (sgr_kind s)) \<and>
    (\<forall>i < length gs. seg_offset (gs ! i) = sgr_offset s + i * max_payload s) \<and>
    map (\<lambda>g. position (seg_opcode g)) gs = positions (sgr_offset s = 0) (Suc n)"
  using assms
proof (induction fuel arbitrary: s n)
  case (Suc fuel)
  let ?len = "length (sgr_payload s)" and ?o = "sgr_offset s" and ?m = "max_payload s"
  let ?e = "min (?o + ?m) ?len"
  let ?g = "\<lparr>seg_opcode = opcode_for (sgr_kind s) (?o = 0) (?e = ?len), seg_offset = ?o,
    seg_payload = slice ?o ?e (sgr_payload s)\<rparr>"
  have e: "min (min (?o + ?m) usize_max) ?len = ?e" using Suc.prems(3) by auto
  have ne: "sgr_payload s \<noteq> []" using Suc.prems(1) by auto
  have next1: "segmenter_next s = (s\<lparr>sgr_offset := ?e\<rparr>, Some ?g)"
    using Suc.prems(1) ne unfolding segmenter_next_def Let_def e by simp
  have pay: "length (slice ?o ?e (sgr_payload s)) \<le> ?m" "slice ?o ?e (sgr_payload s) \<noteq> []"
    using Suc.prems(1,2) by (auto simp: slice_def)
  have split: "slice ?o ?e (sgr_payload s) @ drop ?e (sgr_payload s) = drop ?o (sgr_payload s)"
    using append_take_drop_id [of "?e - ?o" "drop ?o (sgr_payload s)"] Suc.prems(1)
    by (simp add: slice_def)
  show ?case
  proof (cases "?e = ?len")
    case True
    then have n: "n = 0" using Suc.prems by (auto simp: min_def split: if_splits)
    have "segment_collect fuel (s\<lparr>sgr_offset := ?len\<rparr>) = Some ([], s\<lparr>sgr_offset := ?len\<rparr>)"
      using Suc.prems(5) ne n by (cases fuel) (auto simp: segmenter_next_def)
    then have "segment_collect (Suc fuel) s = Some ([?g], s\<lparr>sgr_offset := ?len\<rparr>)"
      using next1 True by simp
    then show ?thesis using n pay split True by (intro exI [of _ "[?g]"]) simp
  next
    case False
    let ?s = "s\<lparr>sgr_offset := ?e\<rparr>"
    have e': "?e = ?o + ?m" and lt: "?o + ?m < ?len"
      using False by (auto simp: min_def split: if_splits)
    have "0 < n" using Suc.prems(2,4) lt by (simp add: div_greater_zero_iff)
    then obtain m where m: "n = Suc m" using gr0_implies_Suc by blast
    have mm: "m = (length (sgr_payload ?s) - sgr_offset ?s - 1) div max_payload ?s"
    proof -
      have "?len - ?o - 1 = (?len - (?o + ?m) - 1) + ?m" using lt by simp
      then have "n = ((?len - (?o + ?m) - 1) + ?m) div ?m"
        by (simp only: Suc.prems(4))
      also have "\<dots> = Suc ((?len - (?o + ?m) - 1) div ?m)"
        using Suc.prems(2) by (subst div_add_self2) simp_all
      finally show ?thesis using m e' by simp
    qed
    have prems: "sgr_offset ?s < length (sgr_payload ?s)" "0 < max_payload ?s"
      "length (sgr_payload ?s) \<le> usize_max" "Suc m < fuel"
      using Suc.prems(2,3,5) m e' lt by simp_all
    obtain gs
      where gs: "segment_collect fuel ?s = Some (gs, ?s\<lparr>sgr_offset := ?len\<rparr>)"
        "concat (map seg_payload gs) = drop ?e (sgr_payload s)" "length gs = Suc m"
        "\<forall>g \<in> set gs. length (seg_payload g) \<le> ?m \<and> seg_payload g \<noteq> [] \<and>
           operation (seg_opcode g) = kind_operation (sgr_kind s)"
        "\<forall>i < length gs. seg_offset (gs ! i) = ?e + i * ?m"
        "map (\<lambda>g. position (seg_opcode g)) gs = positions (?e = 0) (Suc m)"
      using Suc.IH [OF prems(1-3) mm prems(4)] by auto
    have "seg_offset ((?g # gs) ! i) = ?o + i * ?m" if "i < length (?g # gs)" for i
      using that gs(5) e' by (cases i) auto
    moreover have "map (\<lambda>g. position (seg_opcode g)) (?g # gs) = positions (?o = 0) (Suc n)"
      using gs(6) False e' Suc.prems(2) m by simp
    ultimately show ?thesis
      using gs next1 pay split m by (intro exI [of _ "?g # gs"]) simp
  qed
qed simp

lemma segments_of_new:
  assumes "segmenter_new kind payload m = Inr s" and "length payload \<le> usize_max"
    and "total_segments s < fuel"
  shows "\<exists>gs t. segment_collect fuel s = Some (gs, t) \<and>
    concat (map seg_payload gs) = payload \<and> length gs = total_segments s \<and>
    (\<forall>g \<in> set gs. length (seg_payload g) \<le> m \<and> operation (seg_opcode g) = kind_operation kind) \<and>
    (\<forall>i < length gs. seg_offset (gs ! i) = i * m) \<and>
    map (\<lambda>g. position (seg_opcode g)) gs = positions True (total_segments s)"
proof -
  have m: "0 < m" and s: "s = \<lparr>sgr_kind = kind, sgr_payload = payload, max_payload = m,
      sgr_offset = 0, emitted_empty = False\<rparr>"
    using assms(1) by (auto simp: segmenter_new_def split: if_splits)
  show ?thesis
  proof (cases "payload = []")
    case True
    have "Suc (Suc 0) \<le> fuel" using assms(3) True by (simp add: s total_segments_def)
    then obtain f where "fuel = Suc (Suc f)" using that [of "fuel - 2"] by simp
    then show ?thesis using True by (simp add: s total_segments_def segmenter_next_def)
  next
    case False
    have total: "total_segments s = Suc ((length payload - 1) div m)"
      using False by (simp add: s total_segments_def)
    have "\<exists>gs. segment_collect fuel s = Some (gs, s\<lparr>sgr_offset := length payload\<rparr>) \<and>
      concat (map seg_payload gs) = payload \<and> length gs = total_segments s \<and>
      (\<forall>g \<in> set gs. length (seg_payload g) \<le> m \<and> seg_payload g \<noteq> [] \<and>
         operation (seg_opcode g) = kind_operation kind) \<and>
      (\<forall>i < length gs. seg_offset (gs ! i) = i * m) \<and>
      map (\<lambda>g. position (seg_opcode g)) gs = positions True (total_segments s)"
      using segments_from_offset [of s "(length payload - 1) div m" fuel] assms(2,3) m False
      unfolding total by (simp add: s)
    then show ?thesis by blast
  qed
qed

section \<open>Properties\<close>

text \<open>C22: Segmentation is a faithful partition.  For every transfer kind, payload and non-zero
  packet capacity the iterator ends after exactly \<open>total_segments\<close> packets; their payloads
  concatenate to the transfer, none exceeds the capacity, packet \<open>i\<close> starts at offset
  \<open>i * max_payload\<close>, and the opcodes are those of the transfer kind in the order Only, or
  First, Middle..., Last.\<close>

theorem segmenter_partitions:
  assumes "segmenter_new kind payload m = Inr s" and "length payload \<le> usize_max"
    and "total_segments s < fuel"
  shows "\<exists>gs t. segment_collect fuel s = Some (gs, t) \<and>
    concat (map seg_payload gs) = payload \<and> length gs = total_segments s \<and>
    (\<forall>g \<in> set gs. length (seg_payload g) \<le> m \<and> operation (seg_opcode g) = kind_operation kind) \<and>
    (\<forall>i < length gs. seg_offset (gs ! i) = i * m) \<and>
    map (\<lambda>g. position (seg_opcode g)) gs =
      (if total_segments s = 1 then [Only]
       else First # replicate (total_segments s - 2) Middle @ [Last])"
proof -
  have "positions True n = (if n = 1 then [Only] else First # replicate (n - 2) Middle @ [Last])"
    if "n \<noteq> 0" for n
    using that by (cases "(True, n)" rule: positions.cases) (auto simp: positions_False)
  moreover have "total_segments s \<noteq> 0" by (simp add: total_segments_def)
  ultimately show ?thesis using segments_of_new [OF assms] by metis
qed

theorem segmenter_partitions_witness:
  "\<exists>gs t. segment_collect 4
      \<lparr>sgr_kind = TkWrite, sgr_payload = [1, 2, 3, 4, 5], max_payload = 2, sgr_offset = 0,
       emitted_empty = False\<rparr> = Some (gs, t) \<and>
    concat (map seg_payload gs) = [1, 2, 3, 4, 5] \<and>
    map (\<lambda>g. position (seg_opcode g)) gs = [First, Middle, Last]"
proof -
  let ?s = "\<lparr>sgr_kind = TkWrite, sgr_payload = [1, 2, 3, 4, 5], max_payload = 2, sgr_offset = 0,
       emitted_empty = False\<rparr>"
  have new: "segmenter_new TkWrite [1, 2, 3, 4, 5] 2 = Inr ?s" and total: "total_segments ?s = 3"
    by (simp_all add: segmenter_new_def total_segments_def)
  have "length [1, 2, 3, 4, 5 :: u8] \<le> usize_max" "total_segments ?s < 4"
    by (simp_all add: usize_max_def total)
  from segmenter_partitions [OF new this] show ?thesis
    unfolding total by fastforce
qed

text \<open>C23: The size hint of an exhausted segmenter underflows.  Once a non-empty transfer has
  been handed out completely, the iterator correctly answers \<open>None\<close>, but
  \<open>remaining_segments\<close>, and with it \<open>size_hint\<close> and \<open>len\<close>, subtracts one from zero.\<close>

theorem remaining_segments_underflow:
  assumes "segmenter_new kind payload m = Inr s" and "payload \<noteq> []"
    and "length payload \<le> usize_max" and "total_segments s < fuel"
  shows "\<exists>gs t. segment_collect fuel s = Some (gs, t) \<and> snd (segmenter_next t) = None \<and>
    remaining_segments t = None"
proof -
  have m: "0 < m" and s: "s = \<lparr>sgr_kind = kind, sgr_payload = payload, max_payload = m,
      sgr_offset = 0, emitted_empty = False\<rparr>"
    using assms(1) by (auto simp: segmenter_new_def split: if_splits)
  have "\<exists>gs. segment_collect fuel s = Some (gs, s\<lparr>sgr_offset := length payload\<rparr>)"
    using segments_from_offset [of s "(length payload - 1) div m" fuel] assms(2-4) m
    by (auto simp: s total_segments_def)
  moreover have "snd (segmenter_next (s\<lparr>sgr_offset := length payload\<rparr>)) = None"
    "remaining_segments (s\<lparr>sgr_offset := length payload\<rparr>) = None"
    using assms(2) by (simp_all add: s segmenter_next_def remaining_segments_def usize_checked_sub_def)
  ultimately show ?thesis by blast
qed

theorem remaining_segments_underflow_witness:
  "\<exists>gs t. segment_collect 2
      \<lparr>sgr_kind = TkSend, sgr_payload = [7], max_payload = 256, sgr_offset = 0,
       emitted_empty = False\<rparr> = Some (gs, t) \<and> remaining_segments t = None"
  using remaining_segments_underflow [of TkSend "[7]" 256
      "\<lparr>sgr_kind = TkSend, sgr_payload = [7], max_payload = 256, sgr_offset = 0,
       emitted_empty = False\<rparr>" 2]
  by (auto simp: segmenter_new_def total_segments_def usize_max_def)

end
