(* ===== verification/Probe_Table.thy ===== *)
theory Probe_Table
  imports Prelude
begin

text \<open>
  Open addressing with linear probing, the technique shared by the QPN table
  and the protection-key table.  A table is a function from the positions
  below the capacity to the entry stored there.  \<open>reachable\<close> is what makes a
  probe from the home position find an entry; \<open>cut\<close> names a position that no
  probe path crosses (an empty slot is one), which is what keeps a deletion
  from a completely full table correct.
\<close>

datatype probe_result = Found nat | Vacant nat | Exhausted_Table

locale probing =
  fixes n :: nat
    and home :: "'k \<Rightarrow> nat"
    and key :: "'e \<Rightarrow> 'k"
  assumes home_less: "home k < n"
begin

definition dist :: "nat \<Rightarrow> nat \<Rightarrow> nat" where
  "dist h i = (if h \<le> i then i - h else n - h + i)"

definition nxt :: "nat \<Rightarrow> nat" where
  "nxt i = (if i + 1 = n then 0 else i + 1)"

definition reachable :: "(nat \<Rightarrow> 'e option) \<Rightarrow> bool" where
  "reachable t \<longleftrightarrow> (\<forall>i < n. \<forall>e. t i = Some e \<longrightarrow>
     (\<forall>q < n. dist (home (key e)) q < dist (home (key e)) i \<longrightarrow> t q \<noteq> None))"

definition unique :: "(nat \<Rightarrow> 'e option) \<Rightarrow> bool" where
  "unique t \<longleftrightarrow> (\<forall>i < n. \<forall>j < n. \<forall>e e'. t i = Some e \<longrightarrow> t j = Some e' \<longrightarrow> key e = key e' \<longrightarrow> i = j)"

definition cut :: "(nat \<Rightarrow> 'e option) \<Rightarrow> nat \<Rightarrow> bool" where
  "cut t p \<longleftrightarrow> (\<forall>i < n. \<forall>e. t i = Some e \<longrightarrow> \<not> dist (home (key e)) p < dist (home (key e)) i)"

definition table_ok :: "(nat \<Rightarrow> 'e option) \<Rightarrow> bool" where
  "table_ok t \<longleftrightarrow> reachable t \<and> unique t \<and> (\<exists>p < n. cut t p)"

definition holds :: "(nat \<Rightarrow> 'e option) \<Rightarrow> 'e \<Rightarrow> bool" where
  "holds t e \<longleftrightarrow> (\<exists>i < n. t i = Some e)"

lemma reachableD:
  "reachable t \<Longrightarrow> i < n \<Longrightarrow> t i = Some e \<Longrightarrow> q < n \<Longrightarrow>
   dist (home (key e)) q < dist (home (key e)) i \<Longrightarrow> t q \<noteq> None"
  unfolding reachable_def by blast

lemma uniqueD:
  "unique t \<Longrightarrow> i < n \<Longrightarrow> j < n \<Longrightarrow> t i = Some e \<Longrightarrow> t j = Some e' \<Longrightarrow> key e = key e' \<Longrightarrow> i = j"
  unfolding unique_def by blast

lemma cutD:
  "cut t p \<Longrightarrow> i < n \<Longrightarrow> t i = Some e \<Longrightarrow> \<not> dist (home (key e)) p < dist (home (key e)) i"
  unfolding cut_def by blast

lemma n_pos: "0 < n"
  using home_less by fastforce

lemma nxt_less: "i < n \<Longrightarrow> nxt i < n"
  by (simp add: nxt_def)

lemma dist_less: "h < n \<Longrightarrow> i < n \<Longrightarrow> dist h i < n"
  by (auto simp: dist_def)

lemma dist_inj: "h < n \<Longrightarrow> i < n \<Longrightarrow> j < n \<Longrightarrow> dist h i = dist h j \<Longrightarrow> i = j"
  by (auto simp: dist_def split: if_splits)

lemma dist_self [simp]: "dist h h = 0"
  by (simp add: dist_def)

lemma dist_nxt: "h < n \<Longrightarrow> i < n \<Longrightarrow> dist h i + 1 < n \<Longrightarrow> dist h (nxt i) = dist h i + 1"
  by (auto simp: dist_def nxt_def split: if_splits)

lemma dist_nxt_wrap: "h < n \<Longrightarrow> i < n \<Longrightarrow> dist h i + 1 = n \<Longrightarrow> nxt i = h"
  by (auto simp: dist_def nxt_def split: if_splits)

lemma dist_via:
  "a < n \<Longrightarrow> b < n \<Longrightarrow> c < n \<Longrightarrow> dist a b \<le> dist a c \<Longrightarrow> dist a c = dist a b + dist b c"
  by (auto simp: dist_def split: if_splits)

lemma dist_extend:
  "a < n \<Longrightarrow> b < n \<Longrightarrow> c < n \<Longrightarrow> dist a b + dist b c < n \<Longrightarrow> dist a c = dist a b + dist b c"
  by (auto simp: dist_def split: if_splits)

section \<open>Search\<close>

fun probe :: "(nat \<Rightarrow> 'e option) \<Rightarrow> 'k \<Rightarrow> nat \<Rightarrow> nat \<Rightarrow> probe_result" where
  "probe t k 0 i = Exhausted_Table"
| "probe t k (Suc f) i =
     (case t i of None \<Rightarrow> Vacant i
      | Some e \<Rightarrow> if key e = k then Found i else probe t k f (nxt i))"

lemma probe_from:
  assumes "\<forall>q < n. dist (home k) q < d \<longrightarrow> (\<exists>e. t q = Some e \<and> key e \<noteq> k)" and "d + f = n"
    and "f \<noteq> 0 \<longrightarrow> i < n \<and> dist (home k) i = d"
  shows "case probe t k f i of
      Found j \<Rightarrow> j < n \<and> (\<exists>e. t j = Some e \<and> key e = k)
    | Vacant j \<Rightarrow> j < n \<and> t j = None \<and>
        (\<forall>q < n. dist (home k) q < dist (home k) j \<longrightarrow> (\<exists>e. t q = Some e \<and> key e \<noteq> k))
    | Exhausted_Table \<Rightarrow> (\<forall>q < n. \<exists>e. t q = Some e \<and> key e \<noteq> k)"
  using assms
proof (induction f arbitrary: i d)
  case 0
  then show ?case using dist_less home_less by simp
next
  case (Suc f)
  then have i: "i < n" "dist (home k) i = d" by auto
  show ?case
  proof (cases "t i")
    case None
    then show ?thesis using Suc.prems i by simp
  next
    case (Some e)
    show ?thesis
    proof (cases "key e = k")
      case True
      then show ?thesis using Some i by auto
    next
      case False
      have "\<forall>q < n. dist (home k) q < d + 1 \<longrightarrow> (\<exists>e. t q = Some e \<and> key e \<noteq> k)"
      proof (intro allI impI)
        fix q assume q: "q < n" "dist (home k) q < d + 1"
        show "\<exists>e. t q = Some e \<and> key e \<noteq> k"
        proof (cases "dist (home k) q = d")
          case True
          then have "q = i" using dist_inj [OF home_less] i q by metis
          then show ?thesis using Some False by simp
        next
          case False
          then show ?thesis using Suc.prems(1) q by simp
        qed
      qed
      moreover have "f \<noteq> 0 \<longrightarrow> nxt i < n \<and> dist (home k) (nxt i) = d + 1"
        using i Suc.prems(2) dist_nxt [OF home_less i(1)] nxt_less by auto
      ultimately have "case probe t k f (nxt i) of
          Found j \<Rightarrow> j < n \<and> (\<exists>e. t j = Some e \<and> key e = k)
        | Vacant j \<Rightarrow> j < n \<and> t j = None \<and>
            (\<forall>q < n. dist (home k) q < dist (home k) j \<longrightarrow> (\<exists>e. t q = Some e \<and> key e \<noteq> k))
        | Exhausted_Table \<Rightarrow> (\<forall>q < n. \<exists>e. t q = Some e \<and> key e \<noteq> k)"
        using Suc.prems(2) by (intro Suc.IH [of "d + 1"]) auto
      then show ?thesis using Some False by simp
    qed
  qed
qed

lemma probe_home:
  "case probe t k n (home k) of
      Found j \<Rightarrow> j < n \<and> (\<exists>e. t j = Some e \<and> key e = k)
    | Vacant j \<Rightarrow> j < n \<and> t j = None \<and>
        (\<forall>q < n. dist (home k) q < dist (home k) j \<longrightarrow> (\<exists>e. t q = Some e \<and> key e \<noteq> k))
    | Exhausted_Table \<Rightarrow> (\<forall>q < n. \<exists>e. t q = Some e \<and> key e \<noteq> k)"
  by (rule probe_from [of k 0]) (auto simp: home_less)

text \<open>A probe that ends without the key proves that the key is absent.\<close>

lemma probe_Vacant_absent:
  assumes "reachable t" and "probe t k n (home k) = Vacant j" and "holds t e"
  shows "key e \<noteq> k"
proof
  assume k: "key e = k"
  have v: "j < n" "t j = None"
    "\<And>q. q < n \<Longrightarrow> dist (home k) q < dist (home k) j \<Longrightarrow> \<exists>e. t q = Some e \<and> key e \<noteq> k"
    using probe_home [of t k] assms(2) by auto
  obtain i where i: "i < n" "t i = Some e" using assms(3) by (auto simp: holds_def)
  have "\<not> dist (home k) j < dist (home k) i"
    using assms(1) i v k unfolding reachable_def by blast
  moreover have "\<not> dist (home k) i < dist (home k) j" using v(3) i k by fastforce
  ultimately have "i = j" using dist_inj [OF home_less] i v by (meson linorder_neqE_nat)
  then show False using i v by simp
qed

lemma probe_Found_iff:
  assumes "reachable t" and "unique t"
  shows "probe t k n (home k) = Found i \<longleftrightarrow> i < n \<and> (\<exists>e. t i = Some e \<and> key e = k)"
proof
  show "probe t k n (home k) = Found i \<Longrightarrow> i < n \<and> (\<exists>e. t i = Some e \<and> key e = k)"
    using probe_home [of t k] by auto
next
  assume "i < n \<and> (\<exists>e. t i = Some e \<and> key e = k)"
  then obtain e where e: "i < n" "t i = Some e" "key e = k" by auto
  show "probe t k n (home k) = Found i"
  proof (cases "probe t k n (home k)")
    case (Found j)
    then show ?thesis using probe_home [of t k] e assms(2) unfolding unique_def by auto
  next
    case (Vacant j)
    then show ?thesis using probe_Vacant_absent [OF assms(1) Vacant] e by (auto simp: holds_def)
  next
    case Exhausted_Table
    then show ?thesis using probe_home [of t k] e by fastforce
  qed
qed

section \<open>Insertion\<close>

lemma table_ok_empty: "table_ok (\<lambda>_. None)"
  using n_pos by (auto simp: table_ok_def reachable_def unique_def cut_def)

lemma insert_ok:
  assumes "table_ok t" and "probe t (key e) n (home (key e)) = Vacant j"
  shows "table_ok (t(j := Some e))" and "holds (t(j := Some e)) e' \<longleftrightarrow> e' = e \<or> holds t e'"
proof -
  let ?k = "key e" and ?t = "t(j := Some e)"
  have ok: "reachable t" "unique t" using assms(1) by (auto simp: table_ok_def)
  have v: "j < n" "t j = None"
    "\<And>q. q < n \<Longrightarrow> dist (home ?k) q < dist (home ?k) j \<Longrightarrow> \<exists>e'. t q = Some e' \<and> key e' \<noteq> ?k"
    using probe_home [of t ?k] assms(2) by auto
  have fresh: "key e' \<noteq> ?k" if "i < n" "t i = Some e'" for i e'
    using probe_Vacant_absent [OF ok(1) assms(2)] that by (auto simp: holds_def)
  have "reachable ?t"
    unfolding reachable_def
  proof (intro allI impI)
    fix i e' q
    assume a: "i < n" "?t i = Some e'" "q < n" "dist (home (key e')) q < dist (home (key e')) i"
    show "?t q \<noteq> None"
    proof (cases "i = j")
      case True
      then have "e' = e" using a(2) by simp
      then have "\<exists>e'. t q = Some e' \<and> key e' \<noteq> ?k" using v(3) [OF a(3)] a(4) True by simp
      then have "t q \<noteq> None" by blast
      then show ?thesis by simp
    next
      case False
      then have "t q \<noteq> None" using a reachableD [OF ok(1), of i e' q] by simp
      then show ?thesis by simp
    qed
  qed
  moreover have "unique ?t"
    unfolding unique_def
  proof (intro allI impI)
    fix i i' a b
    assume u: "i < n" "i' < n" "?t i = Some a" "?t i' = Some b" "key a = key b"
    consider "i = j" "i' = j" | "i = j" "i' \<noteq> j" | "i \<noteq> j" "i' = j" | "i \<noteq> j" "i' \<noteq> j" by blast
    then show "i = i'"
    proof cases
      case 2
      then have "t i' = Some b" "a = e" using u(3,4) by simp_all
      then show ?thesis using fresh [OF u(2)] u(5) by simp
    next
      case 3
      then have "t i = Some a" "b = e" using u(3,4) by simp_all
      then show ?thesis using fresh [OF u(1)] u(5) by simp
    next
      case 4
      then have "t i = Some a" "t i' = Some b" using u(3,4) by simp_all
      then show ?thesis using uniqueD [OF ok(2) u(1,2)] u(5) by blast
    qed simp
  qed
  moreover have "\<exists>p < n. cut ?t p"
  proof -
    have "cut ?t j"
      unfolding cut_def
    proof (intro allI impI notI)
      fix i e'
      assume a: "i < n" "?t i = Some e'" "dist (home (key e')) j < dist (home (key e')) i"
      then have "i \<noteq> j" by auto
      then have "t j \<noteq> None" using a reachableD [OF ok(1), of i e' j] v(1) by simp
      then show False using v(2) by simp
    qed
    then show ?thesis using v(1) by blast
  qed
  ultimately show "table_ok ?t" by (simp add: table_ok_def)
  show "holds ?t e' \<longleftrightarrow> e' = e \<or> holds t e'"
    unfolding holds_def using v(1,2) by (metis fun_upd_apply option.distinct(1) option.inject)
qed

section \<open>Deletion by backward shifting\<close>

text \<open>
  The hole is empty in \<open>t\<close>.  One step looks at the scanned entry and moves it
  into the hole when the hole lies on its probe path.
\<close>

fun shift_loop :: "nat \<Rightarrow> nat \<Rightarrow> nat \<Rightarrow> (nat \<Rightarrow> 'e option) \<Rightarrow> (nat \<Rightarrow> 'e option) \<times> nat" where
  "shift_loop 0 h s t = (t, h)"
| "shift_loop (Suc f) h s t =
     (case t s of None \<Rightarrow> (t, h)
      | Some e \<Rightarrow>
          if dist (home (key e)) h < dist (home (key e)) s
          then shift_loop f s (nxt s) (t(h := Some e, s := None))
          else shift_loop f h (nxt s) t)"

text \<open>
  The loop invariant, with \<open>h0\<close> the position deleted, \<open>w\<close> the distance of the
  scan from the hole and \<open>p\<close> the cut: a probe path may be broken only at the
  hole, and only for entries not scanned since the hole was made.
\<close>

definition shifting :: "nat \<Rightarrow> nat \<Rightarrow> nat \<Rightarrow> nat \<Rightarrow> (nat \<Rightarrow> 'e option) \<Rightarrow> bool" where
  "shifting h0 p h w t \<longleftrightarrow>
     h0 < n \<and> p < n \<and> h < n \<and> t h = None \<and> unique t \<and> cut t p \<and>
     dist h0 h \<le> dist h0 p \<and> dist h0 h + w \<le> n \<and> 0 < w \<and>
     (\<forall>i < n. \<forall>e. t i = Some e \<longrightarrow> (\<forall>q < n. dist (home (key e)) q < dist (home (key e)) i \<longrightarrow>
        t q \<noteq> None \<or> (q = h \<and> w \<le> dist h i)))"

lemma shiftingD:
  assumes "shifting h0 p h w t" and "i < n" and "t i = Some e" and "q < n"
    and "dist (home (key e)) q < dist (home (key e)) i" and "t q = None"
  shows "q = h" and "w \<le> dist h i"
  using assms unfolding shifting_def by blast+

lemma shifting_basic:
  assumes "shifting h0 p h w t"
  shows "h0 < n" "p < n" "h < n" "t h = None" "unique t" "cut t p"
    "dist h0 h \<le> dist h0 p" "dist h0 h + w \<le> n" "0 < w"
  using assms unfolding shifting_def by blast+

lemma shifting_start:
  assumes "table_ok t" and "h0 < n" and "t h0 = Some e0"
  obtains p where "shifting h0 p h0 1 (t(h0 := None))"
proof -
  obtain p where p: "p < n" "cut t p" and ok: "reachable t" "unique t"
    using assms(1) by (auto simp: table_ok_def)
  let ?t = "t(h0 := None)"
  have keep: "?t i = Some e \<Longrightarrow> t i = Some e \<and> i \<noteq> h0" for i e by (cases "i = h0") auto
  have "unique ?t"
    unfolding unique_def using keep uniqueD [OF ok(2)] by blast
  moreover have "cut ?t p"
    unfolding cut_def using keep cutD [OF p(2)] by blast
  moreover have "?t q \<noteq> None \<or> (q = h0 \<and> 1 \<le> dist h0 i)"
    if "i < n" "?t i = Some e" "q < n" "dist (home (key e)) q < dist (home (key e)) i" for i e q
  proof -
    have "t q \<noteq> None" using reachableD [OF ok(1) that(1) _ that(3,4)] keep [OF that(2)] by simp
    moreover have "1 \<le> dist h0 i"
      using dist_inj [OF assms(2,2) that(1)] keep [OF that(2)] by (cases "dist h0 i") auto
    ultimately show ?thesis by simp
  qed
  ultimately have "shifting h0 p h0 1 ?t"
    unfolding shifting_def using assms(2) p(1) n_pos by simp
  then show thesis by (rule that)
qed

text \<open>Stopping at an empty position: no broken path is left.\<close>

lemma shifting_stop:
  assumes "shifting h0 p h w t" and "s < n" and "dist h s = w" and "t s = None"
  shows "reachable t"
  unfolding reachable_def
proof (intro allI impI notI)
  fix i e q
  assume a: "i < n" "t i = Some e" "q < n" "dist (home (key e)) q < dist (home (key e)) i" "t q = None"
  note hq = shiftingD [OF assms(1) a(1-3) a(4,5)] and b = shifting_basic [OF assms(1)]
  have "i \<noteq> s" using a(2) assms(4) by auto
  then have lt: "dist h s < dist h i"
    using hq(2) assms(2,3) dist_inj [OF b(3)] a(1) by (metis le_neq_implies_less)
  have via: "dist (home (key e)) i = dist (home (key e)) h + dist h i"
    using dist_via [OF home_less b(3) a(1)] a(4) hq(1) by simp
  then have "dist (home (key e)) h + dist h s < n"
    using lt dist_less [OF home_less a(1)] by (metis add_less_mono1 add.commute less_trans)
  then have "dist (home (key e)) s = dist (home (key e)) h + dist h s"
    by (rule dist_extend [OF home_less b(3) assms(2)])
  then have "dist (home (key e)) s < dist (home (key e)) i" using via lt by simp
  then have "s = h" by (rule shiftingD(1) [OF assms(1) a(1,2) assms(2) _ assms(4)])
  then show False using assms(3) b(9) by simp
qed

text \<open>Having scanned the whole table: the cut rules out a path around it.\<close>

lemma shifting_exhausted:
  assumes "shifting h0 p h w t" and "dist h0 h + w = n"
  shows "reachable t"
  unfolding reachable_def
proof (intro allI impI notI)
  fix i e q
  assume a: "i < n" "t i = Some e" "q < n" "dist (home (key e)) q < dist (home (key e)) i" "t q = None"
  note hq = shiftingD [OF assms(1) a(1-3) a(4,5)] and b = shifting_basic [OF assms(1)]
  have via: "dist (home (key e)) i = dist (home (key e)) h + dist h i"
    using dist_via [OF home_less b(3) a(1)] a(4) hq(1) by simp
  have "dist h0 p = dist h0 h + dist h p" using dist_via [OF b(1,3,2,7)] .
  then have hp: "dist h p < dist h i"
    using hq(2) assms(2) dist_less [OF b(1,2)] by linarith
  then have "dist (home (key e)) p = dist (home (key e)) h + dist h p"
    using via dist_less [OF home_less a(1)] by (intro dist_extend [OF home_less b(3,2)]) (metis add_less_cancel_left less_trans)
  then show False using cutD [OF b(6) a(1,2)] via hp by simp
qed

lemma shifting_keep:
  assumes "shifting h0 p h w t" and "s < n" and "dist h s = w" and "t s = Some e"
    and "\<not> dist (home (key e)) h < dist (home (key e)) s" and "dist h0 h + w < n"
  shows "shifting h0 p h (w + 1) t"
proof -
  note b = shifting_basic [OF assms(1)]
  have "t q \<noteq> None \<or> (q = h \<and> w + 1 \<le> dist h i)"
    if a: "i < n" "t i = Some e'" "q < n" "dist (home (key e')) q < dist (home (key e')) i" for i e' q
  proof (rule ccontr)
    assume "\<not> (t q \<noteq> None \<or> (q = h \<and> w + 1 \<le> dist h i))"
    then have "t q = None" "q = h \<longrightarrow> dist h i < w + 1" by auto
    with shiftingD [OF assms(1) a(1-3) a(4)] have "q = h" "dist h i = dist h s"
      using assms(3) by auto
    then have "i = s" using dist_inj [OF b(3) a(1) assms(2)] by simp
    then show False using a(2,4) assms(4,5) \<open>q = h\<close> by simp
  qed
  then show ?thesis
    unfolding shifting_def using b assms(6) by simp
qed

lemma shifting_move:
  assumes "shifting h0 p h w t" and "s < n" and "dist h s = w" and "t s = Some e"
    and "dist (home (key e)) h < dist (home (key e)) s" and "dist h0 h + w < n"
  shows "shifting h0 p s 1 (t(h := Some e, s := None))"
proof -
  let ?t = "t(h := Some e, s := None)"
  note b = shifting_basic [OF assms(1)]
  have hs: "h \<noteq> s" using assms(4) b(4) by auto
  have via: "dist (home (key e)) s = dist (home (key e)) h + dist h s"
    using dist_via [OF home_less b(3) assms(2)] assms(5) by simp
  have h0s: "dist h0 s = dist h0 h + dist h s"
    using dist_extend [OF b(1,3) assms(2)] assms(3,6) by simp
  have cases_t: "(i = h \<and> e' = e) \<or> (i \<noteq> h \<and> i \<noteq> s \<and> t i = Some e')" if "?t i = Some e'" for i e'
    using that hs by (cases "i = s"; cases "i = h") auto
  have "unique ?t"
    unfolding unique_def
  proof (intro allI impI)
    fix i j e1 e2
    assume u: "i < n" "j < n" "?t i = Some e1" "?t j = Some e2" "key e1 = key e2"
    consider "i = h" "j = h" | "i = h" "e1 = e" "j \<noteq> s" "t j = Some e2"
      | "j = h" "e2 = e" "i \<noteq> s" "t i = Some e1" | "t i = Some e1" "t j = Some e2"
      using cases_t [OF u(3)] cases_t [OF u(4)] by blast
    then show "i = j"
    proof cases
      case 2
      then show ?thesis using uniqueD [OF b(5) assms(2) u(2) assms(4)] u(5) by blast
    next
      case 3
      then show ?thesis using uniqueD [OF b(5) u(1) assms(2) _ assms(4)] u(5) by blast
    next
      case 4
      then show ?thesis using uniqueD [OF b(5) u(1,2)] u(5) by blast
    qed simp
  qed
  moreover have "cut ?t p"
    unfolding cut_def
  proof (intro allI impI)
    fix i e' assume i: "i < n" "?t i = Some e'"
    show "\<not> dist (home (key e')) p < dist (home (key e')) i"
      using cases_t [OF i(2)] cutD [OF b(6) i(1)] cutD [OF b(6) assms(2,4)] assms(5) by auto
  qed
  moreover have "dist h0 s \<le> dist h0 p"
  proof (rule ccontr)
    assume "\<not> dist h0 s \<le> dist h0 p"
    moreover have "dist h0 p = dist h0 h + dist h p" using dist_via [OF b(1,3,2,7)] .
    ultimately have hp: "dist h p < dist h s" using h0s by simp
    then have "dist (home (key e)) p = dist (home (key e)) h + dist h p"
      using via dist_less [OF home_less assms(2)]
      by (intro dist_extend [OF home_less b(3,2)]) (metis add_less_cancel_left less_trans)
    then show False using cutD [OF b(6) assms(2,4)] via hp by simp
  qed
  moreover have "?t q \<noteq> None \<or> (q = s \<and> 1 \<le> dist s i)"
    if a: "i < n" "?t i = Some e'" "q < n" "dist (home (key e')) q < dist (home (key e')) i" for i e' q
  proof -
    have "i \<noteq> s" using a(2) by auto
    then have si: "1 \<le> dist s i"
      using dist_inj [OF assms(2,2) a(1)] by (cases "dist s i") auto
    have "t q \<noteq> None \<or> q = h"
    proof (cases "i = h")
      case True
      then have "e' = e" using cases_t [OF a(2)] by blast
      then have "dist (home (key e)) q < dist (home (key e)) s" using a(4) True assms(5) by simp
      then show ?thesis using shiftingD(1) [OF assms(1,2,4) a(3)] by blast
    next
      case False
      then have "t i = Some e'" using cases_t [OF a(2)] by blast
      then show ?thesis using shiftingD(1) [OF assms(1) a(1) _ a(3,4)] by blast
    qed
    then show ?thesis using si hs by (cases "q = s"; cases "q = h") auto
  qed
  moreover have "dist h0 s + 1 \<le> n" using h0s assms(3,6) by simp
  ultimately show ?thesis
    unfolding shifting_def using b(1,2) assms(2) by simp
qed

lemma holds_move:
  assumes "s < n" and "h < n" and "t s = Some e" and "t h = None"
  shows "holds (t(h := Some e, s := None)) e' \<longleftrightarrow> holds t e'"
proof
  assume "holds (t(h := Some e, s := None)) e'"
  then obtain i where "i < n" "(t(h := Some e, s := None)) i = Some e'" by (auto simp: holds_def)
  then show "holds t e'" using assms by (cases "i = s"; cases "i = h") (auto simp: holds_def)
next
  assume "holds t e'"
  then obtain i where i: "i < n" "t i = Some e'" by (auto simp: holds_def)
  have "h \<noteq> s" using assms(3,4) by auto
  show "holds (t(h := Some e, s := None)) e'"
  proof (cases "i = s")
    case True
    then have "(t(h := Some e, s := None)) h = Some e'" using i assms(3) \<open>h \<noteq> s\<close> by simp
    then show ?thesis using assms(2) unfolding holds_def by blast
  next
    case False
    then have "(t(h := Some e, s := None)) i = Some e'" using i assms(4) by auto
    then show ?thesis using i(1) unfolding holds_def by blast
  qed
qed

lemma shift_loop_correct:
  assumes "shifting h0 p h w t" and "f + (dist h0 h + w) = n"
    and "f \<noteq> 0 \<longrightarrow> s < n \<and> dist h s = w" and "shift_loop f h s t = (t', h')"
  shows "table_ok t' \<and> h' < n \<and> t' h' = None \<and> (\<forall>e. holds t' e \<longleftrightarrow> holds t e)"
  using assms
proof (induction f arbitrary: h w s t)
  case 0
  then show ?case
    using shifting_exhausted [OF "0.prems"(1)] shifting_basic [OF "0.prems"(1)]
    by (auto simp: table_ok_def)
next
  case (Suc f)
  note b = shifting_basic [OF Suc.prems(1)]
  have s: "s < n" "dist h s = w" and lt: "dist h0 h + w < n" using Suc.prems(2,3) by auto
  show ?case
  proof (cases "t s")
    case None
    then have "reachable t" by (rule shifting_stop [OF Suc.prems(1) s])
    then show ?thesis using Suc.prems(4) None b by (auto simp: table_ok_def)
  next
    case (Some e)
    have nxt: "nxt s < n" by (rule nxt_less [OF s(1)])
    show ?thesis
    proof (cases "dist (home (key e)) h < dist (home (key e)) s")
      case True
      let ?t = "t(h := Some e, s := None)"
      have sh: "shifting h0 p s 1 ?t" by (rule shifting_move [OF Suc.prems(1) s Some True lt])
      have h0s: "dist h0 s = dist h0 h + dist h s"
        using dist_extend [OF b(1,3) s(1)] s(2) lt by simp
      have "f + (dist h0 s + 1) = n" using Suc.prems(2) h0s s(2) by simp
      moreover have "f \<noteq> 0 \<longrightarrow> nxt s < n \<and> dist s (nxt s) = 1"
        using dist_nxt [OF s(1) s(1)] nxt Suc.prems(2) lt h0s s(2) by auto
      moreover have "shift_loop f s (nxt s) ?t = (t', h')" using Suc.prems(4) Some True by simp
      ultimately have "table_ok t' \<and> h' < n \<and> t' h' = None \<and> (\<forall>e. holds t' e \<longleftrightarrow> holds ?t e)"
        by (rule Suc.IH [OF sh])
      then show ?thesis using holds_move [of s h t e, OF s(1) b(3) Some b(4)] by blast
    next
      case False
      have sh: "shifting h0 p h (w + 1) t" by (rule shifting_keep [OF Suc.prems(1) s Some False lt])
      have "f \<noteq> 0 \<longrightarrow> nxt s < n \<and> dist h (nxt s) = w + 1"
        using dist_nxt [OF b(3) s(1)] nxt Suc.prems(2) s(2) by auto
      then show ?thesis
        using Suc.prems(2,4) Some False by (intro Suc.IH [OF sh]) auto
    qed
  qed
qed

lemma holds_remove:
  assumes "unique t" and "h0 < n" and "t h0 = Some e0"
  shows "holds (t(h0 := None)) e \<longleftrightarrow> holds t e \<and> e \<noteq> e0"
proof
  assume "holds (t(h0 := None)) e"
  then obtain i where i: "i < n" "i \<noteq> h0" "t i = Some e" by (auto simp: holds_def split: if_splits)
  moreover have "e \<noteq> e0" using uniqueD [OF assms(1) i(1) assms(2) i(3) assms(3)] i(2) by auto
  ultimately show "holds t e \<and> e \<noteq> e0" by (auto simp: holds_def)
next
  assume "holds t e \<and> e \<noteq> e0"
  then obtain i where "i < n" "t i = Some e" "e \<noteq> e0" by (auto simp: holds_def)
  then have "(t(h0 := None)) i = Some e" using assms(3) by auto
  then show "holds (t(h0 := None)) e" using \<open>i < n\<close> unfolding holds_def by blast
qed

text \<open>Deletion at \<open>h0\<close>: the loop over the other positions restores the invariant.\<close>

lemma delete_ok:
  assumes "table_ok t" and "h0 < n" and "t h0 = Some e0"
    and "shift_loop (n - 1) h0 (nxt h0) (t(h0 := None)) = (t', h')"
  shows "table_ok t' \<and> h' < n \<and> t' h' = None \<and> (\<forall>e. holds t' e \<longleftrightarrow> holds t e \<and> e \<noteq> e0)"
proof -
  obtain p where sh: "shifting h0 p h0 1 (t(h0 := None))"
    using shifting_start [OF assms(1-3)] .
  have "n - 1 \<noteq> 0 \<longrightarrow> nxt h0 < n \<and> dist h0 (nxt h0) = 1"
    using dist_nxt [OF assms(2,2)] nxt_less [OF assms(2)] by auto
  then have "table_ok t' \<and> h' < n \<and> t' h' = None \<and> (\<forall>e. holds t' e \<longleftrightarrow> holds (t(h0 := None)) e)"
    using n_pos assms(4) by (intro shift_loop_correct [OF sh]) auto
  then show ?thesis using holds_remove assms(1-3) unfolding table_ok_def by blast
qed

section \<open>Deletion by reinsertion\<close>

text \<open>
  The other way to repair a table after a deletion: take every entry that follows out of
  the table and insert it again.  Each round has the effect of one round of the shifting
  loop, and a last round over a table that is in order changes nothing.
\<close>

definition put_entry :: "(nat \<Rightarrow> 'e option) \<Rightarrow> 'e \<Rightarrow> nat \<Rightarrow> 'e option" where
  "put_entry t e = (case probe t (key e) n (home (key e)) of Vacant j \<Rightarrow> t(j := Some e) | _ \<Rightarrow> t)"

fun reinsert_loop :: "nat \<Rightarrow> nat \<Rightarrow> (nat \<Rightarrow> 'e option) \<Rightarrow> nat \<Rightarrow> 'e option" where
  "reinsert_loop 0 i t = t"
| "reinsert_loop (Suc f) i t =
     (case t (nxt i) of None \<Rightarrow> t
      | Some e \<Rightarrow> reinsert_loop f (nxt i) (put_entry (t(nxt i := None)) e))"

lemma probe_Vacant:
  assumes "v < n" and "t v = None" and "\<And>i e. i < n \<Longrightarrow> t i = Some e \<Longrightarrow> key e \<noteq> k"
    and "\<And>q. q < n \<Longrightarrow> dist (home k) q < dist (home k) v \<Longrightarrow> t q \<noteq> None"
  shows "probe t k n (home k) = Vacant v"
proof (cases "probe t k n (home k)")
  case (Found j)
  then show ?thesis using probe_home [of t k] assms(3) by auto
next
  case (Vacant j)
  then have j: "j < n" "t j = None" "\<not> dist (home k) v < dist (home k) j"
    using probe_home [of t k] assms(1,2) by fastforce+
  then have "dist (home k) j = dist (home k) v" using assms(4) [of j] by fastforce
  then show ?thesis using Vacant dist_inj [OF home_less j(1) assms(1)] by simp
next
  case Exhausted_Table
  then show ?thesis using probe_home [of t k] assms(1,2) by auto
qed

lemma put_back:
  assumes "unique t" and "s < n" and "t s = Some e" and "v < n" and "(t(s := None)) v = None"
    and "\<And>q. q < n \<Longrightarrow> dist (home (key e)) q < dist (home (key e)) v \<Longrightarrow> (t(s := None)) q \<noteq> None"
  shows "put_entry (t(s := None)) e = t(s := None, v := Some e)"
proof -
  have "key e' \<noteq> key e" if "i < n" "(t(s := None)) i = Some e'" for i e'
    using uniqueD [OF assms(1), of i s e' e] that assms(2,3) by (auto split: if_splits)
  then have "probe (t(s := None)) (key e) n (home (key e)) = Vacant v"
    using assms(4-6) by (intro probe_Vacant)
  then show ?thesis by (simp add: put_entry_def)
qed

lemma put_back_ordered:
  assumes "unique t" "reachable t" "s < n" "t s = Some e"
  shows "put_entry (t(s := None)) e = t"
proof -
  have "(t(s := None)) q \<noteq> None" if "q < n" "dist (home (key e)) q < dist (home (key e)) s" for q
    using reachableD [OF assms(2-4) that] that(2) by auto
  then have "put_entry (t(s := None)) e = t(s := None, s := Some e)"
    using assms by (intro put_back) auto
  then show ?thesis using assms(4) by (simp add: fun_upd_idem)
qed

lemma put_back_shifting:
  assumes "shifting h0 p h w t" and "s < n" and "t s = Some e"
  shows "put_entry (t(s := None)) e =
    (if dist (home (key e)) h < dist (home (key e)) s then t(h := Some e, s := None) else t)"
proof -
  note b = shifting_basic [OF assms(1)]
  have hs: "h \<noteq> s" using b(4) assms(3) by auto
  have path: "t q \<noteq> None" if "q < n" "dist (home (key e)) q < dist (home (key e)) s" "q \<noteq> h" for q
    using shiftingD(1) [OF assms that(1,2)] that(3) by blast
  show ?thesis
  proof (cases "dist (home (key e)) h < dist (home (key e)) s")
    case True
    have "(t(s := None)) q \<noteq> None" if "q < n" "dist (home (key e)) q < dist (home (key e)) h" for q
      using path [of q] that True by auto
    then have "put_entry (t(s := None)) e = t(s := None, h := Some e)"
      using assms b hs by (intro put_back) auto
    then show ?thesis using True hs by (simp add: fun_upd_twist)
  next
    case False
    have "(t(s := None)) q \<noteq> None" if "q < n" "dist (home (key e)) q < dist (home (key e)) s" for q
      using path [of q] that False by auto
    then have "put_entry (t(s := None)) e = t(s := None, s := Some e)"
      using assms b by (intro put_back) auto
    then show ?thesis using False assms(3) by (simp add: fun_upd_idem)
  qed
qed

lemma reinsert_ordered:
  assumes "unique t" "reachable t" "i < n"
  shows "reinsert_loop 1 i t = t"
  using put_back_ordered [OF assms(1,2) nxt_less [OF assms(3)]] by (auto split: option.splits)

lemma reinsert_correct:
  assumes "shifting h0 p h w t" and "f + (dist h0 h + w) = n" and "i < n"
    and "f \<noteq> 0 \<longrightarrow> dist h (nxt i) = w" and "reinsert_loop (Suc f) i t = t'"
  shows "table_ok t' \<and> (\<forall>e. holds t' e \<longleftrightarrow> holds t e)"
  using assms
proof (induction f arbitrary: h w i t)
  case 0
  note b = shifting_basic [OF "0.prems"(1)]
  have "reachable t" using shifting_exhausted [OF "0.prems"(1)] "0.prems"(2) by simp
  then have "t' = t" using reinsert_ordered [OF b(5)] "0.prems"(3,5) by simp
  then show ?case using \<open>reachable t\<close> b by (auto simp: table_ok_def)
next
  case (Suc f)
  note b = shifting_basic [OF Suc.prems(1)]
  define s where "s = nxt i"
  have s: "s < n" "dist h s = w" and lt: "dist h0 h + w < n"
    using Suc.prems nxt_less by (auto simp: s_def)
  show ?case
  proof (cases "t s")
    case None
    then have "reachable t" by (rule shifting_stop [OF Suc.prems(1) s])
    then show ?thesis using Suc.prems(5) None b by (auto simp: table_ok_def s_def)
  next
    case (Some e)
    note put = put_back_shifting [OF Suc.prems(1) s(1) Some]
    have loop: "reinsert_loop (Suc f) s (put_entry (t(s := None)) e) = t'"
      using Suc.prems(5) Some by (simp add: s_def)
    show ?thesis
    proof (cases "dist (home (key e)) h < dist (home (key e)) s")
      case True
      let ?t = "t(h := Some e, s := None)"
      have sh: "shifting h0 p s 1 ?t" by (rule shifting_move [OF Suc.prems(1) s Some True lt])
      have h0s: "dist h0 s = dist h0 h + dist h s"
        using dist_extend [OF b(1,3) s(1)] s(2) lt by simp
      have "f + (dist h0 s + 1) = n" using Suc.prems(2) h0s s(2) by simp
      moreover have "f \<noteq> 0 \<longrightarrow> dist s (nxt s) = 1"
        using dist_nxt [OF s(1) s(1)] Suc.prems(2) lt h0s s(2) by auto
      moreover have "reinsert_loop (Suc f) s ?t = t'"
        using loop unfolding put using True by (simp only: if_True)
      ultimately have "table_ok t' \<and> (\<forall>e. holds t' e \<longleftrightarrow> holds ?t e)"
        using s(1) by (intro Suc.IH [OF sh])
      then show ?thesis using holds_move [of s h t e, OF s(1) b(3) Some b(4)] by blast
    next
      case False
      have sh: "shifting h0 p h (w + 1) t" by (rule shifting_keep [OF Suc.prems(1) s Some False lt])
      have "f \<noteq> 0 \<longrightarrow> dist h (nxt s) = w + 1"
        using dist_nxt [OF b(3) s(1)] Suc.prems(2) s(2) by auto
      moreover have "f + (dist h0 h + (w + 1)) = n" using Suc.prems(2) by simp
      moreover have "reinsert_loop (Suc f) s t = t'"
        using loop unfolding put using False by (simp only: if_False)
      ultimately show ?thesis using s(1) by (intro Suc.IH [OF sh])
    qed
  qed
qed

lemma delete_by_reinsertion:
  assumes "table_ok t" and "h0 < n" and "t h0 = Some e0" and "reinsert_loop n h0 (t(h0 := None)) = t'"
  shows "table_ok t' \<and> (\<forall>e. holds t' e \<longleftrightarrow> holds t e \<and> e \<noteq> e0)"
proof -
  obtain p where sh: "shifting h0 p h0 1 (t(h0 := None))"
    using shifting_start [OF assms(1-3)] .
  obtain m where m: "n = Suc m" using n_pos by (cases n) auto
  have "m \<noteq> 0 \<longrightarrow> dist h0 (nxt h0) = 1"
  proof
    assume "m \<noteq> 0"
    then have "dist h0 h0 + 1 < n" using m unfolding dist_self by simp
    then show "dist h0 (nxt h0) = 1" using dist_nxt [OF assms(2,2)] by simp
  qed
  moreover have "m + (dist h0 h0 + 1) = n" unfolding dist_self using m by simp
  moreover have "reinsert_loop (Suc m) h0 (t(h0 := None)) = t'" using assms(4) unfolding m .
  ultimately have "table_ok t' \<and> (\<forall>e. holds t' e \<longleftrightarrow> holds (t(h0 := None)) e)"
    using assms(2) by (intro reinsert_correct [OF sh])
  then show ?thesis using holds_remove assms(1-3) unfolding table_ok_def by blast
qed

section \<open>The map a table represents\<close>

definition lookup_entry :: "(nat \<Rightarrow> 'e option) \<Rightarrow> 'k \<rightharpoonup> 'e" where
  "lookup_entry t k = (case probe t k n (home k) of Found j \<Rightarrow> t j | _ \<Rightarrow> None)"

lemma lookup_iff:
  assumes "table_ok t"
  shows "lookup_entry t k = Some e \<longleftrightarrow> holds t e \<and> key e = k"
proof -
  have found: "probe t k n (home k) = Found i \<longleftrightarrow> i < n \<and> (\<exists>e. t i = Some e \<and> key e = k)" for i
    using assms probe_Found_iff by (simp add: table_ok_def)
  show ?thesis
  proof
    assume "lookup_entry t k = Some e"
    then obtain i where "probe t k n (home k) = Found i" "t i = Some e"
      by (auto simp: lookup_entry_def split: probe_result.splits)
    then show "holds t e \<and> key e = k" using found by (auto simp: holds_def)
  next
    assume "holds t e \<and> key e = k"
    then obtain i where "i < n" "t i = Some e" "key e = k" by (auto simp: holds_def)
    then have "probe t k n (home k) = Found i" using found by blast
    then show "lookup_entry t k = Some e" using \<open>t i = Some e\<close> by (simp add: lookup_entry_def)
  qed
qed

lemma lookup_None: "table_ok t \<Longrightarrow> lookup_entry t k = None \<longleftrightarrow> (\<forall>e. holds t e \<longrightarrow> key e \<noteq> k)"
  using lookup_iff [of t k] by (metis not_None_eq)

lemma lookup_eqI:
  assumes "table_ok t" and "\<And>k e. m k = Some e \<longleftrightarrow> holds t e \<and> key e = k"
  shows "lookup_entry t = m"
proof
  fix k show "lookup_entry t k = m k"
    using lookup_iff [OF assms(1), of k] assms(2) [of k] by (metis not_None_eq)
qed

lemma card_lookup:
  assumes "table_ok t"
  shows "card (dom (lookup_entry t)) = card {i. i < n \<and> t i \<noteq> None}"
proof -
  have "dom (lookup_entry t) = (\<lambda>i. key (the (t i))) ` {i. i < n \<and> t i \<noteq> None}"
    using lookup_iff [OF assms] by (fastforce simp: dom_def holds_def image_iff)
  moreover have "inj_on (\<lambda>i. key (the (t i))) {i. i < n \<and> t i \<noteq> None}"
    using assms unfolding table_ok_def by (auto simp: inj_on_def intro: uniqueD)
  ultimately show ?thesis by (simp add: card_image)
qed

lemma probe_cases:
  assumes "table_ok t"
  obtains (found) j where "probe t k n (home k) = Found j" "k \<in> dom (lookup_entry t)"
  | (vacant) j where "probe t k n (home k) = Vacant j" "j < n" "t j = None" "k \<notin> dom (lookup_entry t)"
      "card (dom (lookup_entry t)) < n"
  | (full) "probe t k n (home k) = Exhausted_Table" "k \<notin> dom (lookup_entry t)"
      "card (dom (lookup_entry t)) = n"
proof (cases "probe t k n (home k)")
  case (Found j)
  then have "lookup_entry t k \<noteq> None" using probe_home [of t k] by (auto simp: lookup_entry_def)
  then show thesis using found Found by blast
next
  case (Vacant j)
  then have j: "j < n" "t j = None" using probe_home [of t k] by auto
  have "{i. i < n \<and> t i \<noteq> None} \<subseteq> {..<n}" by blast
  moreover have "j \<in> {..<n}" "j \<notin> {i. i < n \<and> t i \<noteq> None}" using j by simp_all
  ultimately have "{i. i < n \<and> t i \<noteq> None} \<subset> {..<n}" by blast
  then have "card {i. i < n \<and> t i \<noteq> None} < card {..<n}" by (rule psubset_card_mono [rotated]) simp
  then have "card (dom (lookup_entry t)) < n" unfolding card_lookup [OF assms] by simp
  moreover have "k \<notin> dom (lookup_entry t)" using Vacant by (simp add: lookup_entry_def domIff)
  ultimately show thesis using vacant Vacant j by blast
next
  case Exhausted_Table
  then have "\<forall>q < n. t q \<noteq> None" using probe_home [of t k] by auto
  then have "{i. i < n \<and> t i \<noteq> None} = {..<n}" by auto
  then have "card (dom (lookup_entry t)) = n" unfolding card_lookup [OF assms] by simp
  moreover have "k \<notin> dom (lookup_entry t)" using Exhausted_Table by (simp add: lookup_entry_def domIff)
  ultimately show thesis using full Exhausted_Table by blast
qed

lemma lookup_put:
  assumes "table_ok t" and "probe t (key e) n (home (key e)) = Vacant j"
  shows "table_ok (t(j := Some e))" "lookup_entry (t(j := Some e)) = (lookup_entry t)(key e \<mapsto> e)"
proof -
  note ins = insert_ok [OF assms]
  show "table_ok (t(j := Some e))" by (rule ins(1))
  show "lookup_entry (t(j := Some e)) = (lookup_entry t)(key e \<mapsto> e)"
  proof (rule lookup_eqI [OF ins(1)])
    fix k e'
    have "holds t e' \<Longrightarrow> key e' \<noteq> key e"
      using probe_Vacant_absent [OF _ assms(2)] assms(1) by (simp add: table_ok_def)
    then show "((lookup_entry t)(key e \<mapsto> e)) k = Some e' \<longleftrightarrow> holds (t(j := Some e)) e' \<and> key e' = k"
      using lookup_iff [OF assms(1), of k e'] ins(2) [of e'] by (auto split: if_splits)
  qed
qed

lemma lookup_reinsertion:
  assumes "table_ok t" and "h0 < n" and "t h0 = Some e0"
  shows "table_ok (reinsert_loop n h0 (t(h0 := None)))"
    "lookup_entry (reinsert_loop n h0 (t(h0 := None))) = (lookup_entry t)(key e0 := None)"
proof -
  note del = delete_by_reinsertion [OF assms refl]
  show "table_ok (reinsert_loop n h0 (t(h0 := None)))" using del by blast
  show "lookup_entry (reinsert_loop n h0 (t(h0 := None))) = (lookup_entry t)(key e0 := None)"
  proof (rule lookup_eqI)
    fix k e
    have "holds t e \<Longrightarrow> key e = key e0 \<Longrightarrow> e = e0"
      using assms uniqueD unfolding table_ok_def holds_def by (metis option.inject)
    then show "((lookup_entry t)(key e0 := None)) k = Some e \<longleftrightarrow>
        holds (reinsert_loop n h0 (t(h0 := None))) e \<and> key e = k"
      using del lookup_iff [OF assms(1), of k e] by (auto split: if_splits)
  qed (use del in blast)
qed

lemma lookup_empty: "lookup_entry (\<lambda>_. None) = Map.empty"
  by (rule lookup_eqI [OF table_ok_empty]) (simp add: holds_def)

end

end
