(* ===== verification/Core_Qpn.thy ===== *)
theory Core_Qpn
  imports Core_Qp Contracts Probe_Table
begin

text \<open>
  The QPN lookup table of \<open>rocev2-core/src/qpn.rs\<close>: open addressing with
  linear probing and backward-shift deletion.  The const generic \<open>N\<close> is the
  length of the entry list.  The table implements the bounded map contract for
  every capacity, a completely full table included.
\<close>

section \<open>Model\<close>

definition EMPTY_QPN :: u32 where
  "EMPTY_QPN = - 1"

record QpnEntry =
  entry_qpn :: u32
  entry_slot :: u32

definition QPN_ENTRY_EMPTY :: QpnEntry where
  "QPN_ENTRY_EMPTY = \<lparr>entry_qpn = EMPTY_QPN, entry_slot = 0\<rparr>"

definition qpn_entry_is_empty :: "QpnEntry \<Rightarrow> bool" where
  "qpn_entry_is_empty e = (entry_qpn e = EMPTY_QPN)"

datatype QpnInsertError = InvalidQpn u32 | DuplicateQpn u32 | QpnFull

record QpnTable =
  qpn_entries :: "QpnEntry list"
  qpn_len :: usize

definition qpn_new :: "nat \<Rightarrow> QpnTable" where
  "qpn_new n = \<lparr>qpn_entries = replicate n QPN_ENTRY_EMPTY, qpn_len = 0\<rparr>"

definition qpn_capacity :: "QpnTable \<Rightarrow> usize" where
  "qpn_capacity t = length (qpn_entries t)"

definition is_power_of_two :: "usize \<Rightarrow> bool" where
  "is_power_of_two n = (n \<noteq> 0 \<and> n AND (n - 1) = 0)"

definition supports_entries :: "usize \<Rightarrow> usize \<Rightarrow> bool" where
  "supports_entries n maximum_entries =
     (maximum_entries = 0 \<or> (is_power_of_two n \<and> maximum_entries \<le> n div 2))"

definition mix_qpn :: "u32 \<Rightarrow> u32" where
  "mix_qpn value0 =
     (let value1 = value0 XOR drop_bit 16 value0;
          value2 = value1 * 0x7feb352d;
          value3 = value2 XOR drop_bit 15 value2;
          value4 = value3 * 0x846ca68b
      in value4 XOR drop_bit 16 value4)"

definition bucket :: "usize \<Rightarrow> u32 \<Rightarrow> usize" where
  "bucket n qpn =
     (let hash = unat (mix_qpn qpn)
      in if is_power_of_two n then hash AND (n - 1) else hash mod n)"

definition next_index :: "usize \<Rightarrow> usize \<Rightarrow> usize" where
  "next_index n index = (if index + 1 = n then 0 else index + 1)"

definition probe_distance :: "usize \<Rightarrow> usize \<Rightarrow> usize \<Rightarrow> usize" where
  "probe_distance n home index = (if index \<ge> home then index - home else n - home + index)"

fun find_index_loop :: "nat \<Rightarrow> usize \<Rightarrow> QpnEntry list \<Rightarrow> u32 \<Rightarrow> usize option" where
  "find_index_loop 0 index es qpn = None"
| "find_index_loop (Suc f) index es qpn =
     (let entry = es ! index
      in if qpn_entry_is_empty entry then None
         else if entry_qpn entry = qpn then Some index
         else find_index_loop f (next_index (length es) index) es qpn)"

definition find_index :: "QpnTable \<Rightarrow> u32 \<Rightarrow> usize option" where
  "find_index t qpn =
     (if qpn > MAX_QPN \<or> qpn_capacity t = 0 then None
      else find_index_loop (qpn_capacity t) (bucket (qpn_capacity t) qpn) (qpn_entries t) qpn)"

definition qpn_get :: "QpnTable \<Rightarrow> u32 \<Rightarrow> u32 option" where
  "qpn_get t qpn = map_option (\<lambda>index. entry_slot (qpn_entries t ! index)) (find_index t qpn)"

fun insert_loop ::
  "nat \<Rightarrow> usize \<Rightarrow> QpnTable \<Rightarrow> u32 \<Rightarrow> u32 \<Rightarrow> QpnTable \<times> (QpnInsertError + unit)" where
  "insert_loop 0 index t qpn slot = (t, Inl QpnFull)"
| "insert_loop (Suc f) index t qpn slot =
     (let entry = qpn_entries t ! index
      in if qpn_entry_is_empty entry
         then (t\<lparr>qpn_entries := (qpn_entries t)[index := \<lparr>entry_qpn = qpn, entry_slot = slot\<rparr>],
                 qpn_len := qpn_len t + 1\<rparr>, Inr ())
         else if entry_qpn entry = qpn then (t, Inl (DuplicateQpn qpn))
         else insert_loop f (next_index (qpn_capacity t) index) t qpn slot)"

definition qpn_insert :: "QpnTable \<Rightarrow> u32 \<Rightarrow> u32 \<Rightarrow> QpnTable \<times> (QpnInsertError + unit)" where
  "qpn_insert t qpn slot =
     (if qpn > MAX_QPN then (t, Inl (InvalidQpn qpn))
      else if qpn_capacity t = 0 then (t, Inl QpnFull)
      else insert_loop (qpn_capacity t) (bucket (qpn_capacity t) qpn) t qpn slot)"

fun qpn_shift_loop :: "nat \<Rightarrow> usize \<Rightarrow> usize \<Rightarrow> QpnEntry list \<Rightarrow> QpnEntry list \<times> usize" where
  "qpn_shift_loop 0 hole scan es = (es, hole)"
| "qpn_shift_loop (Suc f) hole scan es =
     (let entry = es ! scan; n = length es
      in if qpn_entry_is_empty entry then (es, hole)
         else let home_index = bucket n (entry_qpn entry)
              in if probe_distance n home_index hole < probe_distance n home_index scan
                 then qpn_shift_loop f scan (next_index n scan) (es[hole := entry])
                 else qpn_shift_loop f hole (next_index n scan) es)"

definition qpn_remove :: "QpnTable \<Rightarrow> u32 \<Rightarrow> QpnTable \<times> u32 option" where
  "qpn_remove t qpn =
     (case find_index t qpn of
        None \<Rightarrow> (t, None)
      | Some hole0 \<Rightarrow>
          let removed_slot = entry_slot (qpn_entries t ! hole0);
              n = qpn_capacity t;
              (es, hole) = qpn_shift_loop (n - 1) hole0 (next_index n hole0) (qpn_entries t)
          in (t\<lparr>qpn_entries := es[hole := QPN_ENTRY_EMPTY], qpn_len := qpn_len t - 1\<rparr>,
              Some removed_slot))"

definition qpn_clear :: "QpnTable \<Rightarrow> QpnTable" where
  "qpn_clear t =
     t\<lparr>qpn_entries := replicate (qpn_capacity t) QPN_ENTRY_EMPTY, qpn_len := 0\<rparr>"

section \<open>Refinement of the bounded map\<close>

lemma bucket_less: "0 < n \<Longrightarrow> bucket n q < n"
proof -
  assume n: "0 < n"
  have "h AND (n - 1) \<le> n - 1" for h :: nat
    by (metis and.commute and_nat_def AND_upper1 nat_int nat_le_iff of_nat_0_le_iff and_int_unfold)
  then have "unat (mix_qpn q) AND (n - 1) < n" using n by (metis Suc_pred' le_imp_less_Suc)
  then show ?thesis using n by (simp add: bucket_def Let_def)
qed

definition view :: "QpnEntry list \<Rightarrow> nat \<Rightarrow> QpnEntry option" where
  "view es i = (if qpn_entry_is_empty (es ! i) then None else Some (es ! i))"

interpretation qpn_probe: probing "Suc m" "bucket (Suc m)" entry_qpn for m
  by unfold_locales (simp add: bucket_less)

lemma qpn_probe_steps:
  "qpn_probe.nxt m = next_index (Suc m)" "qpn_probe.dist m = probe_distance (Suc m)"
  by (auto simp: qpn_probe.nxt_def next_index_def qpn_probe.dist_def probe_distance_def fun_eq_iff)

lemma probe_distance_self [simp]: "probe_distance n h h = 0"
  by (simp add: probe_distance_def)

lemma find_index_loop_probe:
  "length es = Suc m \<Longrightarrow>
   find_index_loop f i es q = (case qpn_probe.probe m (view es) q f i of Found j \<Rightarrow> Some j | _ \<Rightarrow> None)"
  by (induction f arbitrary: i) (auto simp: view_def qpn_probe_steps Let_def)

lemma insert_loop_probe:
  "qpn_capacity t = Suc m \<Longrightarrow>
   insert_loop f i t q v = (case qpn_probe.probe m (view (qpn_entries t)) q f i of
      Found j \<Rightarrow> (t, Inl (DuplicateQpn q))
    | Vacant j \<Rightarrow> (t\<lparr>qpn_entries := (qpn_entries t)[j := \<lparr>entry_qpn = q, entry_slot = v\<rparr>],
                      qpn_len := qpn_len t + 1\<rparr>, Inr ())
    | Exhausted_Table \<Rightarrow> (t, Inl QpnFull))"
  by (induction f arbitrary: i) (auto simp: view_def qpn_probe_steps Let_def)

lemma view_update:
  "i < length es \<Longrightarrow> \<not> qpn_entry_is_empty e \<Longrightarrow> view (es[i := e]) = (view es)(i := Some e)"
  "i < length es \<Longrightarrow> qpn_entry_is_empty e \<Longrightarrow> view (es[i := e]) = (view es)(i := None)"
  by (auto simp: view_def fun_eq_iff nth_list_update)

text \<open>The shifting loop leaves the old entry in the hole until the end; it never reads it.\<close>

lemma qpn_shift_loop_sim:
  assumes "length es = Suc m" and "h < Suc m"
    and "f \<noteq> 0 \<longrightarrow> s < Suc m \<and> 0 < probe_distance (Suc m) h s \<and> probe_distance (Suc m) h s + f \<le> Suc m"
    and "qpn_shift_loop f h s es = (es', h')"
  shows "length es' = Suc m \<and> h' < Suc m \<and>
    qpn_probe.shift_loop m f h s ((view es)(h := None)) = ((view es')(h' := None), h')"
  using assms
proof (induction f arbitrary: h s es)
  case (Suc f)
  let ?d = "probe_distance (Suc m)"
  have s: "s < Suc m" "0 < ?d h s" "?d h s + Suc f \<le> Suc m" using Suc.prems(3) by auto
  then have hs: "s \<noteq> h" using qpn_probe.dist_self [of m h] by (auto simp: qpn_probe_steps)
  show ?case
  proof (cases "qpn_entry_is_empty (es ! s)")
    case True
    then show ?thesis using Suc.prems hs by (auto simp: view_def Let_def)
  next
    case False
    then have vs: "((view es)(h := None)) s = Some (es ! s)" using hs by (simp add: view_def)
    let ?k = "bucket (Suc m) (entry_qpn (es ! s))"
    show ?thesis
    proof (cases "?d ?k h < ?d ?k s")
      case True
      have upd: "((view es)(h := None))(h := Some (es ! s), s := None) = (view (es[h := es ! s]))(s := None)"
        using Suc.prems(1,2) False by (simp add: view_update)
      have "?d s (next_index (Suc m) s) = 1" if "f \<noteq> 0"
        using qpn_probe.dist_nxt [of s m s] s that by (simp add: qpn_probe_steps)
      then have step: "f \<noteq> 0 \<longrightarrow> next_index (Suc m) s < Suc m \<and> 0 < ?d s (next_index (Suc m) s) \<and>
          ?d s (next_index (Suc m) s) + f \<le> Suc m"
        using s qpn_probe.nxt_less [of s m] by (simp add: qpn_probe_steps)
      have "length (es[h := es ! s]) = Suc m" using Suc.prems(1) by simp
      moreover have "qpn_shift_loop f s (next_index (Suc m) s) (es[h := es ! s]) = (es', h')"
        using Suc.prems(1,4) True False by (simp add: Let_def)
      ultimately have "length es' = Suc m \<and> h' < Suc m \<and> qpn_probe.shift_loop m f s (next_index (Suc m) s)
          ((view (es[h := es ! s]))(s := None)) = ((view es')(h' := None), h')"
        using Suc.IH [OF _ s(1) step] by blast
      then show ?thesis
        using True unfolding qpn_probe.shift_loop.simps(2) vs option.case qpn_probe_steps upd
        by (simp add: fun_upd_def)
    next
      case keep: False
      have "?d h (next_index (Suc m) s) = ?d h s + 1" if "f \<noteq> 0"
        using qpn_probe.dist_nxt [of h m s] s that Suc.prems(2) by (simp add: qpn_probe_steps)
      then have step: "f \<noteq> 0 \<longrightarrow> next_index (Suc m) s < Suc m \<and> 0 < ?d h (next_index (Suc m) s) \<and>
          ?d h (next_index (Suc m) s) + f \<le> Suc m"
        using s qpn_probe.nxt_less [of s m] by (simp add: qpn_probe_steps)
      have "qpn_shift_loop f h (next_index (Suc m) s) es = (es', h')"
        using Suc.prems(1,4) keep False by (simp add: Let_def)
      then have "length es' = Suc m \<and> h' < Suc m \<and> qpn_probe.shift_loop m f h (next_index (Suc m) s)
          ((view es)(h := None)) = ((view es')(h' := None), h')"
        using Suc.IH [OF Suc.prems(1,2) step] by blast
      then show ?thesis
        using keep unfolding qpn_probe.shift_loop.simps(2) vs option.case qpn_probe_steps
        by (simp add: fun_upd_def)
    qed
  qed
qed simp

definition qpn_inv :: "QpnTable \<Rightarrow> bool" where
  "qpn_inv t \<longleftrightarrow>
     (\<forall>m. qpn_capacity t = Suc m \<longrightarrow> qpn_probe.table_ok m (view (qpn_entries t))) \<and>
     (\<forall>e \<in> set (qpn_entries t). qpn_entry_is_empty e \<or> entry_qpn e \<le> MAX_QPN) \<and>
     qpn_len t = length (filter (\<lambda>e. \<not> qpn_entry_is_empty e) (qpn_entries t))"

lemma qpn_not_empty: "q \<le> MAX_QPN \<Longrightarrow> q \<noteq> EMPTY_QPN"
  by (auto simp: MAX_QPN_def EMPTY_QPN_def word_le_nat_alt unsigned_minus_1_eq_mask mask_eq_exp_minus_1)

lemma holds_view:
  assumes "qpn_capacity t = Suc m"
  shows "qpn_probe.holds m (view (qpn_entries t)) e \<longleftrightarrow>
    e \<in> set (qpn_entries t) \<and> \<not> qpn_entry_is_empty e"
  using assms unfolding qpn_probe.holds_def view_def qpn_capacity_def
  by (metis in_set_conv_nth option.distinct(1) option.inject)

text \<open>Lookup returns exactly the entries stored.\<close>

lemma qpn_get_iff:
  assumes "qpn_inv t"
  shows "qpn_get t q = Some v \<longleftrightarrow>
    q \<le> MAX_QPN \<and> \<lparr>entry_qpn = q, entry_slot = v\<rparr> \<in> set (qpn_entries t)"
proof (cases "q > MAX_QPN \<or> qpn_capacity t = 0")
  case True
  then show ?thesis by (auto simp: qpn_get_def find_index_def qpn_capacity_def not_le)
next
  case False
  then obtain m where m: "qpn_capacity t = Suc m" by (cases "qpn_capacity t") auto
  let ?v = "view (qpn_entries t)"
  have ok: "qpn_probe.reachable m ?v" "qpn_probe.unique m ?v"
    using assms m by (auto simp: qpn_inv_def qpn_probe.table_ok_def)
  have fi: "find_index t q = Some i \<longleftrightarrow> i < Suc m \<and> (\<exists>e. ?v i = Some e \<and> entry_qpn e = q)" for i
  proof -
    have "find_index t q = (case qpn_probe.probe m ?v q (Suc m) (bucket (Suc m) q) of Found j \<Rightarrow> Some j | _ \<Rightarrow> None)"
      using False m find_index_loop_probe [of "qpn_entries t" m "Suc m"]
      by (simp add: find_index_def qpn_capacity_def)
    then show ?thesis
      using qpn_probe.probe_Found_iff [OF ok, of q i] by (auto split: probe_result.splits)
  qed
  have "qpn_get t q = Some v \<longleftrightarrow> (\<exists>i < Suc m. \<exists>e. ?v i = Some e \<and> entry_qpn e = q \<and> entry_slot e = v)"
    unfolding qpn_get_def using fi by (auto simp: view_def split: if_splits)
  also have "\<dots> \<longleftrightarrow> (\<exists>e. qpn_probe.holds m ?v e \<and> entry_qpn e = q \<and> entry_slot e = v)"
    unfolding qpn_probe.holds_def by blast
  also have "\<dots> \<longleftrightarrow> qpn_probe.holds m ?v \<lparr>entry_qpn = q, entry_slot = v\<rparr>"
  proof
    assume "\<exists>e. qpn_probe.holds m ?v e \<and> entry_qpn e = q \<and> entry_slot e = v"
    then obtain e where "qpn_probe.holds m ?v e" "entry_qpn e = q" "entry_slot e = v" by blast
    then show "qpn_probe.holds m ?v \<lparr>entry_qpn = q, entry_slot = v\<rparr>" by (cases e) simp
  qed (metis QpnEntry.select_convs(1,2))
  finally show ?thesis
    using False holds_view [OF m] qpn_not_empty by (auto simp: qpn_entry_is_empty_def)
qed

lemma qpn_dom:
  assumes "qpn_inv t"
  shows "dom (qpn_get t) = set (map entry_qpn (filter (\<lambda>e. \<not> qpn_entry_is_empty e) (qpn_entries t)))"
proof -
  have "q \<in> dom (qpn_get t) \<longleftrightarrow>
      (\<exists>e \<in> set (qpn_entries t). \<not> qpn_entry_is_empty e \<and> entry_qpn e = q)" for q
  proof
    assume "q \<in> dom (qpn_get t)"
    then obtain v where "q \<le> MAX_QPN" "\<lparr>entry_qpn = q, entry_slot = v\<rparr> \<in> set (qpn_entries t)"
      using qpn_get_iff [OF assms] by blast
    then show "\<exists>e \<in> set (qpn_entries t). \<not> qpn_entry_is_empty e \<and> entry_qpn e = q"
      using qpn_not_empty by (auto simp: qpn_entry_is_empty_def intro!: bexI)
  next
    assume "\<exists>e \<in> set (qpn_entries t). \<not> qpn_entry_is_empty e \<and> entry_qpn e = q"
    then obtain e where e: "e \<in> set (qpn_entries t)" "\<not> qpn_entry_is_empty e" "entry_qpn e = q" by blast
    then have "q \<le> MAX_QPN" using assms by (auto simp: qpn_inv_def)
    moreover have "\<lparr>entry_qpn = q, entry_slot = entry_slot e\<rparr> = e" using e(3) by (cases e) simp
    then have "\<lparr>entry_qpn = q, entry_slot = entry_slot e\<rparr> \<in> set (qpn_entries t)"
      using e(1) by simp
    ultimately show "q \<in> dom (qpn_get t)" using qpn_get_iff [OF assms, of q "entry_slot e"] by blast
  qed
  then show ?thesis by (intro set_eqI) (simp only: set_map set_filter image_iff, blast)
qed

lemma distinct_keys:
  assumes "length es = Suc m" and "qpn_probe.unique m (view es)"
  shows "distinct (map entry_qpn (filter (\<lambda>e. \<not> qpn_entry_is_empty e) es))"
proof (rule distinct_map_filterI)
  fix i j
  assume "i < length es" "j < length es" "\<not> qpn_entry_is_empty (es ! i)" "\<not> qpn_entry_is_empty (es ! j)"
    "entry_qpn (es ! i) = entry_qpn (es ! j)"
  with qpn_probe.uniqueD [OF assms(2), of i j] assms(1) show "i = j" by (simp add: view_def)
qed

lemma live_entries:
  assumes "length es = Suc m" and "qpn_probe.unique m (view es)"
  shows "length (filter (\<lambda>e. \<not> qpn_entry_is_empty e) es) = card {e. qpn_probe.holds m (view es) e}"
proof -
  have "set (filter (\<lambda>e. \<not> qpn_entry_is_empty e) es) = {e. qpn_probe.holds m (view es) e}"
    using holds_view [of "\<lparr>qpn_entries = es, qpn_len = 0\<rparr>" m] assms(1) by (auto simp: qpn_capacity_def)
  then show ?thesis
    using distinct_card [of "filter (\<lambda>e. \<not> qpn_entry_is_empty e) es"] distinct_keys [OF assms]
    by (simp add: distinct_map)
qed

lemma qpn_card:
  assumes "qpn_inv t"
  shows "card (dom (qpn_get t)) = qpn_len t"
proof -
  let ?P = "\<lambda>e. \<not> qpn_entry_is_empty e"
  have "distinct (map entry_qpn (filter ?P (qpn_entries t)))"
  proof (cases "qpn_entries t")
    case (Cons e es)
    then show ?thesis
      using assms by (intro distinct_keys [of _ "length es"])
        (auto simp: qpn_inv_def qpn_probe.table_ok_def qpn_capacity_def)
  qed simp
  from distinct_card [OF this] show ?thesis
    using assms unfolding qpn_dom [OF assms] by (simp add: qpn_inv_def)
qed

lemma qpn_get_holds:
  assumes "qpn_inv t" and "qpn_capacity t = Suc m"
  shows "qpn_get t q = Some v \<longleftrightarrow>
    q \<le> MAX_QPN \<and> qpn_probe.holds m (view (qpn_entries t)) \<lparr>entry_qpn = q, entry_slot = v\<rparr>"
  using qpn_get_iff [OF assms(1)] holds_view [OF assms(2)] qpn_not_empty
  by (auto simp: qpn_entry_is_empty_def)

section \<open>Insertion and removal\<close>

definition qpn_put :: "QpnTable \<Rightarrow> u32 \<Rightarrow> u32 \<Rightarrow> QpnTable option" where
  "qpn_put t q v = (case qpn_insert t q v of (t', Inr _) \<Rightarrow> Some t' | (t', Inl _) \<Rightarrow> None)"

lemma qpn_insert_cases:
  assumes "qpn_inv t" and "qpn_capacity t = Suc m" and "q \<le> MAX_QPN"
  obtains (dup) "qpn_insert t q v = (t, Inl (DuplicateQpn q))" "q \<in> dom (qpn_get t)"
  | (full) "qpn_insert t q v = (t, Inl QpnFull)" "q \<notin> dom (qpn_get t)" "qpn_len t = Suc m"
  | (ok) j where "qpn_probe.probe m (view (qpn_entries t)) q (Suc m) (bucket (Suc m) q) = Vacant j"
      "j < Suc m" "view (qpn_entries t) j = None" "q \<notin> dom (qpn_get t)"
      "qpn_insert t q v = (t\<lparr>qpn_entries := (qpn_entries t)[j := \<lparr>entry_qpn = q, entry_slot = v\<rparr>],
         qpn_len := qpn_len t + 1\<rparr>, Inr ())"
proof -
  let ?v = "view (qpn_entries t)" and ?p = "qpn_probe.probe m (view (qpn_entries t)) q (Suc m) (bucket (Suc m) q)"
  have ok: "qpn_probe.reachable m ?v" "qpn_probe.unique m ?v"
    using assms(1,2) by (auto simp: qpn_inv_def qpn_probe.table_ok_def)
  have ins: "qpn_insert t q v = insert_loop (Suc m) (bucket (Suc m) q) t q v"
    using assms(2) leD [OF assms(3)] by (simp add: qpn_insert_def del: insert_loop.simps)
  have dom: "q \<in> dom (qpn_get t) \<longleftrightarrow> (\<exists>e. qpn_probe.holds m ?v e \<and> entry_qpn e = q)"
    unfolding qpn_dom [OF assms(1)] by (auto simp: holds_view [OF assms(2)])
  show thesis
  proof (cases ?p)
    case (Found j)
    then have "q \<in> dom (qpn_get t)"
      using qpn_probe.probe_Found_iff [OF ok] unfolding dom qpn_probe.holds_def by blast
    then show thesis using dup Found unfolding ins insert_loop_probe [OF assms(2)] by simp
  next
    case (Vacant j)
    then have "q \<notin> dom (qpn_get t)"
      using qpn_probe.probe_Vacant_absent [OF ok(1) Vacant] unfolding dom by blast
    moreover have "j < Suc m" "?v j = None" using qpn_probe.probe_home [of m ?v q] Vacant by auto
    ultimately show thesis using ok Vacant that(3) unfolding ins insert_loop_probe [OF assms(2)] by simp
  next
    case Exhausted_Table
    then have all: "\<forall>i < Suc m. \<exists>e. ?v i = Some e \<and> entry_qpn e \<noteq> q"
      using qpn_probe.probe_home [of m ?v q] by simp
    then have "q \<notin> dom (qpn_get t)" unfolding dom qpn_probe.holds_def by fastforce
    moreover have "\<forall>e \<in> set (qpn_entries t). \<not> qpn_entry_is_empty e"
      using all assms(2) by (fastforce simp: view_def in_set_conv_nth qpn_capacity_def split: if_splits)
    then have "qpn_len t = Suc m" using assms(1,2) by (simp add: qpn_inv_def qpn_capacity_def filter_True)
    ultimately show thesis
      using full Exhausted_Table unfolding ins insert_loop_probe [OF assms(2)] by simp
  qed
qed

lemma qpn_map_eqI:
  assumes "\<And>k v. f k = Some v \<longleftrightarrow> g k = Some v"
  shows "f = g"
  using assms by (metis map_le_antisym map_le_def domIff not_None_eq)

lemma qpn_insert_ok:
  assumes "qpn_inv t" and "qpn_insert t q v = (t', Inr ())"
  shows "qpn_inv t' \<and> qpn_capacity t' = qpn_capacity t \<and> qpn_get t' = (qpn_get t)(q \<mapsto> v) \<and>
    q \<notin> dom (qpn_get t) \<and> q \<le> MAX_QPN \<and> qpn_len t < qpn_capacity t"
proof -
  have q: "q \<le> MAX_QPN" and "qpn_capacity t \<noteq> 0"
    using assms(2) by (auto simp: qpn_insert_def not_less split: if_splits)
  then obtain m where m: "qpn_capacity t = Suc m" by (cases "qpn_capacity t") auto
  let ?e = "\<lparr>entry_qpn = q, entry_slot = v\<rparr>" and ?v = "view (qpn_entries t)"
  from qpn_insert_cases [OF assms(1) m q, of v] assms(2) obtain j
    where j: "qpn_probe.probe m ?v q (Suc m) (bucket (Suc m) q) = Vacant j" "j < Suc m" "?v j = None"
      and fresh: "q \<notin> dom (qpn_get t)"
      and t': "t' = t\<lparr>qpn_entries := (qpn_entries t)[j := ?e], qpn_len := qpn_len t + 1\<rparr>"
    by (auto elim: qpn_insert_cases)
  have ne: "\<not> qpn_entry_is_empty ?e" using qpn_not_empty [OF q] by (simp add: qpn_entry_is_empty_def)
  have len: "length (qpn_entries t) = Suc m" using m by (simp add: qpn_capacity_def)
  have view: "view (qpn_entries t') = ?v(j := Some ?e)"
    using view_update(1) [of j "qpn_entries t" ?e] ne j(2) len by (simp add: t')
  have ok: "qpn_probe.table_ok m ?v" using assms(1) m by (simp add: qpn_inv_def)
  have ins: "qpn_probe.table_ok m (view (qpn_entries t'))"
    "\<And>e. qpn_probe.holds m (view (qpn_entries t')) e \<longleftrightarrow> e = ?e \<or> qpn_probe.holds m ?v e"
    using qpn_probe.insert_ok [of m ?v ?e j, OF ok] j(1) unfolding view by simp_all
  have m': "qpn_capacity t' = Suc m" using m by (simp add: t' qpn_capacity_def)
  have "qpn_entry_is_empty (qpn_entries t ! j)" using j(3) by (simp add: view_def split: if_splits)
  then have cnt: "length (filter (\<lambda>e. \<not> qpn_entry_is_empty e) (qpn_entries t')) = qpn_len t + 1"
    using length_filter_update [of j "qpn_entries t" "\<lambda>e. \<not> qpn_entry_is_empty e" ?e] ne j(2) len assms(1)
    by (simp add: t' qpn_inv_def)
  moreover have "e \<in> set (qpn_entries t') \<Longrightarrow> qpn_entry_is_empty e \<or> entry_qpn e \<le> MAX_QPN" for e
    using set_update_subset_insert [of "qpn_entries t" j ?e] assms(1) q by (auto simp: t' qpn_inv_def)
  ultimately have inv: "qpn_inv t'" using ins(1) m' by (simp add: qpn_inv_def t')
  have "qpn_get t' k = Some w \<longleftrightarrow> ((qpn_get t)(q \<mapsto> v)) k = Some w" for k w
    using qpn_get_holds [OF inv m', of k w] qpn_get_holds [OF assms(1) m, of k w] ins(2) fresh q
    by (auto split: if_splits)
  then have "qpn_get t' = (qpn_get t)(q \<mapsto> v)" by (rule qpn_map_eqI)
  moreover have "qpn_len t < qpn_capacity t"
    using cnt length_filter_le [of "\<lambda>e. \<not> qpn_entry_is_empty e" "qpn_entries t'"] m m'
    by (simp add: qpn_capacity_def)
  ultimately show ?thesis using inv m m' fresh q by simp
qed

lemma qpn_put_refines:
  assumes "qpn_inv t"
  shows "map_option qpn_get (qpn_put t q v) =
    spec_put (qpn_capacity t) (\<lambda>q. q \<le> MAX_QPN) (qpn_get t) q v"
proof (cases "snd (qpn_insert t q v)")
  case (Inr u)
  then obtain t' where t': "qpn_insert t q v = (t', Inr ())" by (cases "qpn_insert t q v") auto
  from qpn_insert_ok [OF assms t'] show ?thesis
    using qpn_card [OF assms] by (auto simp: qpn_put_def t' spec_put_def domIff)
next
  case (Inl e)
  then have none: "qpn_put t q v = None" by (cases "qpn_insert t q v") (simp add: qpn_put_def)
  have "\<not> (q \<le> MAX_QPN \<and> qpn_get t q = None \<and> qpn_len t < qpn_capacity t)"
  proof
    assume a: "q \<le> MAX_QPN \<and> qpn_get t q = None \<and> qpn_len t < qpn_capacity t"
    then obtain m where m: "qpn_capacity t = Suc m" by (cases "qpn_capacity t") auto
    from a have "q \<le> MAX_QPN" by simp
    from qpn_insert_cases [OF assms m this, of v] show False
      using a m Inl by cases (auto simp: domIff)
  qed
  then show ?thesis using none qpn_card [OF assms] by (auto simp: spec_put_def)
qed

definition qpn_del :: "QpnTable \<Rightarrow> u32 \<Rightarrow> QpnTable" where
  "qpn_del t q = fst (qpn_remove t q)"

lemma qpn_remove_none:
  assumes "find_index t q = None"
  shows "qpn_remove t q = (t, None)" and "qpn_get t q = None"
  using assms by (simp_all add: qpn_remove_def qpn_get_def)

lemma find_index_Some:
  assumes "qpn_inv t" and "find_index t q = Some i"
  obtains m e where "qpn_capacity t = Suc m" "i < Suc m" "view (qpn_entries t) i = Some e"
    "entry_qpn e = q" "qpn_get t q = Some (entry_slot e)"
proof -
  have c: "\<not> (q > MAX_QPN \<or> qpn_capacity t = 0)"
    using assms(2) by (auto simp: find_index_def split: if_splits)
  then obtain m where m: "qpn_capacity t = Suc m" by (cases "qpn_capacity t") auto
  let ?v = "view (qpn_entries t)"
  have ok: "qpn_probe.reachable m ?v" "qpn_probe.unique m ?v"
    using assms(1) m by (auto simp: qpn_inv_def qpn_probe.table_ok_def)
  have "qpn_probe.probe m ?v q (Suc m) (bucket (Suc m) q) = Found i"
    using assms(2) c m find_index_loop_probe [of "qpn_entries t" m "Suc m"]
    by (auto simp: find_index_def qpn_capacity_def split: probe_result.splits)
  then obtain e where e: "i < Suc m" "?v i = Some e" "entry_qpn e = q"
    using qpn_probe.probe_Found_iff [OF ok] by blast
  then have "qpn_get t q = Some (entry_slot e)"
    using assms(2) by (auto simp: qpn_get_def view_def split: if_splits)
  with that m e show thesis by blast
qed

lemma qpn_remove_ok:
  assumes "qpn_inv t"
  shows "qpn_inv (fst (qpn_remove t q)) \<and> qpn_capacity (fst (qpn_remove t q)) = qpn_capacity t \<and>
    qpn_get (fst (qpn_remove t q)) = (qpn_get t)(q := None) \<and> snd (qpn_remove t q) = qpn_get t q"
proof (cases "find_index t q")
  case None
  then show ?thesis using assms qpn_remove_none [OF None] by auto
next
  case (Some i)
  obtain m e0 where m: "qpn_capacity t = Suc m" and i: "i < Suc m"
    and e0: "view (qpn_entries t) i = Some e0" "entry_qpn e0 = q" and get: "qpn_get t q = Some (entry_slot e0)"
    using find_index_Some [OF assms Some] .
  let ?v = "view (qpn_entries t)"
  obtain es h where loop: "qpn_shift_loop m i (next_index (Suc m) i) (qpn_entries t) = (es, h)" by fastforce
  define t' where "t' = t\<lparr>qpn_entries := es[h := QPN_ENTRY_EMPTY], qpn_len := qpn_len t - 1\<rparr>"
  have rem: "qpn_remove t q = (t', Some (entry_slot (qpn_entries t ! i)))"
    using Some m loop by (simp add: qpn_remove_def t'_def)
  have start: "m \<noteq> 0 \<longrightarrow> next_index (Suc m) i < Suc m \<and> 0 < probe_distance (Suc m) i (next_index (Suc m) i) \<and>
      probe_distance (Suc m) i (next_index (Suc m) i) + m \<le> Suc m"
    using qpn_probe.dist_nxt [of i m i] qpn_probe.nxt_less [of i m] i by (auto simp: qpn_probe_steps)
  have len: "length (qpn_entries t) = Suc m" using m by (simp add: qpn_capacity_def)
  from qpn_shift_loop_sim [OF len i start loop]
  have es: "length es = Suc m" "h < Suc m"
    and sim: "qpn_probe.shift_loop m m i (next_index (Suc m) i) (?v(i := None)) = ((view es)(h := None), h)"
    by auto
  have view': "view (qpn_entries t') = (view es)(h := None)"
    using es by (simp add: t'_def view_update(2) QPN_ENTRY_EMPTY_def qpn_entry_is_empty_def)
  have ok: "qpn_probe.table_ok m ?v" using assms m by (simp add: qpn_inv_def)
  from qpn_probe.delete_ok [OF ok i e0(1)] sim
  have del: "qpn_probe.table_ok m (view (qpn_entries t'))"
    "\<And>e. qpn_probe.holds m (view (qpn_entries t')) e \<longleftrightarrow> qpn_probe.holds m ?v e \<and> e \<noteq> e0"
    unfolding view' by (simp_all add: qpn_probe_steps)
  have m': "qpn_capacity t' = Suc m" using es by (simp add: t'_def qpn_capacity_def)
  have uniq: "qpn_probe.unique m ?v" "qpn_probe.unique m (view (qpn_entries t'))"
    using ok del(1) by (simp_all add: qpn_probe.table_ok_def)
  have held: "qpn_probe.holds m ?v e0" using i e0(1) by (auto simp: qpn_probe.holds_def)
  have same: "e = e0" if "qpn_probe.holds m ?v e" "entry_qpn e = q" for e
    using that qpn_probe.uniqueD [OF uniq(1) _ i _ e0(1)] e0 by (auto simp: qpn_probe.holds_def)
  have "{e. qpn_probe.holds m (view (qpn_entries t')) e} = {e. qpn_probe.holds m ?v e} - {e0}"
    using del(2) by auto
  then have "length (filter (\<lambda>e. \<not> qpn_entry_is_empty e) (qpn_entries t')) = qpn_len t'"
    using live_entries [OF len uniq(1)] live_entries [OF _ uniq(2)] m' held assms
    by (simp add: qpn_capacity_def qpn_inv_def t'_def card_Diff_singleton)
  moreover have "e \<in> set (qpn_entries t') \<Longrightarrow> qpn_entry_is_empty e \<or> entry_qpn e \<le> MAX_QPN" for e
    using holds_view [OF m', of e] holds_view [OF m, of e] del(2) assms by (auto simp: qpn_inv_def)
  ultimately have inv: "qpn_inv t'" using del(1) m' by (simp add: qpn_inv_def)
  have "qpn_get t' k = Some w \<longleftrightarrow> ((qpn_get t)(q := None)) k = Some w" for k w
  proof (cases "k = q")
    case True
    then have "\<not> qpn_probe.holds m (view (qpn_entries t')) \<lparr>entry_qpn = k, entry_slot = w\<rparr>"
      using del(2) same [of "\<lparr>entry_qpn = k, entry_slot = w\<rparr>"] by simp
    then show ?thesis using True qpn_get_holds [OF inv m', of k w] by simp
  next
    case False
    then have "\<lparr>entry_qpn = k, entry_slot = w\<rparr> \<noteq> e0" using e0(2) by (metis QpnEntry.select_convs(1))
    then show ?thesis
      using False qpn_get_holds [OF inv m', of k w] qpn_get_holds [OF assms m, of k w]
        del(2) [of "\<lparr>entry_qpn = k, entry_slot = w\<rparr>"] by simp
  qed
  then have "qpn_get t' = (qpn_get t)(q := None)" by (rule qpn_map_eqI)
  moreover have "entry_slot (qpn_entries t ! i) = entry_slot e0"
    using e0(1) by (auto simp: view_def split: if_splits)
  ultimately show ?thesis using inv m m' rem get by simp
qed

lemma qpn_new_inv: "qpn_inv (qpn_new n)" "qpn_get (qpn_new n) = Map.empty"
proof -
  have e: "view (replicate n QPN_ENTRY_EMPTY) i = None" if "i < n" for i
    using that by (simp add: view_def QPN_ENTRY_EMPTY_def qpn_entry_is_empty_def)
  have "qpn_probe.table_ok m (view (replicate (Suc m) QPN_ENTRY_EMPTY))" if "n = Suc m" for m
    using e that unfolding qpn_probe.table_ok_def qpn_probe.reachable_def qpn_probe.unique_def qpn_probe.cut_def
    by auto
  then show inv: "qpn_inv (qpn_new n)"
    by (auto simp: qpn_inv_def qpn_new_def qpn_capacity_def QPN_ENTRY_EMPTY_def qpn_entry_is_empty_def)
  have "q \<notin> dom (qpn_get (qpn_new n))" for q
    unfolding qpn_dom [OF inv]
    by (simp add: qpn_new_def QPN_ENTRY_EMPTY_def qpn_entry_is_empty_def)
  then show "qpn_get (qpn_new n) = Map.empty" by (auto simp: domIff)
qed

interpretation qpn_map: bounded_map qpn_get qpn_put qpn_del qpn_capacity "\<lambda>q. q \<le> MAX_QPN" qpn_inv
proof (unfold_locales, goal_cases)
  case (1 t k v)
  then show ?case by (rule qpn_put_refines)
next
  case (2 t k v t')
  then have "qpn_insert t k v = (t', Inr ())"
    by (auto simp: qpn_put_def split: prod.splits sum.splits)
  then show ?case using qpn_insert_ok [OF 2(1)] by blast
next
  case (3 t k)
  then show ?case using qpn_remove_ok [OF 3] by (simp add: qpn_del_def spec_del_def)
next
  case (4 t k)
  then show ?case using qpn_remove_ok [OF 4] by (simp add: qpn_del_def)
qed

section \<open>Properties\<close>

text \<open>C15: The QPN table refines a finite map.  For every capacity and every sequence of
  insertions and removals on a new table, what lookup returns afterwards is the partial map
  obtained by performing the same operations abstractly, where an insertion succeeds exactly
  for an absent 24-bit number while fewer than \<open>N\<close> are present.  In particular backward-shift
  deletion never loses another mapping, full table included.\<close>

theorem qpn_table_refines_map:
  "qpn_get (map_run qpn_put qpn_del ops (qpn_new n)) =
     map_run (spec_put n (\<lambda>q. q \<le> MAX_QPN)) spec_del ops Map.empty"
  using qpn_map.map_run_refines [OF qpn_new_inv(1), of ops n]
  by (simp add: qpn_new_inv(2)) (simp add: qpn_new_def qpn_capacity_def)

end
