(* ===== verification/Core_Shard.thy ===== *)
theory Core_Shard
  imports Core_Qp Core_Qpn
begin

text \<open>
  The static partition of the application queue-pair numbers among independent
  endpoint owners (\<open>rocev2-core/src/shard.rs\<close>).  A plan holds a power-of-two
  number of shards; \<open>owner\<close> names the shard of a queue-pair number and \<open>shard_qpn\<close>
  enumerates the numbers of one shard.  The lemmas show that the enumeration is a
  bijection between the pairs of a shard and an ordinal it accepts and the
  application queue-pair numbers.
\<close>

section \<open>Model\<close>

record QpnShardPlan =
  shards :: u32

definition shard_plan_new :: "u32 \<Rightarrow> QpnShardPlan option" where
  "shard_plan_new n =
     (if n = 0 \<or> \<not> is_power_of_two (unat n) \<or> n > 2 ^ 16 then None
      else Some \<lparr>shards = n\<rparr>)"

definition shard_owner :: "QpnShardPlan \<Rightarrow> u32 \<Rightarrow> u32 option" where
  "shard_owner p qpn =
     (if qpn < 2 \<or> qpn > MAX_QPN then None else Some (qpn AND (shards p - 1)))"

definition shard_first :: "QpnShardPlan \<Rightarrow> u32 \<Rightarrow> u32" where
  "shard_first p own =
     (if shards p = 1 then 2 else if own < 2 then own + shards p else own)"

definition shard_qpn :: "QpnShardPlan \<Rightarrow> u32 \<Rightarrow> u32 \<Rightarrow> u32 option" where
  "shard_qpn p own ordinal =
     (if own \<ge> shards p then None
      else if ordinal > (MAX_QPN - shard_first p own) div shards p then None
      else Some (shard_first p own + ordinal * shards p))"

section \<open>The enumeration of a shard\<close>

lemma is_power_of_two_exp:
  "is_power_of_two n \<Longrightarrow> \<exists>j. n = 2 ^ j"
proof (induction n rule: less_induct)
  case (less n)
  show ?case
  proof (cases "even n")
    case True
    then obtain m where n: "n = 2 * m" by blast
    with less.prems have m: "0 < m" by (simp add: is_power_of_two_def)
    have pred: "n - 1 = 2 * (m - 1) + 1" using n m by simp
    have "2 * (m AND (m - 1)) = n AND (n - 1)"
      unfolding pred unfolding n by (simp add: and_rec [of "2 * m"])
    then have "is_power_of_two m" using less.prems m by (simp add: is_power_of_two_def)
    then obtain j where "m = 2 ^ j" using less.IH [of m] n m by auto
    then have "n = 2 ^ Suc j" using n by simp
    then show ?thesis by blast
  next
    case False
    then obtain m where n: "n = 2 * m + 1" by (metis oddE)
    have "n AND (n - 1) = 2 * m" unfolding n by (simp add: and_rec [of "Suc (2 * m)"])
    then have "n = 2 ^ 0" using less.prems n by (simp add: is_power_of_two_def)
    then show ?thesis by blast
  qed
qed

lemma shard_plan_exp:
  assumes "shard_plan_new n = Some p"
  obtains j where "shards p = 2 ^ j" "j \<le> 16" "unat (shards p) = 2 ^ j"
proof -
  have p: "shards p = n" and n: "is_power_of_two (unat n)" "n \<le> 2 ^ 16"
    using assms by (auto simp: shard_plan_new_def not_less split: if_splits)
  obtain j where j: "unat n = 2 ^ j" using is_power_of_two_exp [OF n(1)] by blast
  have "unat n \<le> 2 ^ 16" using n(2) by (simp add: word_le_nat_alt)
  then have le: "j \<le> 16" unfolding j by (rule power_le_imp_le_exp [rotated]) simp
  have "n = of_nat (unat n)" by simp
  then have "n = 2 ^ j" unfolding j by simp
  with p j le show thesis using that by simp
qed

lemma owner_mod:
  assumes "shard_plan_new n = Some p"
  shows "shard_owner p q = Some own \<longleftrightarrow>
    2 \<le> unat q \<and> unat q < 2 ^ 24 \<and> unat own = unat q mod unat (shards p)"
proof -
  obtain j where j: "shards p = 2 ^ j" "j \<le> 16" "unat (shards p) = 2 ^ j"
    by (rule shard_plan_exp [OF assms])
  have "unat (q AND (shards p - 1)) = unat q mod 2 ^ j"
    unfolding j(1) mask_eq_exp_minus_1 [symmetric] take_bit_eq_mask [symmetric]
      unsigned_take_bit_eq by (rule take_bit_eq_mod)
  then have "q AND (shards p - 1) = own \<longleftrightarrow> unat own = unat q mod unat (shards p)"
    unfolding j(3) by (metis unsigned_word_eqI)
  then show ?thesis
    by (auto simp: shard_owner_def MAX_QPN_def word_less_nat_alt word_le_nat_alt)
qed

lemma shard_qpn_nat:
  assumes "shard_plan_new n = Some p"
  shows "shard_qpn p own k = Some q \<longleftrightarrow>
    unat own < unat (shards p) \<and> unat q < 2 ^ 24 \<and>
    unat q = unat (shard_first p own) + unat k * unat (shards p)"
proof -
  obtain j where j: "shards p = 2 ^ j" "j \<le> 16" "unat (shards p) = 2 ^ j"
    by (rule shard_plan_exp [OF assms])
  have le: "unat (shards p) \<le> 2 ^ 16"
    unfolding j(3) using power_increasing [OF j(2), of "2 :: nat"] by simp
  have pos: "0 < unat (shards p)" unfolding j(3) by simp
  show ?thesis
  proof (cases "own < shards p")
    case True
    have first: "unat (shard_first p own) < 2 ^ 18"
      using le True by (auto simp: shard_first_def unat_word_ariths word_less_nat_alt)
    then have diff: "unat (MAX_QPN - shard_first p own) = 0xffffff - unat (shard_first p own)"
      by (simp add: MAX_QPN_def unat_sub word_le_nat_alt)
    have bound: "\<not> k > (MAX_QPN - shard_first p own) div shards p \<longleftrightarrow>
        unat (shard_first p own) + unat k * unat (shards p) < 2 ^ 24"
      using first pos
      by (auto simp: not_less word_le_nat_alt unat_div diff less_eq_div_iff_mult_less_eq)
    have "unat (shard_first p own) + unat k * unat (shards p) < 2 ^ 24 \<Longrightarrow>
        shard_first p own + k * shards p = q \<longleftrightarrow>
        unat q = unat (shard_first p own) + unat k * unat (shards p)"
      by (auto simp: word_unat_eq_iff unat_word_ariths)
    with bound True show ?thesis
      by (auto simp: shard_qpn_def word_less_nat_alt word_le_nat_alt)
  next
    case False
    then show ?thesis by (simp add: shard_qpn_def word_less_nat_alt word_le_nat_alt)
  qed
qed

lemma shard_first_nat:
  assumes "shard_plan_new n = Some p" "unat own < unat (shards p)"
  shows "unat (shard_first p own) mod unat (shards p) = unat own" "2 \<le> unat (shard_first p own)"
    "2 \<le> m \<Longrightarrow> m mod unat (shards p) = unat own \<Longrightarrow> unat (shard_first p own) \<le> m"
proof -
  obtain j where j: "shards p = 2 ^ j" "j \<le> 16" "unat (shards p) = 2 ^ j"
    by (rule shard_plan_exp [OF assms(1)])
  have le: "unat (shards p) \<le> 2 ^ 16"
    unfolding j(3) using power_increasing [OF j(2), of "2 :: nat"] by simp
  have first: "unat (shard_first p own) = (if unat (shards p) = 1 then 2
      else if unat own < 2 then unat own + unat (shards p) else unat own)"
    using le assms(2)
    by (auto simp: shard_first_def unat_word_ariths word_less_nat_alt word_unat_eq_iff)
  show "unat (shard_first p own) mod unat (shards p) = unat own" "2 \<le> unat (shard_first p own)"
    unfolding first using assms(2) by auto
  assume m: "2 \<le> m" "m mod unat (shards p) = unat own"
  have "unat own < 2 \<Longrightarrow> unat (shards p) \<le> m"
    using m by (cases "m < unat (shards p)") auto
  then have "unat own < 2 \<Longrightarrow> unat own + unat (shards p) \<le> m"
    using m mod_le_divisor by (metis add.commute add_le_cancel_left div_mod_decomp le_mod_geq mod_less_eq_dividend le_add_diff_inverse)
  then show "unat (shard_first p own) \<le> m"
    unfolding first using m assms(2) mod_less_eq_dividend [of m "unat (shards p)"] by auto
qed

text \<open>
  C24: For every plan the constructor accepts, enumerating shard \<open>own\<close> at ordinal \<open>k\<close>
  yields the number \<open>q\<close> exactly when \<open>own\<close> is the owner of \<open>q\<close> and \<open>k\<close> is the rank of
  \<open>q\<close> in its shard.  So the shards enumerate precisely the application numbers, every
  number is enumerated by its owner alone, and at one ordinal only.
\<close>

theorem shards_partition_qpns:
  assumes plan: "shard_plan_new n = Some p"
  shows "shard_qpn p own k = Some q \<longleftrightarrow>
    shard_owner p q = Some own \<and> k = (q - shard_first p own) div shards p"
proof -
  let ?N = "unat (shards p)" and ?f = "unat (shard_first p own)"
  obtain j where "?N = 2 ^ j" by (rule shard_plan_exp [OF plan])
  then have pos: "0 < ?N" by simp
  show ?thesis
  proof
    assume "shard_qpn p own k = Some q"
    then have q: "unat own < ?N" "unat q < 2 ^ 24" "unat q = ?f + unat k * ?N"
      by (simp_all add: shard_qpn_nat [OF plan])
    have "unat (q - shard_first p own) = unat k * ?N"
      using q(3) by (simp add: unat_sub word_le_nat_alt)
    then have "k = (q - shard_first p own) div shards p"
      using pos by (simp add: word_unat_eq_iff unat_div)
    then show "shard_owner p q = Some own \<and> k = (q - shard_first p own) div shards p"
      using q shard_first_nat [OF plan q(1)] by (simp add: owner_mod [OF plan])
  next
    assume asm: "shard_owner p q = Some own \<and> k = (q - shard_first p own) div shards p"
    then have q: "2 \<le> unat q" "unat q < 2 ^ 24" "unat own = unat q mod ?N"
      by (simp_all add: owner_mod [OF plan])
    then have own: "unat own < ?N" using pos by simp
    have le: "?f \<le> unat q" using shard_first_nat(3) [OF plan own] q by simp
    have k: "unat k = (unat q - ?f) div ?N"
      using asm le by (simp add: unat_sub word_le_nat_alt unat_div)
    have "?N dvd unat q - ?f"
      using shard_first_nat(1) [OF plan own] q(3) le mod_eq_dvd_iff_nat by metis
    then have "unat q = ?f + unat k * ?N" using k le by simp
    then show "shard_qpn p own k = Some q"
      using own q by (simp add: shard_qpn_nat [OF plan])
  qed
qed

theorem shards_partition_qpns_witness:
  "shard_qpn \<lparr>shards = 4\<rparr> 1 1 = Some 9"
proof -
  have "shard_plan_new 4 = Some \<lparr>shards = 4\<rparr>"
    by (simp add: shard_plan_new_def is_power_of_two_def)
  from shards_partition_qpns [OF this, of 1 1 9] show ?thesis
    by (simp add: shard_owner_def shard_first_def MAX_QPN_def)
qed

end
