(* ===== verification/Core_Ready.thy ===== *)
theory Core_Ready
  imports Contracts
begin

text \<open>
  The intrusive ready queue of \<open>rocev2-core/src/scheduler.rs\<close>: one doubly
  linked list threaded through a fixed array, with 32-bit links.  \<open>ready_rep\<close>
  relates it to the list of scheduled slots, and the queue implements the run
  queue contract.
\<close>

section \<open>Model\<close>

definition NONE_INDEX :: usize where
  "NONE_INDEX = usize_max"

definition NONE_LINK :: u32 where
  "NONE_LINK = - 1"

record ReadyLink =
  link_previous :: u32
  link_next :: u32
  link_queued :: bool

definition READY_LINK_EMPTY :: ReadyLink where
  "READY_LINK_EMPTY = \<lparr>link_previous = NONE_LINK, link_next = NONE_LINK, link_queued = False\<rparr>"

record ReadyQueue =
  rq_links :: "ReadyLink list"
  rq_head :: usize
  rq_tail :: usize
  rq_len :: usize

definition ready_new :: "nat \<Rightarrow> ReadyQueue" where
  "ready_new n =
     \<lparr>rq_links = replicate n READY_LINK_EMPTY, rq_head = NONE_INDEX, rq_tail = NONE_INDEX, rq_len = 0\<rparr>"

definition is_scheduled :: "ReadyQueue \<Rightarrow> usize \<Rightarrow> bool" where
  "is_scheduled q slot = (slot < length (rq_links q) \<and> link_queued (rq_links q ! slot))"

definition decode_link :: "u32 \<Rightarrow> usize option" where
  "decode_link link = (if link \<noteq> NONE_LINK then Some (unat link) else None)"

definition ready_schedule :: "ReadyQueue \<Rightarrow> usize \<Rightarrow> ReadyQueue \<times> bool" where
  "ready_schedule q slot =
     (case u32_try_from slot of
        None \<Rightarrow> (q, False)
      | Some slot_link \<Rightarrow>
          if slot_link = NONE_LINK then (q, False)
          else if \<not> slot < length (rq_links q) then (q, False)
          else if link_queued (rq_links q ! slot) then (q, False)
          else let previous = rq_tail q
               in case (if previous = NONE_INDEX then Some NONE_LINK else u32_try_from previous) of
                    None \<Rightarrow> (q, False)
                  | Some previous_link \<Rightarrow>
                      let links1 = (rq_links q)[slot := \<lparr>link_previous = previous_link,
                                     link_next = NONE_LINK, link_queued = True\<rparr>];
                          q1 = (if previous = NONE_INDEX
                                then q\<lparr>rq_links := links1, rq_head := slot\<rparr>
                                else q\<lparr>rq_links :=
                                  links1[previous := (links1 ! previous)\<lparr>link_next := slot_link\<rparr>]\<rparr>)
                      in (q1\<lparr>rq_tail := slot, rq_len := rq_len q1 + 1\<rparr>, True))"

definition ready_cancel :: "ReadyQueue \<Rightarrow> usize \<Rightarrow> ReadyQueue \<times> bool" where
  "ready_cancel q slot =
     (if \<not> slot < length (rq_links q) then (q, False)
      else let link = rq_links q ! slot
           in if \<not> link_queued link then (q, False)
              else let previous = decode_link (link_previous link);
                       nxt = decode_link (link_next link);
                       q1 = (case previous of
                               Some p \<Rightarrow> q\<lparr>rq_links :=
                                 (rq_links q)[p := (rq_links q ! p)\<lparr>link_next := link_next link\<rparr>]\<rparr>
                             | None \<Rightarrow> q\<lparr>rq_head := (case nxt of Some n \<Rightarrow> n | None \<Rightarrow> NONE_INDEX)\<rparr>);
                       q2 = (case nxt of
                               Some n \<Rightarrow> q1\<lparr>rq_links :=
                                 (rq_links q1)[n := (rq_links q1 ! n)\<lparr>link_previous := link_previous link\<rparr>]\<rparr>
                             | None \<Rightarrow> q1\<lparr>rq_tail := (case previous of Some p \<Rightarrow> p | None \<Rightarrow> NONE_INDEX)\<rparr>)
                   in (q2\<lparr>rq_links := (rq_links q2)[slot := READY_LINK_EMPTY], rq_len := rq_len q2 - 1\<rparr>,
                       True))"

definition ready_pop :: "ReadyQueue \<Rightarrow> ReadyQueue \<times> usize option" where
  "ready_pop q =
     (if rq_head q \<noteq> NONE_INDEX then (fst (ready_cancel q (rq_head q)), Some (rq_head q))
      else (q, None))"

partial_function (option) ready_clear :: "ReadyQueue \<Rightarrow> ReadyQueue option" where
  "ready_clear q =
     (case ready_pop q of (q', Some _) \<Rightarrow> ready_clear q' | (q', None) \<Rightarrow> Some q')"

section \<open>The queue as a list\<close>

definition enc :: "nat option \<Rightarrow> u32" where
  "enc x = (case x of None \<Rightarrow> NONE_LINK | Some i \<Rightarrow> of_nat i)"

definition enc_index :: "nat option \<Rightarrow> nat" where
  "enc_index x = (case x of None \<Rightarrow> NONE_INDEX | Some i \<Rightarrow> i)"

definition first :: "'a list \<Rightarrow> 'a option" where
  "first xs = (if xs = [] then None else Some (hd xs))"

definition final :: "'a list \<Rightarrow> 'a option" where
  "final xs = (if xs = [] then None else Some (last xs))"

definition good_index :: "ReadyQueue \<Rightarrow> nat \<Rightarrow> bool" where
  "good_index q i \<longleftrightarrow> i < length (rq_links q) \<and> i < 2 ^ 32 - 1"

definition ready_rep :: "ReadyQueue \<Rightarrow> nat list \<Rightarrow> bool" where
  "ready_rep q xs \<longleftrightarrow>
     distinct xs \<and> (\<forall>x \<in> set xs. good_index q x) \<and>
     rq_head q = enc_index (first xs) \<and> rq_tail q = enc_index (final xs) \<and> rq_len q = length xs \<and>
     (\<forall>i < length (rq_links q). link_queued (rq_links q ! i) \<longleftrightarrow> i \<in> set xs) \<and>
     (\<forall>as x bs. xs = as @ x # bs \<longrightarrow>
        link_previous (rq_links q ! x) = enc (final as) \<and> link_next (rq_links q ! x) = enc (first bs))"

definition small :: "nat option \<Rightarrow> bool" where
  "small x = (case x of None \<Rightarrow> True | Some i \<Rightarrow> i < 2 ^ 32 - 1)"

lemma of_nat_link:
  assumes "i < 2 ^ 32 - 1"
  shows "unat (of_nat i :: u32) = i" and "(of_nat i :: u32) \<noteq> NONE_LINK"
proof -
  show u: "unat (of_nat i :: u32) = i" using assms by (simp add: unat_of_nat)
  have "unat NONE_LINK = 2 ^ 32 - 1"
    by (simp add: NONE_LINK_def unsigned_minus_1_eq_mask mask_eq_exp_minus_1)
  then show "(of_nat i :: u32) \<noteq> NONE_LINK" using u assms by auto
qed

lemma decode_enc: "small x \<Longrightarrow> decode_link (enc x) = x"
  by (cases x) (auto simp: small_def decode_link_def enc_def of_nat_link)

lemma enc_index_eq_none: "small x \<Longrightarrow> enc_index x = NONE_INDEX \<longleftrightarrow> x = None"
  by (auto simp: small_def enc_index_def NONE_INDEX_def usize_max_def split: option.splits)

lemma ready_repD:
  assumes "ready_rep q xs"
  shows "distinct xs" "\<And>x. x \<in> set xs \<Longrightarrow> good_index q x"
    "rq_head q = enc_index (first xs)" "rq_tail q = enc_index (final xs)" "rq_len q = length xs"
    "\<And>i. i < length (rq_links q) \<Longrightarrow> link_queued (rq_links q ! i) \<longleftrightarrow> i \<in> set xs"
    "\<And>as x bs. xs = as @ x # bs \<Longrightarrow>
       link_previous (rq_links q ! x) = enc (final as) \<and> link_next (rq_links q ! x) = enc (first bs)"
  using assms unfolding ready_rep_def by blast+

lemma small_ends:
  assumes "\<And>x. x \<in> set xs \<Longrightarrow> good_index q x"
  shows "small (final xs)" "small (first xs)"
  using assms by (auto simp: small_def final_def first_def good_index_def split: option.splits)

lemma snoc_split:
  "xs @ [s] = as @ x # bs \<longleftrightarrow> (bs = [] \<and> as = xs \<and> x = s) \<or> (\<exists>cs. bs = cs @ [s] \<and> xs = as @ x # cs)"
  by (cases bs rule: rev_cases) auto

lemma remove_split:
  "A @ B = as @ x # bs \<longleftrightarrow>
     (\<exists>cs. A = as @ x # cs \<and> bs = cs @ B) \<or> (\<exists>cs. B = cs @ x # bs \<and> as = A @ cs)"
  by (auto simp: append_eq_append_conv2 append_eq_Cons_conv)

lemma first_append: "first (xs @ ys) = (if xs = [] then first ys else first xs)"
  by (simp add: first_def)

lemma final_append: "final (xs @ ys) = (if ys = [] then final xs else final ys)"
  by (simp add: final_def)

lemma final_Cons_mem: "final xs = Some x \<Longrightarrow> x \<in> set xs"
  by (auto simp: final_def split: if_splits)

lemma first_mem: "first xs = Some x \<Longrightarrow> x \<in> set xs"
  by (auto simp: first_def split: if_splits)

text \<open>Scheduling appends a slot that is in range and not queued, and nothing else.\<close>

lemma ready_schedule_refused:
  assumes "ready_rep q xs" and "\<not> (good_index q s \<and> s \<notin> set xs)"
  shows "ready_schedule q s = (q, False)"
proof -
  have "s < 2 ^ 32 \<and> (of_nat s :: u32) \<noteq> NONE_LINK \<and> s < length (rq_links q) \<longrightarrow> good_index q s"
  proof (intro impI)
    assume a: "s < 2 ^ 32 \<and> (of_nat s :: u32) \<noteq> NONE_LINK \<and> s < length (rq_links q)"
    have "(of_nat (2 ^ 32 - 1) :: u32) = NONE_LINK" by (simp add: NONE_LINK_def)
    then have "s \<noteq> 2 ^ 32 - 1" using a by metis
    then show "good_index q s" using a by (simp add: good_index_def)
  qed
  moreover have "link_queued (rq_links q ! s)" if "good_index q s" "s \<in> set xs"
    using that ready_repD(6) [OF assms(1), of s] by (simp add: good_index_def)
  ultimately show ?thesis
    using assms(2) by (auto simp: ready_schedule_def u32_try_from_def split: option.splits)
qed

lemma ready_schedule_ok:
  assumes rep: "ready_rep q xs" and good: "good_index q s" and fresh: "s \<notin> set xs"
  shows "snd (ready_schedule q s)" and "ready_rep (fst (ready_schedule q s)) (xs @ [s])"
    and "length (rq_links (fst (ready_schedule q s))) = length (rq_links q)"
proof -
  note r = ready_repD [OF rep]
  have s: "s < length (rq_links q)" "s < 2 ^ 32 - 1" using good by (simp_all add: good_index_def)
  have notq: "\<not> link_queued (rq_links q ! s)" using r(6) [OF s(1)] fresh by simp
  define L1 where "L1 = (rq_links q)[s := \<lparr>link_previous = enc (final xs), link_next = NONE_LINK, link_queued = True\<rparr>]"
  define L where "L = (case final xs of None \<Rightarrow> L1 | Some p \<Rightarrow> L1[p := (L1 ! p)\<lparr>link_next := of_nat s\<rparr>])"
  have sched: "ready_schedule q s =
    (q\<lparr>rq_links := L, rq_head := enc_index (first (xs @ [s])), rq_tail := s, rq_len := length xs + 1\<rparr>, True)"
  proof (cases "xs = []")
    case True
    then show ?thesis using s notq of_nat_link [OF s(2)] r(3-5)
      by (simp add: ready_schedule_def u32_try_from_def L_def L1_def final_def first_def enc_index_def enc_def)
  next
    case False
    have p: "last xs < 2 ^ 32 - 1" "last xs < length (rq_links q)"
      using r(2) [of "last xs"] False by (simp_all add: good_index_def)
    then have ne: "last xs \<noteq> NONE_INDEX" by (simp add: NONE_INDEX_def usize_max_def)
    show ?thesis
      using False s notq of_nat_link [OF s(2)] r(3-5) p ne
      by (cases q) (simp add: Let_def ready_schedule_def u32_try_from_def L_def L1_def final_def first_def enc_index_def enc_def)
  qed
  have len: "length L = length (rq_links q)" by (simp add: L_def L1_def split: option.splits)
  show "snd (ready_schedule q s)" and "length (rq_links (fst (ready_schedule q s))) = length (rq_links q)"
    using len by (simp_all add: sched)
  have neq: "p \<noteq> s" "p < length (rq_links q)" if "final xs = Some p" for p
    using final_Cons_mem [OF that] fresh r(2) by (auto simp: good_index_def)
  have nths: "L ! s = \<lparr>link_previous = enc (final xs), link_next = NONE_LINK, link_queued = True\<rparr>"
    using s neq by (auto simp: L_def L1_def split: option.splits)
  have nth: "link_previous (L ! x) = link_previous (rq_links q ! x)"
    "link_queued (L ! x) = link_queued (rq_links q ! x)"
    "link_next (L ! x) = (if final xs = Some x then of_nat s else link_next (rq_links q ! x))"
    if "x \<noteq> s" for x
    using that neq by (auto simp: L_def L1_def nth_list_update split: option.splits)
  have links: "link_previous (L ! x) = enc (final as) \<and> link_next (L ! x) = enc (first bs)"
    if "xs @ [s] = as @ x # bs" for as x bs
  proof -
    from that consider "bs = []" "as = xs" "x = s" | cs where "bs = cs @ [s]" "xs = as @ x # cs"
      by (auto simp: snoc_split)
    then show ?thesis
    proof cases
      case 1
      then show ?thesis by (simp add: nths enc_def first_def)
    next
      case 2
      have "x \<noteq> s" using 2 fresh by auto
      moreover have "final xs = Some x \<longleftrightarrow> cs = []"
        using 2 r(1) by (auto simp: final_def)
      ultimately show ?thesis
        using r(7) [OF 2(2)] 2 by (simp add: nth first_append enc_def first_def)
    qed
  qed
  have queued: "link_queued (L ! i) \<longleftrightarrow> i \<in> set (xs @ [s])" if "i < length (rq_links q)" for i
    using r(6) [OF that] nth(2) [of i] nths by (cases "i = s") auto
  show "ready_rep (fst (ready_schedule q s)) (xs @ [s])"
    unfolding ready_rep_def sched using r(1,2) fresh good links queued len
    by (auto simp: good_index_def final_def enc_index_def)
qed

text \<open>Cancelling unlinks a queued slot and keeps the order of the others.\<close>

lemma ready_cancel_refused:
  assumes "ready_rep q xs" and "s \<notin> set xs"
  shows "ready_cancel q s = (q, False)"
  using ready_repD(6) [OF assms(1), of s] assms(2) by (auto simp: ready_cancel_def Let_def)

lemma ready_cancel_ok:
  assumes rep: "ready_rep q xs" and xs: "xs = A @ s # B"
  shows "snd (ready_cancel q s)" and "ready_rep (fst (ready_cancel q s)) (A @ B)"
    and "length (rq_links (fst (ready_cancel q s))) = length (rq_links q)"
proof -
  note r = ready_repD [OF rep]
  have goods: "good_index q x" if "x \<in> set A \<union> set B \<union> {s}" for x using r(2) that by (auto simp: xs)
  have s: "s < length (rq_links q)" "link_queued (rq_links q ! s)"
    using goods [of s] r(6) [of s] by (auto simp: good_index_def xs)
  have dec: "decode_link (link_previous (rq_links q ! s)) = final A"
    "decode_link (link_next (rq_links q ! s)) = first B"
    "link_previous (rq_links q ! s) = enc (final A)" "link_next (rq_links q ! s) = enc (first B)"
    using r(7) [OF xs] small_ends [of A q] small_ends [of B q] goods by (auto simp: decode_enc)
  define L1 where "L1 = (case final A of None \<Rightarrow> rq_links q
    | Some p \<Rightarrow> (rq_links q)[p := (rq_links q ! p)\<lparr>link_next := enc (first B)\<rparr>])"
  define L2 where "L2 = (case first B of None \<Rightarrow> L1
    | Some n \<Rightarrow> L1[n := (L1 ! n)\<lparr>link_previous := enc (final A)\<rparr>])"
  have canc: "ready_cancel q s =
    (q\<lparr>rq_links := L2[s := READY_LINK_EMPTY], rq_head := enc_index (first (A @ B)),
       rq_tail := enc_index (final (A @ B)), rq_len := length (A @ B)\<rparr>, True)"
    using s r(3-5) unfolding ready_cancel_def Let_def dec(1,2) unfolding dec(3,4)
    by (cases q; cases "A = []"; cases "B = []")
      (simp_all add: L1_def L2_def xs first_def final_def enc_index_def)
  have lens: "length L1 = length (rq_links q)" "length L2 = length (rq_links q)"
    by (simp_all add: L1_def L2_def split: option.splits)
  show "snd (ready_cancel q s)" and "length (rq_links (fst (ready_cancel q s))) = length (rq_links q)"
    by (simp_all add: canc lens)
  have ends: "p \<noteq> s" "p < length (rq_links q)" if "final A = Some p \<or> first B = Some p" for p
    using that final_Cons_mem [of A p] first_mem [of B p] r(1) goods [of p]
    by (auto simp: xs good_index_def)
  have nth: "link_queued (L2 ! x) = link_queued (rq_links q ! x)"
    "link_previous (L2 ! x) = (if first B = Some x then enc (final A) else link_previous (rq_links q ! x))"
    "link_next (L2 ! x) = (if final A = Some x then enc (first B) else link_next (rq_links q ! x))" for x
    using ends lens by (auto simp: L1_def L2_def nth_list_update split: option.splits)
  have links: "link_previous (L2[s := READY_LINK_EMPTY] ! x) = enc (final as) \<and>
      link_next (L2[s := READY_LINK_EMPTY] ! x) = enc (first bs)" if "A @ B = as @ x # bs" for as x bs
  proof -
    have "x \<noteq> s" using that r(1) unfolding xs by (metis Un_iff distinct.simps(2) distinct_append in_set_conv_decomp not_distinct_decomp set_append append_Cons disjoint_iff list.set_intros(1))
    then have x: "L2[s := READY_LINK_EMPTY] ! x = L2 ! x" by simp
    from that consider cs where "A = as @ x # cs" "bs = cs @ B" | cs where "B = cs @ x # bs" "as = A @ cs"
      unfolding remove_split by blast
    then show ?thesis
    proof cases
      case 1
      have "xs = as @ x # (cs @ s # B)" using 1 xs by simp
      moreover have "first B \<noteq> Some x" using first_mem [of B x] r(1) 1 by (auto simp: xs)
      moreover have "final A = Some x \<longleftrightarrow> cs = []" using 1 r(1) by (auto simp: final_def xs)
      ultimately show ?thesis using r(7) 1 by (auto simp: x nth first_append)
    next
      case 2
      have "xs = (A @ s # cs) @ x # bs" using 2 xs by simp
      moreover have "final A \<noteq> Some x" using final_Cons_mem [of A x] r(1) 2 by (auto simp: xs)
      moreover have "first B = Some x \<longleftrightarrow> cs = []" using 2 r(1) by (cases cs) (auto simp: first_def xs)
      ultimately show ?thesis using r(7) [of "A @ s # cs" x bs] 2
        by (auto simp: x nth final_append final_def)
    qed
  qed
  have queued: "link_queued (L2[s := READY_LINK_EMPTY] ! i) \<longleftrightarrow> i \<in> set (A @ B)"
    if "i < length (rq_links q)" for i
    using r(1) r(6) [OF that] s(1) lens nth(1) [of i]
    by (cases "i = s") (auto simp: xs READY_LINK_EMPTY_def)
  show "ready_rep (fst (ready_cancel q s)) (A @ B)"
    unfolding ready_rep_def canc using r(1) goods links queued lens
    by (auto simp: good_index_def xs)
qed

section \<open>The run queue contract\<close>

fun ready_walk :: "ReadyLink list \<Rightarrow> nat \<Rightarrow> usize \<Rightarrow> nat list" where
  "ready_walk links 0 i = []"
| "ready_walk links (Suc n) i = i # ready_walk links n (unat (link_next (links ! i)))"

definition ready_list :: "ReadyQueue \<Rightarrow> nat list" where
  "ready_list q = ready_walk (rq_links q) (rq_len q) (rq_head q)"

definition ready_inv :: "ReadyQueue \<Rightarrow> bool" where
  "ready_inv q = ready_rep q (ready_list q)"

lemma ready_walk_rep:
  assumes "ready_rep q xs"
  shows "xs = as @ bs \<Longrightarrow> bs = [] \<or> i = hd bs \<Longrightarrow> ready_walk (rq_links q) (length bs) i = bs"
proof (induction bs arbitrary: as i)
  case (Cons b bs)
  have nxt: "link_next (rq_links q ! b) = enc (first bs)"
    using ready_repD(7) [OF assms Cons.prems(1)] by simp
  have "bs = [] \<or> unat (link_next (rq_links q ! b)) = hd bs"
  proof (cases bs)
    case (Cons c cs)
    then have "c < 2 ^ 32 - 1"
      using ready_repD(2) [OF assms, of c] Cons.prems(1) \<open>xs = as @ b # bs\<close> by (simp add: good_index_def)
    then show ?thesis using of_nat_link(1) [of c] Cons nxt by (simp add: enc_def first_def)
  qed simp
  then show ?case using Cons.IH [of "as @ [b]"] Cons.prems by auto
qed simp

lemma ready_rep_list: "ready_rep q xs \<Longrightarrow> ready_list q = xs"
  using ready_walk_rep [of q xs "[]" xs "rq_head q"] ready_repD(3,5) [of q xs]
  by (auto simp: ready_list_def enc_index_def first_def)

lemma ready_rep_inv: "ready_rep q xs \<Longrightarrow> ready_inv q \<and> ready_list q = xs"
  by (simp add: ready_inv_def ready_rep_list)

lemma ready_pop_eq:
  assumes "ready_rep q xs"
  shows "ready_pop q = (if xs = [] then (q, None) else (fst (ready_cancel q (hd xs)), Some (hd xs)))"
proof -
  have "rq_head q = NONE_INDEX \<longleftrightarrow> xs = []"
    using enc_index_eq_none [of "first xs"] small_ends(2) [OF ready_repD(2) [OF assms]] ready_repD(3) [OF assms]
    by (simp add: first_def split: if_splits)
  then show ?thesis
    using ready_repD(3) [OF assms] by (auto simp: ready_pop_def first_def enc_index_def)
qed

interpretation ready: run_queue ready_schedule ready_cancel ready_pop ready_list good_index ready_inv
proof (unfold_locales, goal_cases)
  case (1 q)
  then show ?case using ready_repD(1) by (simp add: ready_inv_def)
next
  case (2 q i)
  then have rep: "ready_rep q (ready_list q)" by (simp add: ready_inv_def)
  show ?case
  proof (cases "good_index q i \<and> i \<notin> set (ready_list q)")
    case True
    then show ?thesis using ready_schedule_ok [OF rep, of i] ready_rep_inv
      by (auto simp: list_schedule_def good_index_def fun_eq_iff)
  next
    case False
    then show ?thesis using ready_schedule_refused [OF rep False] 2 by (auto simp: list_schedule_def)
  qed
next
  case (3 q i)
  then have rep: "ready_rep q (ready_list q)" by (simp add: ready_inv_def)
  show ?case
  proof (cases "i \<in> set (ready_list q)")
    case True
    then obtain A B where ab: "ready_list q = A @ i # B" "i \<notin> set A" by (meson split_list_first)
    then have "remove1 i (ready_list q) = A @ B" by (simp add: remove1_append)
    then show ?thesis using ready_cancel_ok [OF rep ab(1)] ready_rep_inv True
      by (auto simp: list_cancel_def good_index_def fun_eq_iff)
  next
    case False
    then show ?thesis using ready_cancel_refused [OF rep False] 3
      by (simp add: list_cancel_def remove1_idem)
  qed
next
  case (4 q)
  then have rep: "ready_rep q (ready_list q)" by (simp add: ready_inv_def)
  show ?case
  proof (cases "ready_list q")
    case Nil
    then show ?thesis using ready_pop_eq [OF rep] 4 by simp
  next
    case (Cons x xs)
    then show ?thesis
      using ready_pop_eq [OF rep] ready_cancel_ok [OF rep, of "[]" x xs] ready_rep_inv
      by (auto simp: good_index_def fun_eq_iff)
  qed
qed

lemma ready_new_rep: "ready_rep (ready_new n) []"
  by (simp add: ready_rep_def ready_new_def first_def final_def enc_index_def READY_LINK_EMPTY_def)

lemma ready_clear_terminates:
  assumes "ready_rep q xs"
  shows "\<exists>q'. ready_clear q = Some q' \<and> ready_rep q' [] \<and> length (rq_links q') = length (rq_links q)"
  using assms
proof (induction xs arbitrary: q)
  case Nil
  then show ?case using ready_pop_eq [OF Nil] by (subst ready_clear.simps) simp
next
  case (Cons x xs)
  have "ready_rep (fst (ready_cancel q x)) xs"
    "length (rq_links (fst (ready_cancel q x))) = length (rq_links q)"
    using ready_cancel_ok [OF Cons.prems, of "[]" x xs] by auto
  with Cons.IH [of "fst (ready_cancel q x)"] show ?case
    using ready_pop_eq [OF Cons.prems] by (subst ready_clear.simps) simp
qed

section \<open>Properties\<close>

text \<open>C16: The intrusive ready queue refines a duplicate-free FIFO.  For every number of slots
  and every sequence of schedule, cancel and pop calls on a new queue, the results are those of
  a plain list in which scheduling appends a slot not yet present, cancelling removes a slot
  wherever it is and popping takes the head; so no QP is queued twice, none is lost, and the
  order of the others survives a cancellation.\<close>

theorem ready_queue_refines_list:
  "(ready_list (fst (run_queue_exec ready_schedule ready_cancel ready_pop ops (ready_new n))),
    snd (run_queue_exec ready_schedule ready_cancel ready_pop ops (ready_new n)))
   = run_queue_exec (list_schedule (\<lambda>i. i < n \<and> i < 2 ^ 32 - 1)) list_cancel list_pop ops [] \<and>
   distinct (ready_list (fst (run_queue_exec ready_schedule ready_cancel ready_pop ops (ready_new n))))"
proof -
  have new: "ready_inv (ready_new n)" "ready_list (ready_new n) = []"
    using ready_rep_inv [OF ready_new_rep] by auto
  have "good_index (ready_new n) = (\<lambda>i. i < n \<and> i < 2 ^ 32 - 1)"
    by (simp add: good_index_def ready_new_def fun_eq_iff)
  then show ?thesis
    using ready.exec_refines [OF new(1), of ops] ready.order_distinct new(2) by simp
qed

end
