(* ===== verification/Core_Timer.thy ===== *)
theory Core_Timer
  imports Core_Ready
begin

text \<open>
  The indexed deadline heap of \<open>rocev2-core/src/scheduler.rs\<close>.  Entries are
  ordered by \<open>precedes\<close>, which makes them a linear order; \<open>timer_inv\<close> says
  that the array is a heap and that the position index is its inverse.  Heap
  positions are array indices, so the saturating child computation of the
  code is plain arithmetic here.
\<close>

section \<open>Entries\<close>

definition NONE_POSITION :: u32 where
  "NONE_POSITION = - 1"

datatype TimerEntry =
  TimerEntry (te_deadline: u64) (te_slot: u32) (te_generation: u32) (te_sequence: u32)

definition TIMER_ENTRY_EMPTY :: TimerEntry where
  "TIMER_ENTRY_EMPTY = TimerEntry 0 0 0 0"

definition precedes :: "TimerEntry \<Rightarrow> TimerEntry \<Rightarrow> bool" where
  "precedes left right =
     (if te_deadline left \<noteq> te_deadline right then te_deadline left < te_deadline right
      else if te_slot left \<noteq> te_slot right then te_slot left < te_slot right
      else if te_generation left \<noteq> te_generation right then te_generation left < te_generation right
      else te_sequence left < te_sequence right)"

instantiation TimerEntry :: linorder
begin

definition less_TimerEntry :: "TimerEntry \<Rightarrow> TimerEntry \<Rightarrow> bool" where
  "less_TimerEntry a b = precedes a b"

definition less_eq_TimerEntry :: "TimerEntry \<Rightarrow> TimerEntry \<Rightarrow> bool" where
  "less_eq_TimerEntry a b = (precedes a b \<or> a = b)"

instance
proof
  fix x y z :: TimerEntry
  show "(x < y) = (x \<le> y \<and> \<not> y \<le> x)"
    by (auto simp: less_TimerEntry_def less_eq_TimerEntry_def precedes_def split: if_splits)
  show "x \<le> x"
    by (simp add: less_eq_TimerEntry_def)
  show "x \<le> y \<Longrightarrow> y \<le> z \<Longrightarrow> x \<le> z"
    by (auto simp: less_eq_TimerEntry_def precedes_def split: if_splits)
  show "x \<le> y \<Longrightarrow> y \<le> x \<Longrightarrow> x = y"
    by (auto simp: less_eq_TimerEntry_def precedes_def split: if_splits)
  show "x \<le> y \<or> y \<le> x"
    by (cases x; cases y) (auto simp: less_eq_TimerEntry_def precedes_def split: if_splits)
qed

end

lemma precedes_less: "precedes a b \<longleftrightarrow> a < b"
  by (simp add: less_TimerEntry_def)

lemma less_eq_deadline: "a \<le> b \<Longrightarrow> te_deadline a \<le> te_deadline b"
  by (auto simp: less_eq_TimerEntry_def precedes_def split: if_splits)

section \<open>Model\<close>

record TimerScheduler =
  ts_heap :: "TimerEntry list"
  ts_positions :: "u32 list"
  ts_len :: usize

definition timer_sched_new :: "nat \<Rightarrow> TimerScheduler" where
  "timer_sched_new n =
     \<lparr>ts_heap = replicate n TIMER_ENTRY_EMPTY, ts_positions = replicate n NONE_POSITION, ts_len = 0\<rparr>"

definition timer_get :: "TimerScheduler \<Rightarrow> u32 \<Rightarrow> TimerEntry option" where
  "timer_get s qp_slot =
     (let slot = unat qp_slot
      in if \<not> slot < length (ts_positions s) then None
         else let position = ts_positions s ! slot
              in if position = NONE_POSITION then None
                 else if unat position < ts_len s then Some (ts_heap s ! unat position) else None)"

definition set_position :: "TimerScheduler \<Rightarrow> TimerEntry \<Rightarrow> usize \<Rightarrow> TimerScheduler" where
  "set_position s entry position =
     (case u32_try_from position of
        None \<Rightarrow> s
      | Some encoded \<Rightarrow>
          if encoded = NONE_POSITION then s
          else if unat (te_slot entry) < length (ts_positions s)
          then s\<lparr>ts_positions := (ts_positions s)[unat (te_slot entry) := encoded]\<rparr>
          else s)"

definition entry_precedes :: "TimerScheduler \<Rightarrow> usize \<Rightarrow> usize \<Rightarrow> bool" where
  "entry_precedes s left right = precedes (ts_heap s ! left) (ts_heap s ! right)"

definition swap_entries :: "TimerScheduler \<Rightarrow> usize \<Rightarrow> usize \<Rightarrow> TimerScheduler" where
  "swap_entries s left right =
     (let s1 = s\<lparr>ts_heap := (ts_heap s)[left := ts_heap s ! right, right := ts_heap s ! left]\<rparr>;
          s2 = set_position s1 (ts_heap s1 ! left) left
      in set_position s2 (ts_heap s2 ! right) right)"

function sift_up :: "TimerScheduler \<Rightarrow> usize \<Rightarrow> TimerScheduler" where
  "sift_up s position =
     (if position \<noteq> 0
      then let parent = (position - 1) div 2
           in if \<not> entry_precedes s position parent then s
              else sift_up (swap_entries s position parent) parent
      else s)"
  by auto
termination
  by (relation "measure snd") auto

lemma set_position_len [simp]: "ts_len (set_position s e p) = ts_len s"
  by (simp add: set_position_def split: option.splits)

lemma swap_entries_len [simp]: "ts_len (swap_entries s i j) = ts_len s"
  by (simp add: swap_entries_def Let_def)

function sift_down :: "TimerScheduler \<Rightarrow> usize \<Rightarrow> TimerScheduler" where
  "sift_down s position =
     (let left = position * 2 + 1
      in if left \<ge> ts_len s then s
         else let right = left + 1;
                  child = (if right < ts_len s \<and> entry_precedes s right left then right else left)
              in if \<not> entry_precedes s child position then s
                 else sift_down (swap_entries s position child) child)"
  by auto
termination
  by (relation "measure (\<lambda>(s, p). ts_len s - p)") (auto simp: Let_def split: if_splits)

declare sift_up.simps [simp del] sift_down.simps [simp del]

definition timer_schedule :: "TimerScheduler \<Rightarrow> TimerEntry \<Rightarrow> TimerScheduler \<times> bool" where
  "timer_schedule s entry =
     (let slot = unat (te_slot entry)
      in if \<not> slot < length (ts_positions s) then (s, False)
         else let encoded_position = ts_positions s ! slot
              in if encoded_position \<noteq> NONE_POSITION
                 then let position = unat encoded_position
                      in if position \<ge> ts_len s then (s, False)
                         else let previous = ts_heap s ! position;
                                  s1 = s\<lparr>ts_heap := (ts_heap s)[position := entry]\<rparr>
                              in if precedes entry previous then (sift_up s1 position, True)
                                 else if precedes previous entry then (sift_down s1 position, True)
                                 else (s1, True)
                 else if ts_len s = length (ts_heap s) then (s, False)
                 else case u32_try_from (ts_len s) of
                        None \<Rightarrow> (s, False)
                      | Some position \<Rightarrow>
                          if position = NONE_POSITION then (s, False)
                          else let s1 = s\<lparr>ts_heap := (ts_heap s)[ts_len s := entry],
                                          ts_positions := (ts_positions s)[slot := position],
                                          ts_len := ts_len s + 1\<rparr>
                               in (sift_up s1 (ts_len s1 - 1), True))"

definition remove_at :: "TimerScheduler \<Rightarrow> usize \<Rightarrow> TimerScheduler \<times> TimerEntry option" where
  "remove_at s position =
     (if position \<ge> ts_len s then (s, None)
      else let removed = ts_heap s ! position; removed_slot = unat (te_slot removed)
           in if \<not> removed_slot < length (ts_positions s) then (s, None)
              else let s1 = s\<lparr>ts_positions := (ts_positions s)[removed_slot := NONE_POSITION],
                              ts_len := ts_len s - 1\<rparr>
                   in if position = ts_len s1
                      then (s1\<lparr>ts_heap := (ts_heap s1)[ts_len s1 := TIMER_ENTRY_EMPTY]\<rparr>, Some removed)
                      else let moved = ts_heap s1 ! ts_len s1;
                               s2 = s1\<lparr>ts_heap := (ts_heap s1)[ts_len s1 := TIMER_ENTRY_EMPTY,
                                                              position := moved]\<rparr>;
                               s3 = set_position s2 moved position
                           in if position \<noteq> 0 \<and> entry_precedes s3 position ((position - 1) div 2)
                              then (sift_up s3 position, Some removed)
                              else (sift_down s3 position, Some removed))"

definition timer_sched_cancel :: "TimerScheduler \<Rightarrow> u32 \<Rightarrow> TimerScheduler \<times> TimerEntry option" where
  "timer_sched_cancel s qp_slot =
     (let slot = unat qp_slot
      in if \<not> slot < length (ts_positions s) then (s, None)
         else let position = ts_positions s ! slot
              in if position = NONE_POSITION then (s, None)
                 else remove_at s (unat position))"

definition timer_peek :: "TimerScheduler \<Rightarrow> TimerEntry option" where
  "timer_peek s = (if ts_len s = 0 then None else Some (ts_heap s ! 0))"

definition next_deadline :: "TimerScheduler \<Rightarrow> u64 option" where
  "next_deadline s = map_option te_deadline (timer_peek s)"

definition timer_pop :: "TimerScheduler \<Rightarrow> TimerScheduler \<times> TimerEntry option" where
  "timer_pop s = (if ts_len s \<noteq> 0 then remove_at s 0 else (s, None))"

definition pop_expired :: "TimerScheduler \<Rightarrow> u64 \<Rightarrow> TimerScheduler \<times> TimerEntry option" where
  "pop_expired s now =
     (case timer_peek s of
        None \<Rightarrow> (s, None)
      | Some entry \<Rightarrow> if te_deadline entry \<le> now then timer_pop s else (s, None))"

partial_function (option) timer_clear :: "TimerScheduler \<Rightarrow> TimerScheduler option" where
  "timer_clear s =
     (case timer_pop s of (s', Some _) \<Rightarrow> timer_clear s' | (s', None) \<Rightarrow> Some s')"

section \<open>Binary heaps\<close>

definition parent :: "nat \<Rightarrow> nat" where
  "parent i = (i - 1) div 2"

definition is_heap :: "nat \<Rightarrow> 'a::linorder list \<Rightarrow> bool" where
  "is_heap n h \<longleftrightarrow> (\<forall>i < n. i \<noteq> 0 \<longrightarrow> h ! parent i \<le> h ! i)"

text \<open>A heap except that the value at \<open>p\<close> may be too small, or too large.\<close>

definition heap_up :: "nat \<Rightarrow> 'a::linorder list \<Rightarrow> nat \<Rightarrow> bool" where
  "heap_up n h p \<longleftrightarrow>
     (\<forall>i < n. i \<noteq> 0 \<longrightarrow> i \<noteq> p \<longrightarrow> h ! parent i \<le> h ! i) \<and>
     (\<forall>i < n. i \<noteq> 0 \<longrightarrow> parent i = p \<longrightarrow> p \<noteq> 0 \<longrightarrow> h ! parent p \<le> h ! i)"

definition heap_down :: "nat \<Rightarrow> 'a::linorder list \<Rightarrow> nat \<Rightarrow> bool" where
  "heap_down n h p \<longleftrightarrow>
     (\<forall>i < n. i \<noteq> 0 \<longrightarrow> parent i \<noteq> p \<longrightarrow> h ! parent i \<le> h ! i) \<and>
     (\<forall>i < n. i \<noteq> 0 \<longrightarrow> parent i = p \<longrightarrow> p \<noteq> 0 \<longrightarrow> h ! parent p \<le> h ! i)"

definition swap :: "'a list \<Rightarrow> nat \<Rightarrow> nat \<Rightarrow> 'a list" where
  "swap h i j = h[i := h ! j, j := h ! i]"

lemma nth_swap:
  "i < length h \<Longrightarrow> j < length h \<Longrightarrow>
   swap h i j ! k = (if k = i then h ! j else if k = j then h ! i else h ! k)"
  by (auto simp: swap_def nth_list_update)

lemma parent_less: "i \<noteq> 0 \<Longrightarrow> parent i < i"
  by (auto simp: parent_def)

lemma parent_eq: "i \<noteq> 0 \<Longrightarrow> parent i = p \<longleftrightarrow> i = 2 * p + 1 \<or> i = 2 * p + 2"
  by (auto simp: parent_def) 

lemma heap_up_stop: "heap_up n h p \<Longrightarrow> p = 0 \<or> h ! parent p \<le> h ! p \<Longrightarrow> is_heap n h"
  unfolding heap_up_def is_heap_def by auto

lemma heap_up_step:
  assumes up: "heap_up n h p" and p: "p \<noteq> 0" "p < n" "n \<le> length h" and lt: "h ! p < h ! parent p"
  shows "heap_up n (swap h p (parent p)) (parent p)"
proof -
  let ?q = "parent p" and ?h = "swap h p (parent p)"
  have q: "?q < p" using parent_less p by blast
  have nth: "?h ! k = (if k = p then h ! ?q else if k = ?q then h ! p else h ! k)" for k
    using nth_swap [of p h ?q k] q p by simp
  have one: "h ! parent i \<le> h ! i" if "i < n" "i \<noteq> 0" "i \<noteq> p" for i
    using up that by (simp add: heap_up_def)
  have two: "h ! ?q \<le> h ! i" if "i < n" "i \<noteq> 0" "parent i = p" for i
    using up that p(1) by (simp add: heap_up_def)
  have "?h ! parent i \<le> ?h ! i" if i: "i < n" "i \<noteq> 0" "i \<noteq> ?q" for i
  proof (cases "i = p")
    case True
    then show ?thesis using lt q by (simp add: nth)
  next
    case False
    consider "parent i = p" | "parent i = ?q" | "parent i \<noteq> p" "parent i \<noteq> ?q" by blast
    then show ?thesis
      using one [OF i(1,2) False] two [OF i(1,2)] lt False i(3) q by cases (auto simp: nth)
  qed
  moreover have "?h ! parent ?q \<le> ?h ! i" if i: "i < n" "i \<noteq> 0" "parent i = ?q" "?q \<noteq> 0" for i
  proof -
    have "parent ?q < ?q" using parent_less i(4) by blast
    then have "?h ! parent ?q = h ! parent ?q" using q by (simp add: nth)
    moreover have "h ! parent ?q \<le> h ! ?q" using one [of ?q] i(4) q p by simp
    moreover have "h ! ?q \<le> ?h ! i"
      using one [OF i(1,2)] i(3) q parent_less [OF i(2)] by (auto simp: nth)
    ultimately show ?thesis by simp
  qed
  ultimately show ?thesis by (simp add: heap_up_def)
qed

lemma heap_down_stop:
  "heap_down n h p \<Longrightarrow> (\<And>i. i < n \<Longrightarrow> i \<noteq> 0 \<Longrightarrow> parent i = p \<Longrightarrow> h ! p \<le> h ! i) \<Longrightarrow> is_heap n h"
  unfolding heap_down_def is_heap_def by blast

lemma heap_down_step:
  assumes down: "heap_down n h p" and c: "parent c = p" "c \<noteq> 0" "c < n" "n \<le> length h"
    and lt: "h ! c < h ! p" and least: "\<And>i. i < n \<Longrightarrow> i \<noteq> 0 \<Longrightarrow> parent i = p \<Longrightarrow> h ! c \<le> h ! i"
  shows "heap_down n (swap h p c) c"
proof -
  let ?h = "swap h p c"
  have p: "p < c" using parent_less c by blast
  have nth: "?h ! k = (if k = p then h ! c else if k = c then h ! p else h ! k)" for k
    using nth_swap [of p h c k] p c by simp
  have one: "h ! parent i \<le> h ! i" if "i < n" "i \<noteq> 0" "parent i \<noteq> p" for i
    using down that by (simp add: heap_down_def)
  have two: "h ! parent p \<le> h ! i" if "i < n" "i \<noteq> 0" "parent i = p" "p \<noteq> 0" for i
    using down that by (simp add: heap_down_def)
  have "?h ! parent i \<le> ?h ! i" if i: "i < n" "i \<noteq> 0" "parent i \<noteq> c" for i
  proof (cases "parent i = p")
    case True
    then show ?thesis using least [OF i(1,2)] lt i(3) p parent_less [OF i(2)] by (auto simp: nth)
  next
    case False
    then show ?thesis
      using one [OF i(1,2) False] two [of c] c i p parent_less [of i] by (auto simp: nth)
  qed
  moreover have "?h ! parent c \<le> ?h ! i" if i: "i < n" "i \<noteq> 0" "parent i = c" for i
    using one [OF i(1,2)] i(3) p c(1) parent_less [OF i(2)] by (auto simp: nth)
  ultimately show ?thesis by (simp add: heap_down_def)
qed

lemma heap_root_least: "is_heap n h \<Longrightarrow> i < n \<Longrightarrow> h ! 0 \<le> h ! i"
proof (induction i rule: less_induct)
  case (less i)
  show ?case
  proof (cases "i = 0")
    case False
    then have "h ! 0 \<le> h ! parent i" using less parent_less [OF False] by simp
    also have "\<dots> \<le> h ! i" using less.prems False by (simp add: is_heap_def)
    finally show ?thesis .
  qed simp
qed

section \<open>The position index\<close>

definition indexed :: "TimerScheduler \<Rightarrow> bool" where
  "indexed s \<longleftrightarrow>
     length (ts_positions s) = length (ts_heap s) \<and> ts_len s \<le> length (ts_heap s) \<and>
     ts_len s \<le> 2 ^ 32 - 1 \<and>
     (\<forall>i < ts_len s. unat (te_slot (ts_heap s ! i)) < length (ts_positions s) \<and>
        ts_positions s ! unat (te_slot (ts_heap s ! i)) = of_nat i) \<and>
     (\<forall>k < length (ts_positions s). ts_positions s ! k \<noteq> NONE_POSITION \<longrightarrow>
        (\<exists>i < ts_len s. unat (te_slot (ts_heap s ! i)) = k))"

definition live :: "TimerScheduler \<Rightarrow> TimerEntry set" where
  "live s = set (take (ts_len s) (ts_heap s))"

lemma indexedD:
  assumes "indexed s"
  shows "length (ts_positions s) = length (ts_heap s)" "ts_len s \<le> length (ts_heap s)"
    "ts_len s \<le> 2 ^ 32 - 1"
    "\<And>i. i < ts_len s \<Longrightarrow> unat (te_slot (ts_heap s ! i)) < length (ts_positions s)"
    "\<And>i. i < ts_len s \<Longrightarrow> ts_positions s ! unat (te_slot (ts_heap s ! i)) = of_nat i"
    "\<And>k. k < length (ts_positions s) \<Longrightarrow> ts_positions s ! k \<noteq> NONE_POSITION \<Longrightarrow>
       \<exists>i < ts_len s. unat (te_slot (ts_heap s ! i)) = k"
  using assms unfolding indexed_def by blast+

lemma of_nat_position:
  assumes "i < 2 ^ 32 - 1"
  shows "unat (of_nat i :: u32) = i" "(of_nat i :: u32) \<noteq> NONE_POSITION" "u32_try_from i = Some (of_nat i)"
  using of_nat_link [OF assms] assms by (simp_all add: NONE_LINK_def NONE_POSITION_def u32_try_from_def)

lemma indexed_slot_inj:
  assumes "indexed s" and "i < ts_len s" and "j < ts_len s"
    and "te_slot (ts_heap s ! i) = te_slot (ts_heap s ! j)"
  shows "i = j"
proof -
  have "(of_nat i :: u32) = of_nat j"
    using indexedD(5) [OF assms(1,2)] indexedD(5) [OF assms(1,3)] assms(4) by simp
  then have "unat (of_nat i :: u32) = unat (of_nat j :: u32)" by simp
  then show ?thesis using of_nat_position(1) indexedD(3) [OF assms(1)] assms(2,3) by simp
qed

lemma live_iff:
  assumes "indexed s"
  shows "e \<in> live s \<longleftrightarrow> (\<exists>i < ts_len s. ts_heap s ! i = e)"
  using indexedD(2) [OF assms] by (auto simp: live_def in_set_conv_nth)

lemma timer_get_iff:
  assumes "indexed s"
  shows "timer_get s k = Some e \<longleftrightarrow> e \<in> live s \<and> te_slot e = k"
proof
  assume "timer_get s k = Some e"
  then have k: "unat k < length (ts_positions s)" "ts_positions s ! unat k \<noteq> NONE_POSITION"
    and e: "e = ts_heap s ! unat (ts_positions s ! unat k)"
    by (auto simp: timer_get_def Let_def split: if_splits)
  then obtain i where i: "i < ts_len s" "unat (te_slot (ts_heap s ! i)) = unat k"
    using indexedD(6) [OF assms] by blast
  then have "unat (ts_positions s ! unat k) = i"
    using indexedD(5) [OF assms i(1)] of_nat_position(1) [of i] indexedD(3) [OF assms] by simp
  then show "e \<in> live s \<and> te_slot e = k"
    using e i live_iff [OF assms] by (auto simp: word_unat_eq_iff)
next
  assume "e \<in> live s \<and> te_slot e = k"
  then obtain i where i: "i < ts_len s" "ts_heap s ! i = e" "te_slot e = k"
    using live_iff [OF assms] by blast
  then show "timer_get s k = Some e"
    using indexedD(3-5) [OF assms] of_nat_position(1,2) [of i]
    by (auto simp: timer_get_def Let_def)
qed

lemma set_position_eq:
  "unat (te_slot e) < length (ts_positions s) \<Longrightarrow> p < 2 ^ 32 - 1 \<Longrightarrow>
   set_position s e p = s\<lparr>ts_positions := (ts_positions s)[unat (te_slot e) := of_nat p]\<rparr>"
  using of_nat_position [of p] by (simp add: set_position_def)

lemma swap_entries_eq:
  assumes "indexed s" and "i < ts_len s" and "j < ts_len s"
  shows "swap_entries s i j = s\<lparr>ts_heap := swap (ts_heap s) i j,
    ts_positions := (ts_positions s)[unat (te_slot (ts_heap s ! j)) := of_nat i,
                                     unat (te_slot (ts_heap s ! i)) := of_nat j]\<rparr>"
proof -
  have "i < length (ts_heap s)" "j < length (ts_heap s)" "i < 2 ^ 32 - 1" "j < 2 ^ 32 - 1"
    using assms indexedD(2,3) [OF assms(1)] by auto
  then show ?thesis
    using indexedD(4) [OF assms(1,2)] indexedD(4) [OF assms(1,3)]
      nth_swap [of i "ts_heap s" j i] nth_swap [of i "ts_heap s" j j]
    by (simp add: swap_entries_def Let_def set_position_eq flip: swap_def)
qed

lemma swap_entries_ok:
  assumes "indexed s" and "i < ts_len s" and "j < ts_len s" and "i \<noteq> j"
  shows "indexed (swap_entries s i j)" "live (swap_entries s i j) = live s"
    "ts_heap (swap_entries s i j) = swap (ts_heap s) i j"
proof -
  note d = indexedD [OF assms(1)]
  let ?h = "ts_heap s" and ?s = "swap_entries s i j"
  let ?si = "unat (te_slot (?h ! i))" and ?sj = "unat (te_slot (?h ! j))"
  have ij: "i < length ?h" "j < length ?h" using assms d(2) by auto
  have neq: "?si \<noteq> ?sj" using indexed_slot_inj [OF assms(1-3)] assms(4) by (auto simp: word_unat_eq_iff)
  have lens: "?si < length (ts_positions s)" "?sj < length (ts_positions s)" using d(4) assms(2,3) by auto
  show heap: "ts_heap ?s = swap ?h i j" by (simp add: swap_entries_eq [OF assms(1-3)])
  have nth: "swap ?h i j ! k = (if k = i then ?h ! j else if k = j then ?h ! i else ?h ! k)" for k
    using nth_swap [OF ij] .
  have "take (ts_len s) (swap ?h i j) = swap (take (ts_len s) ?h) i j"
    using assms(2,3) by (simp add: swap_def take_update_swap)
  then show "live ?s = live s"
    using set_swap [of i "take (ts_len s) ?h" j] assms(2,3) ij by (simp add: live_def heap swap_def)
  have pos: "ts_positions ?s ! k = (if k = ?si then of_nat j else if k = ?sj then of_nat i else ts_positions s ! k)"
    if "k < length (ts_positions s)" for k
    using that lens neq by (auto simp: swap_entries_eq [OF assms(1-3)] nth_list_update)
  have "unat (te_slot (swap ?h i j ! k)) < length (ts_positions s) \<and>
      ts_positions ?s ! unat (te_slot (swap ?h i j ! k)) = of_nat k" if "k < ts_len s" for k
    using d(4) [OF that] d(5) [OF that] lens neq pos indexed_slot_inj [OF assms(1) that] assms
    by (auto simp: nth word_unat_eq_iff)
  moreover have "\<exists>l < ts_len s. unat (te_slot (swap ?h i j ! l)) = k"
    if k: "k < length (ts_positions s)" "ts_positions ?s ! k \<noteq> NONE_POSITION" for k
  proof -
    have "\<exists>l < ts_len s. unat (te_slot (?h ! l)) = k"
      using d(6) [OF k(1)] pos [OF k(1)] k(2) assms(2,3) by (auto split: if_splits)
    then obtain l where "l < ts_len s" "unat (te_slot (?h ! l)) = k" by blast
    then show ?thesis
      using assms(2,3) by (intro exI [of _ "if l = i then j else if l = j then i else l"]) (auto simp: nth)
  qed
  ultimately show "indexed ?s"
    unfolding indexed_def heap using d(1-3) by (simp add: swap_entries_eq [OF assms(1-3)] swap_def)
qed

lemma sift_up_ok:
  assumes "indexed s" and "p < ts_len s" and "heap_up (ts_len s) (ts_heap s) p"
  shows "indexed (sift_up s p) \<and> is_heap (ts_len s) (ts_heap (sift_up s p)) \<and>
    live (sift_up s p) = live s \<and> ts_len (sift_up s p) = ts_len s \<and>
    length (ts_heap (sift_up s p)) = length (ts_heap s)"
  using assms
proof (induction s p rule: sift_up.induct)
  case (1 s p)
  show ?case
  proof (cases "p \<noteq> 0 \<and> entry_precedes s p (parent p)")
    case False
    then have "sift_up s p = s" by (subst sift_up.simps) (auto simp: Let_def parent_def)
    moreover have "p = 0 \<or> ts_heap s ! parent p \<le> ts_heap s ! p"
      using False by (auto simp: entry_precedes_def precedes_less)
    ultimately show ?thesis using "1.prems" heap_up_stop by simp
  next
    case True
    have pp: "parent p < p" using True parent_less by blast
    let ?s = "swap_entries s p (parent p)"
    have up: "sift_up s p = sift_up ?s (parent p)"
      using True by (subst sift_up.simps) (simp add: Let_def parent_def)
    note sw = swap_entries_ok [OF "1.prems"(1,2), of "parent p"]
    have "heap_up (ts_len s) (ts_heap ?s) (parent p)"
      using heap_up_step [OF "1.prems"(3) _ "1.prems"(2) indexedD(2) [OF "1.prems"(1)]] True sw(3) pp "1.prems"(2)
      by (simp add: entry_precedes_def precedes_less)
    moreover have "\<not> \<not> entry_precedes s p ((p - 1) div 2)" using True by (simp add: parent_def)
    ultimately have "indexed (sift_up ?s (parent p)) \<and> is_heap (ts_len ?s) (ts_heap (sift_up ?s (parent p))) \<and>
      live (sift_up ?s (parent p)) = live ?s \<and> ts_len (sift_up ?s (parent p)) = ts_len ?s \<and>
      length (ts_heap (sift_up ?s (parent p))) = length (ts_heap ?s)"
      using "1.IH" [of "parent p"] True sw pp "1.prems" by (simp add: parent_def)
    then show ?thesis using up sw pp "1.prems"(2) by (simp add: swap_def)
  qed
qed

lemma sift_down_ok:
  assumes "indexed s" and "p < ts_len s" and "heap_down (ts_len s) (ts_heap s) p"
  shows "indexed (sift_down s p) \<and> is_heap (ts_len s) (ts_heap (sift_down s p)) \<and>
    live (sift_down s p) = live s \<and> ts_len (sift_down s p) = ts_len s \<and>
    length (ts_heap (sift_down s p)) = length (ts_heap s)"
  using assms
proof (induction s p rule: sift_down.induct)
  case (1 s p)
  let ?n = "ts_len s" and ?h = "ts_heap s" and ?l = "p * 2 + 1"
  define c where c_def: "c = (if ?l + 1 < ?n \<and> entry_precedes s (?l + 1) ?l then ?l + 1 else ?l)"
  have unfold: "sift_down s p =
      (if ?l \<ge> ?n then s else if \<not> entry_precedes s c p then s else sift_down (swap_entries s p c) c)"
    by (subst sift_down.simps) (simp only: Let_def c_def)
  have child: "parent i = p \<longleftrightarrow> i = ?l \<or> i = ?l + 1" if "i \<noteq> 0" for i
    using parent_eq [OF that] by (simp add: mult.commute)
  have least: "?h ! c \<le> ?h ! i" if "i < ?n" "i \<noteq> 0" "parent i = p" for i
    using that child [OF that(2)] by (auto simp: c_def entry_precedes_def precedes_less)
  show ?case
  proof (cases "?l < ?n \<and> entry_precedes s c p")
    case False
    then have "sift_down s p = s" using unfold by auto
    moreover have "?h ! p \<le> ?h ! i" if i: "i < ?n" "i \<noteq> 0" "parent i = p" for i
    proof -
      have "?l < ?n" using i child [OF i(2)] by auto
      then have "?h ! p \<le> ?h ! c"
        using False by (simp add: entry_precedes_def precedes_less not_less)
      then show ?thesis using least [OF i] by (rule order_trans)
    qed
    then have "is_heap ?n ?h" by (rule heap_down_stop [OF "1.prems"(3)])
    ultimately show ?thesis using "1.prems"(1) by simp
  next
    case True
    let ?s = "swap_entries s p c"
    have c: "c < ?n" "c \<noteq> 0" "p < c" "parent c = p" using True child by (auto simp: c_def)
    have down: "sift_down s p = sift_down ?s c" using True unfold by simp
    note sw = swap_entries_ok [OF "1.prems"(1,2) c(1)]
    have lt: "?h ! c < ?h ! p" using True by (simp add: entry_precedes_def precedes_less)
    have "heap_down ?n (swap ?h p c) c"
      by (rule heap_down_step [OF "1.prems"(3) c(4,2,1) indexedD(2) [OF "1.prems"(1)] lt least])
    then have "heap_down ?n (ts_heap ?s) c" using sw(3) c(3) by simp
    moreover have "\<not> ?l \<ge> ?n" "\<not> \<not> entry_precedes s c p" using True by simp_all
    ultimately have "indexed (sift_down ?s c) \<and> is_heap (ts_len ?s) (ts_heap (sift_down ?s c)) \<and>
      live (sift_down ?s c) = live ?s \<and> ts_len (sift_down ?s c) = ts_len ?s \<and>
      length (ts_heap (sift_down ?s c)) = length (ts_heap ?s)"
      using sw(1) c by (intro "1.IH" [OF refl _ refl c_def]) simp_all
    then show ?thesis using down sw c(3) by (simp add: swap_def)
  qed
qed

section \<open>Operations on the set of armed timers\<close>

definition timer_inv :: "TimerScheduler \<Rightarrow> bool" where
  "timer_inv s \<longleftrightarrow>
     indexed s \<and> is_heap (ts_len s) (ts_heap s) \<and> length (ts_heap s) \<le> 2 ^ 32 - 1"

lemma timer_map_eqI:
  assumes "indexed s" and "\<And>e. e \<in> live s \<longleftrightarrow> m (te_slot e) = Some e"
    and "\<And>k e. m k = Some e \<Longrightarrow> te_slot e = k"
  shows "timer_get s = m"
proof
  fix k
  show "timer_get s k = m k"
    using timer_get_iff [OF assms(1), of k] assms(2,3)
    by (metis not_None_eq)
qed

lemma nth_take_live:
  assumes "ts_len s \<le> length (ts_heap s)"
  shows "e \<in> live s \<longleftrightarrow> (\<exists>i < ts_len s. ts_heap s ! i = e)"
  using assms by (auto simp: live_def in_set_conv_nth)

text \<open>Replacing the entry of a slot that is armed.\<close>

lemma replace_entry:
  assumes "timer_inv s" and "q < ts_len s" and "te_slot e = te_slot (ts_heap s ! q)"
  defines "s1 \<equiv> s\<lparr>ts_heap := (ts_heap s)[q := e]\<rparr>"
  shows "indexed s1" "e' \<in> live s1 \<longleftrightarrow> e' = e \<or> (e' \<in> live s \<and> te_slot e' \<noteq> te_slot e)"
    "e < ts_heap s ! q \<Longrightarrow> heap_up (ts_len s1) (ts_heap s1) q"
    "ts_heap s ! q < e \<Longrightarrow> heap_down (ts_len s1) (ts_heap s1) q"
proof -
  have ix: "indexed s" and hp: "is_heap (ts_len s) (ts_heap s)" using assms(1) by (simp_all add: timer_inv_def)
  note d = indexedD [OF ix]
  have q: "q < length (ts_heap s)" using assms(2) d(2) by simp
  have slots: "te_slot (ts_heap s1 ! i) = te_slot (ts_heap s ! i)" for i
    using q assms(3) by (simp add: s1_def nth_list_update)
  show ix1: "indexed s1"
    using ix unfolding indexed_def slots by (auto simp: s1_def)
  have "e' \<in> live s1 \<longleftrightarrow> (\<exists>i < ts_len s. (ts_heap s)[q := e] ! i = e')"
    using live_iff [OF ix1] by (simp add: s1_def)
  also have "\<dots> \<longleftrightarrow> e' = e \<or> (\<exists>i < ts_len s. i \<noteq> q \<and> ts_heap s ! i = e')"
    using q assms(2) by (auto simp: nth_list_update)
  also have "\<dots> \<longleftrightarrow> e' = e \<or> (e' \<in> live s \<and> te_slot e' \<noteq> te_slot e)"
    using live_iff [OF ix] indexed_slot_inj [OF ix _ assms(2)] assms(3) by metis
  finally show "e' \<in> live s1 \<longleftrightarrow> e' = e \<or> (e' \<in> live s \<and> te_slot e' \<noteq> te_slot e)" .
  have h: "ts_heap s ! parent i \<le> ts_heap s ! i" if "i < ts_len s" "i \<noteq> 0" for i
    using hp that by (simp add: is_heap_def)
  have nth: "ts_heap s1 ! i = (if i = q then e else ts_heap s ! i)" for i
    using q by (simp add: s1_def nth_list_update)
  have via: "ts_heap s ! parent q \<le> ts_heap s ! i" if "i < ts_len s" "i \<noteq> 0" "parent i = q" "q \<noteq> 0" for i
    using h [OF assms(2) that(4)] h [OF that(1,2)] that(3) by simp
  show "heap_up (ts_len s1) (ts_heap s1) q" if "e < ts_heap s ! q"
    unfolding heap_up_def nth using h via that parent_less assms(2)
    by (auto simp: s1_def) (meson less_imp_le order_trans)+
  show "heap_down (ts_len s1) (ts_heap s1) q" if "ts_heap s ! q < e"
  proof -
    have pq: "parent q \<noteq> q" if "q \<noteq> 0" using parent_less [OF that] by simp
    have "ts_heap s1 ! parent i \<le> ts_heap s1 ! i" if i: "i < ts_len s" "i \<noteq> 0" "parent i \<noteq> q" for i
      using h [OF i(1,2)] i(3) \<open>ts_heap s ! q < e\<close> by (cases "i = q") (auto simp: nth)
    moreover have "ts_heap s1 ! parent q \<le> ts_heap s1 ! i"
      if i: "i < ts_len s" "i \<noteq> 0" "parent i = q" "q \<noteq> 0" for i
      using via [OF i] pq [OF i(4)] parent_less [OF i(2)] i(3) by (auto simp: nth)
    ultimately show ?thesis by (simp add: heap_down_def s1_def)
  qed
qed

text \<open>Arming a slot that has no timer: there is always room for it.\<close>

lemma unarmed_has_room:
  assumes "indexed s" and "k < length (ts_positions s)" and "ts_positions s ! k = NONE_POSITION"
    and "length (ts_heap s) \<le> 2 ^ 32 - 1"
  shows "ts_len s < length (ts_heap s)"
proof -
  note d = indexedD [OF assms(1)]
  let ?f = "\<lambda>i. unat (te_slot (ts_heap s ! i))"
  have "?f i \<noteq> k" if "i < ts_len s" for i
    using d(5) [OF that] of_nat_position(2) [of i] d(3) that assms(3) by auto
  then have "?f ` {..< ts_len s} \<subseteq> {..< length (ts_positions s)} - {k}"
    using d(4) by auto
  moreover have "inj_on ?f {..< ts_len s}"
    using indexed_slot_inj [OF assms(1)] by (auto simp: inj_on_def word_unat_eq_iff)
  ultimately have "card {..< ts_len s} \<le> card ({..< length (ts_positions s)} - {k})"
    by (intro card_inj_on_le) auto
  then show ?thesis using assms(2) d(1) by simp
qed

lemma append_entry:
  assumes "timer_inv s" and "unat (te_slot e) < length (ts_positions s)"
    and "ts_positions s ! unat (te_slot e) = NONE_POSITION"
  defines "s1 \<equiv> s\<lparr>ts_heap := (ts_heap s)[ts_len s := e],
    ts_positions := (ts_positions s)[unat (te_slot e) := of_nat (ts_len s)], ts_len := ts_len s + 1\<rparr>"
  shows "indexed s1" "e' \<in> live s1 \<longleftrightarrow> e' = e \<or> (e' \<in> live s \<and> te_slot e' \<noteq> te_slot e)"
    "heap_up (ts_len s1) (ts_heap s1) (ts_len s)"
proof -
  have ix: "indexed s" and hp: "is_heap (ts_len s) (ts_heap s)" and cap: "length (ts_heap s) \<le> 2 ^ 32 - 1"
    using assms(1) by (simp_all add: timer_inv_def)
  note d = indexedD [OF ix]
  have room: "ts_len s < length (ts_heap s)" by (rule unarmed_has_room [OF ix assms(2,3) cap])
  have nth: "ts_heap s1 ! i = (if i = ts_len s then e else ts_heap s ! i)" for i
    using room by (simp add: s1_def nth_list_update)
  have pos: "ts_positions s1 ! k = (if k = unat (te_slot e) then of_nat (ts_len s) else ts_positions s ! k)" for k
    using assms(2) by (simp add: s1_def nth_list_update)
  have fresh: "te_slot (ts_heap s ! i) \<noteq> te_slot e" if "i < ts_len s" for i
    using d(5) [OF that] of_nat_position(2) [of i] d(3) that assms(3) by auto
  have fl: "te_slot e' \<noteq> te_slot e" if "e' \<in> live s" for e'
    using that fresh unfolding live_iff [OF ix] by auto
  have "unat (te_slot (ts_heap s1 ! i)) < length (ts_positions s) \<and>
      ts_positions s1 ! unat (te_slot (ts_heap s1 ! i)) = of_nat i" if "i < ts_len s + 1" for i
    using that d(4) [of i] d(5) [of i] fresh [of i] assms(2) by (auto simp: nth pos word_unat_eq_iff)
  moreover have "\<exists>i < ts_len s + 1. unat (te_slot (ts_heap s1 ! i)) = k"
    if k: "k < length (ts_positions s)" "ts_positions s1 ! k \<noteq> NONE_POSITION" for k
  proof (cases "k = unat (te_slot e)")
    case True
    then show ?thesis by (intro exI [of _ "ts_len s"]) (simp add: nth)
  next
    case False
    then obtain i where "i < ts_len s" "unat (te_slot (ts_heap s ! i)) = k"
      using d(6) [OF k(1)] k(2) by (auto simp: pos)
    then show ?thesis by (intro exI [of _ i]) (simp add: nth)
  qed
  ultimately show ix1: "indexed s1"
    unfolding indexed_def using d(1-3) room cap by (simp add: s1_def)
  have "e' \<in> live s1 \<longleftrightarrow> (\<exists>i < ts_len s + 1. ts_heap s1 ! i = e')"
    using live_iff [OF ix1] by (simp add: s1_def)
  also have "\<dots> \<longleftrightarrow> e' = e \<or> e' \<in> live s"
    unfolding live_iff [OF ix] nth using less_Suc_eq [of _ "ts_len s"]
    by (metis Suc_eq_plus1 less_irrefl)
  also have "\<dots> \<longleftrightarrow> e' = e \<or> (e' \<in> live s \<and> te_slot e' \<noteq> te_slot e)"
    using fl by blast
  finally show "e' \<in> live s1 \<longleftrightarrow> e' = e \<or> (e' \<in> live s \<and> te_slot e' \<noteq> te_slot e)" .
  have "ts_heap s1 ! parent i \<le> ts_heap s1 ! i" if "i < ts_len s + 1" "i \<noteq> 0" "i \<noteq> ts_len s" for i
    using hp that parent_less [OF that(2)] by (simp add: nth is_heap_def)
  then show "heap_up (ts_len s1) (ts_heap s1) (ts_len s)"
    unfolding heap_up_def using parent_less by (auto simp: s1_def) (metis less_antisym not_less_iff_gr_or_eq)
qed

lemma timer_get_update:
  assumes "indexed s" and "indexed s'"
    and "\<And>e'. e' \<in> live s' \<longleftrightarrow> e' = e \<or> (e' \<in> live s \<and> te_slot e' \<noteq> te_slot e)"
  shows "timer_get s' = (timer_get s)(te_slot e \<mapsto> e)"
  using assms(3) timer_get_iff [OF assms(1)]
  by (intro timer_map_eqI [OF assms(2)]) (auto split: if_splits)

lemma timer_get_delete:
  assumes "indexed s" and "indexed s'"
    and "\<And>e'. e' \<in> live s' \<longleftrightarrow> e' \<in> live s \<and> te_slot e' \<noteq> k"
  shows "timer_get s' = (timer_get s)(k := None)"
  using assms(3) timer_get_iff [OF assms(1)]
  by (intro timer_map_eqI [OF assms(2)]) (auto split: if_splits)

lemma timer_schedule_ok:
  assumes "timer_inv s" and "unat (te_slot e) < length (ts_positions s)"
  shows "timer_inv (fst (timer_schedule s e)) \<and> snd (timer_schedule s e) \<and>
    timer_get (fst (timer_schedule s e)) = (timer_get s)(te_slot e \<mapsto> e) \<and>
    length (ts_positions (fst (timer_schedule s e))) = length (ts_positions s)"
proof -
  have ix: "indexed s" and hp: "is_heap (ts_len s) (ts_heap s)" and cap: "length (ts_heap s) \<le> 2 ^ 32 - 1"
    using assms(1) by (simp_all add: timer_inv_def)
  note d = indexedD [OF ix]
  have finish: ?thesis
    if s1: "indexed s1" "\<And>e'. e' \<in> live s1 \<longleftrightarrow> e' = e \<or> (e' \<in> live s \<and> te_slot e' \<noteq> te_slot e)"
      "length (ts_heap s1) = length (ts_heap s)"
      and s2: "indexed s2 \<and> is_heap (ts_len s1) (ts_heap s2) \<and> live s2 = live s1 \<and> ts_len s2 = ts_len s1 \<and>
        length (ts_heap s2) = length (ts_heap s1)"
      and run: "timer_schedule s e = (s2, True)" for s1 s2
    using timer_get_update [OF ix, of s2 e] s1 s2 cap d(1) indexedD(1) [of s2]
    by (simp add: run timer_inv_def)
  let ?k = "unat (te_slot e)" and ?p = "ts_positions s ! unat (te_slot e)"
  show ?thesis
  proof (cases "?p = NONE_POSITION")
    case True
    note ap = append_entry [OF assms True]
    let ?s1 = "s\<lparr>ts_heap := (ts_heap s)[ts_len s := e],
      ts_positions := (ts_positions s)[?k := of_nat (ts_len s)], ts_len := ts_len s + 1\<rparr>"
    have room: "ts_len s < length (ts_heap s)" by (rule unarmed_has_room [OF ix assms(2) True cap])
    then have "timer_schedule s e = (sift_up ?s1 (ts_len s), True)"
      using True assms(2) of_nat_position [of "ts_len s"] cap by (simp add: timer_schedule_def Let_def)
    moreover have "indexed (sift_up ?s1 (ts_len s)) \<and> is_heap (ts_len ?s1) (ts_heap (sift_up ?s1 (ts_len s))) \<and>
      live (sift_up ?s1 (ts_len s)) = live ?s1 \<and> ts_len (sift_up ?s1 (ts_len s)) = ts_len ?s1 \<and>
      length (ts_heap (sift_up ?s1 (ts_len s))) = length (ts_heap ?s1)"
      by (rule sift_up_ok [OF ap(1) _ ap(3)]) simp
    ultimately show ?thesis by (intro finish [OF ap(1,2)]) simp_all
  next
    case False
    then obtain i where i: "i < ts_len s" "unat (te_slot (ts_heap s ! i)) = ?k" using d(6) [OF assms(2)] by blast
    then have slot: "te_slot e = te_slot (ts_heap s ! i)" by (simp add: word_unat_eq_iff)
    have pos: "unat ?p = i" using d(5) [OF i(1)] i(2) of_nat_position(1) [of i] d(3) i(1) by simp
    note rp = replace_entry [OF assms(1) i(1) slot]
    let ?s1 = "s\<lparr>ts_heap := (ts_heap s)[i := e]\<rparr>"
    have run: "timer_schedule s e = (if e < ts_heap s ! i then (sift_up ?s1 i, True)
        else if ts_heap s ! i < e then (sift_down ?s1 i, True) else (?s1, True))"
      using False assms(2) i(1) pos by (simp add: timer_schedule_def Let_def precedes_less)
    have i1: "i < ts_len ?s1" using i by simp
    consider "e < ts_heap s ! i" | "ts_heap s ! i < e" | "e = ts_heap s ! i" by fastforce
    then show ?thesis
    proof cases
      case 1
      then show ?thesis using run by (intro finish [OF rp(1,2) _ sift_up_ok [OF rp(1) i1 rp(3) [OF 1]]]) simp_all
    next
      case 2
      then show ?thesis
        using run by (intro finish [OF rp(1,2) _ sift_down_ok [OF rp(1) i1 rp(4) [OF 2]]]) simp_all
    next
      case 3
      then have "ts_heap ?s1 = ts_heap s" by simp
      then show ?thesis using run 3 hp rp(1) by (intro finish [OF rp(1,2)]) simp_all
    qed
  qed
qed

lemma timer_schedule_refused:
  "\<not> unat (te_slot e) < length (ts_positions s) \<Longrightarrow> timer_schedule s e = (s, False)"
  by (simp add: timer_schedule_def Let_def)

text \<open>Removing the entry at \<open>p\<close>: the last entry takes its place.\<close>

lemma fill_hole:
  assumes "timer_inv s" and "p < ts_len s"
  defines "r \<equiv> ts_heap s ! p" and "n \<equiv> ts_len s - 1"
  defines "s1 \<equiv> s\<lparr>ts_heap := (ts_heap s)[n := TIMER_ENTRY_EMPTY, p := ts_heap s ! n],
    ts_positions := (ts_positions s)[unat (te_slot r) := NONE_POSITION,
                                     unat (te_slot (ts_heap s ! n)) := of_nat p], ts_len := n\<rparr>"
  assumes "p \<noteq> n"
  shows "indexed s1" "e' \<in> live s1 \<longleftrightarrow> e' \<in> live s \<and> te_slot e' \<noteq> te_slot r"
    "p \<noteq> 0 \<and> ts_heap s1 ! p < ts_heap s1 ! parent p \<Longrightarrow> heap_up n (ts_heap s1) p"
    "\<not> (p \<noteq> 0 \<and> ts_heap s1 ! p < ts_heap s1 ! parent p) \<Longrightarrow> heap_down n (ts_heap s1) p"
proof -
  have ix: "indexed s" and hp: "is_heap (ts_len s) (ts_heap s)" using assms(1) by (simp_all add: timer_inv_def)
  note d = indexedD [OF ix]
  have n: "n < ts_len s" "n < length (ts_heap s)" "p < n" using assms(2,6) d(2) by (auto simp: n_def)
  let ?m = "ts_heap s ! n"
  have nth: "ts_heap s1 ! i = (if i = p then ?m else ts_heap s ! i)" if "i < n" for i
    using n that by (simp add: s1_def nth_list_update)
  have slots: "unat (te_slot r) < length (ts_positions s)" "unat (te_slot ?m) < length (ts_positions s)"
    "unat (te_slot ?m) \<noteq> unat (te_slot r)"
    using d(4) assms(2) n indexed_slot_inj [OF ix n(1) assms(2)] by (auto simp: r_def word_unat_eq_iff)
  have pos: "ts_positions s1 ! k = (if k = unat (te_slot ?m) then of_nat p
      else if k = unat (te_slot r) then NONE_POSITION else ts_positions s ! k)"
    if "k < length (ts_positions s)" for k
    using slots that by (simp add: s1_def nth_list_update)
  have inj: "te_slot (ts_heap s ! i) = te_slot (ts_heap s ! j) \<longleftrightarrow> i = j" if "i < ts_len s" "j < ts_len s" for i j
    using indexed_slot_inj [OF ix that] by auto
  have "unat (te_slot (ts_heap s1 ! i)) < length (ts_positions s) \<and>
      ts_positions s1 ! unat (te_slot (ts_heap s1 ! i)) = of_nat i" if i: "i < n" for i
  proof (cases "i = p")
    case True
    then show ?thesis using nth [OF i] slots pos by simp
  next
    case False
    have "i < ts_len s" using i n by simp
    then show ?thesis
      using False i n assms(2) nth [OF i] d(4,5) [of i] pos inj [of i n] inj [of i p]
      by (simp add: r_def flip: word_unat_eq_iff)
  qed
  moreover have "\<exists>i < n. unat (te_slot (ts_heap s1 ! i)) = k"
    if k: "k < length (ts_positions s)" "ts_positions s1 ! k \<noteq> NONE_POSITION" for k
  proof (cases "k = unat (te_slot ?m)")
    case True
    then show ?thesis using n nth by (intro exI [of _ p]) simp
  next
    case False
    then have "k \<noteq> unat (te_slot r)" "ts_positions s ! k \<noteq> NONE_POSITION"
      using k pos [OF k(1)] by (auto split: if_splits)
    then obtain i where i: "i < ts_len s" "unat (te_slot (ts_heap s ! i)) = k" using d(6) [OF k(1)] by blast
    then have "i \<noteq> p" "i \<noteq> n" using False \<open>k \<noteq> unat (te_slot r)\<close> by (auto simp: r_def)
    then show ?thesis using i nth n_def by (intro exI [of _ i]) auto
  qed
  ultimately show ix1: "indexed s1"
    unfolding indexed_def using d(1-3) n by (simp add: s1_def)
  have "e' \<in> live s1 \<longleftrightarrow> (\<exists>i < n. ts_heap s1 ! i = e')" using live_iff [OF ix1] by (simp add: s1_def)
  also have "\<dots> \<longleftrightarrow> (\<exists>i < ts_len s. i \<noteq> p \<and> ts_heap s ! i = e')"
  proof
    assume "\<exists>i < n. ts_heap s1 ! i = e'"
    then obtain i where i: "i < n" "ts_heap s1 ! i = e'" by blast
    then show "\<exists>i < ts_len s. i \<noteq> p \<and> ts_heap s ! i = e'"
      using nth [OF i(1)] n by (intro exI [of _ "if i = p then n else i"]) (auto split: if_splits)
  next
    assume "\<exists>i < ts_len s. i \<noteq> p \<and> ts_heap s ! i = e'"
    then obtain i where i: "i < ts_len s" "i \<noteq> p" "ts_heap s ! i = e'" by blast
    show "\<exists>i < n. ts_heap s1 ! i = e'"
    proof (cases "i = n")
      case True
      then show ?thesis using n nth i by (intro exI [of _ p]) simp
    next
      case False
      then have "i < n" using i by (simp add: n_def)
      then show ?thesis using nth i by (intro exI [of _ i]) simp
    qed
  qed
  also have "\<dots> \<longleftrightarrow> e' \<in> live s \<and> te_slot e' \<noteq> te_slot r"
    unfolding live_iff [OF ix] r_def using inj [OF _ assms(2)] by blast
  finally show "e' \<in> live s1 \<longleftrightarrow> e' \<in> live s \<and> te_slot e' \<noteq> te_slot r" .
  have h: "ts_heap s ! parent i \<le> ts_heap s ! i" if "i < n" "i \<noteq> 0" for i
    using hp that n by (simp add: is_heap_def)
  have via: "ts_heap s ! parent p \<le> ts_heap s ! i" if "i < n" "i \<noteq> 0" "parent i = p" "p \<noteq> 0" for i
    using h [OF n(3) that(4)] h [OF that(1,2)] that(3) by simp
  have pn: "parent i < n" "parent i \<noteq> i" if "i < n" "i \<noteq> 0" for i using parent_less [OF that(2)] that by auto
  have second: "ts_heap s1 ! parent p \<le> ts_heap s1 ! i" if "i < n" "i \<noteq> 0" "parent i = p" "p \<noteq> 0" for i
    using via [OF that] nth [OF that(1)] pn [OF n(3) that(4)] nth [of "parent p"] pn [OF that(1,2)] that(3) by auto
  show "heap_up n (ts_heap s1) p" if a: "p \<noteq> 0 \<and> ts_heap s1 ! p < ts_heap s1 ! parent p"
  proof -
    have "ts_heap s1 ! parent i \<le> ts_heap s1 ! i" if i: "i < n" "i \<noteq> 0" "i \<noteq> p" for i
    proof (cases "parent i = p")
      case True
      then have "ts_heap s1 ! parent i \<le> ts_heap s1 ! parent p" using a by (simp add: less_imp_le)
      also have "\<dots> \<le> ts_heap s1 ! i" using second [OF i(1,2) True] a by simp
      finally show ?thesis .
    next
      case False
      then show ?thesis using h [OF i(1,2)] nth [OF i(1)] nth [OF pn(1) [OF i(1,2)]] i(3) by simp
    qed
    then show ?thesis using second by (simp add: heap_up_def)
  qed
  show "heap_down n (ts_heap s1) p" if a: "\<not> (p \<noteq> 0 \<and> ts_heap s1 ! p < ts_heap s1 ! parent p)"
  proof -
    have "ts_heap s1 ! parent i \<le> ts_heap s1 ! i" if i: "i < n" "i \<noteq> 0" "parent i \<noteq> p" for i
    proof (cases "i = p")
      case True
      then show ?thesis using a i by auto
    next
      case False
      then show ?thesis using h [OF i(1,2)] nth [OF i(1)] nth [OF pn(1) [OF i(1,2)]] i(3) by simp
    qed
    then show ?thesis using second by (simp add: heap_down_def)
  qed
qed

lemma drop_last:
  assumes "timer_inv s" and "ts_len s = Suc n"
  defines "r \<equiv> ts_heap s ! n"
  defines "s1 \<equiv> s\<lparr>ts_heap := (ts_heap s)[n := TIMER_ENTRY_EMPTY],
    ts_positions := (ts_positions s)[unat (te_slot r) := NONE_POSITION], ts_len := n\<rparr>"
  shows "timer_inv s1" "e' \<in> live s1 \<longleftrightarrow> e' \<in> live s \<and> te_slot e' \<noteq> te_slot r"
proof -
  have ix: "indexed s" and hp: "is_heap (ts_len s) (ts_heap s)" and cap: "length (ts_heap s) \<le> 2 ^ 32 - 1"
    using assms(1) by (simp_all add: timer_inv_def)
  note d = indexedD [OF ix]
  have n: "n < ts_len s" "n < length (ts_heap s)" using assms(2) d(2) by auto
  have nth: "ts_heap s1 ! i = ts_heap s ! i" if "i < n" for i using that by (simp add: s1_def)
  have inj: "te_slot (ts_heap s ! i) = te_slot (ts_heap s ! j) \<longleftrightarrow> i = j" if "i < ts_len s" "j < ts_len s" for i j
    using indexed_slot_inj [OF ix that] by auto
  have pos: "ts_positions s1 ! k = (if k = unat (te_slot r) then NONE_POSITION else ts_positions s ! k)"
    if "k < length (ts_positions s)" for k
    using d(4) [OF n(1)] that by (simp add: s1_def r_def nth_list_update)
  have "unat (te_slot (ts_heap s1 ! i)) < length (ts_positions s) \<and>
      ts_positions s1 ! unat (te_slot (ts_heap s1 ! i)) = of_nat i" if i: "i < n" for i
    using d(4,5) [of i] i n nth [OF i] pos inj [of i n] by (simp add: r_def flip: word_unat_eq_iff)
  moreover have "\<exists>i < n. unat (te_slot (ts_heap s1 ! i)) = k"
    if k: "k < length (ts_positions s)" "ts_positions s1 ! k \<noteq> NONE_POSITION" for k
  proof -
    have "k \<noteq> unat (te_slot r)" "ts_positions s ! k \<noteq> NONE_POSITION"
      using k pos [OF k(1)] by (auto split: if_splits)
    then obtain i where i: "i < ts_len s" "unat (te_slot (ts_heap s ! i)) = k" using d(6) [OF k(1)] by blast
    then have "i \<noteq> n" using \<open>k \<noteq> unat (te_slot r)\<close> by (auto simp: r_def)
    then show ?thesis using i nth assms(2) by (intro exI [of _ i]) auto
  qed
  ultimately have ix1: "indexed s1" unfolding indexed_def using d(1-3) n by (simp add: s1_def)
  moreover have "is_heap n (ts_heap s1)"
    unfolding is_heap_def
  proof (intro allI impI)
    fix i assume i: "i < n" "i \<noteq> 0"
    then have "ts_heap s ! parent i \<le> ts_heap s ! i" using hp n by (simp add: is_heap_def)
    then show "ts_heap s1 ! parent i \<le> ts_heap s1 ! i" using nth i parent_less [OF i(2)] by simp
  qed
  ultimately show "timer_inv s1" using cap by (simp add: timer_inv_def s1_def)
  have "e' \<in> live s1 \<longleftrightarrow> (\<exists>i < n. ts_heap s ! i = e')"
    using live_iff [OF ix1] nth by (auto simp: s1_def)
  also have "\<dots> \<longleftrightarrow> (\<exists>i < ts_len s. i \<noteq> n \<and> ts_heap s ! i = e')"
    using assms(2) by (auto simp: less_Suc_eq)
  also have "\<dots> \<longleftrightarrow> e' \<in> live s \<and> te_slot e' \<noteq> te_slot r"
    unfolding live_iff [OF ix] r_def using inj [OF _ n(1)] by blast
  finally show "e' \<in> live s1 \<longleftrightarrow> e' \<in> live s \<and> te_slot e' \<noteq> te_slot r" .
qed

lemma remove_at_ok:
  assumes "timer_inv s" and "p < ts_len s"
  defines "r \<equiv> ts_heap s ! p"
  shows "timer_inv (fst (remove_at s p)) \<and> snd (remove_at s p) = Some r \<and>
    timer_get (fst (remove_at s p)) = (timer_get s)(te_slot r := None) \<and>
    length (ts_positions (fst (remove_at s p))) = length (ts_positions s)"
proof -
  have ix: "indexed s" and cap: "length (ts_heap s) \<le> 2 ^ 32 - 1" using assms(1) by (simp_all add: timer_inv_def)
  note d = indexedD [OF ix]
  obtain n where n: "ts_len s = Suc n" using assms(2) by (cases "ts_len s") auto
  have slot: "unat (te_slot r) < length (ts_positions s)" using d(4) [OF assms(2)] by (simp add: r_def)
  show ?thesis
  proof (cases "p = n")
    case True
    let ?s1 = "s\<lparr>ts_heap := (ts_heap s)[n := TIMER_ENTRY_EMPTY],
      ts_positions := (ts_positions s)[unat (te_slot (ts_heap s ! n)) := NONE_POSITION], ts_len := n\<rparr>"
    note dl = drop_last [OF assms(1) n]
    have "remove_at s p = (?s1, Some r)"
      using slot n True by (simp add: remove_at_def Let_def r_def)
    moreover have "indexed ?s1" using dl(1) by (simp only: timer_inv_def)
    then have "timer_get ?s1 = (timer_get s)(te_slot r := None)"
      using dl(2) True by (intro timer_get_delete [OF ix]) (simp_all only: r_def)
    ultimately show ?thesis using dl(1) by simp
  next
    case False
    let ?m = "ts_heap s ! n"
    let ?s1 = "s\<lparr>ts_heap := (ts_heap s)[n := TIMER_ENTRY_EMPTY, p := ?m],
      ts_positions := (ts_positions s)[unat (te_slot r) := NONE_POSITION, unat (te_slot ?m) := of_nat p], ts_len := n\<rparr>"
    have pn: "p \<noteq> ts_len s - 1" using False n by simp
    note fh = fill_hole [OF assms(1,2) pn, folded r_def, unfolded n diff_Suc_1]
    have small: "unat (te_slot ?m) < length (ts_positions s)" "p < 2 ^ 32 - 1"
      using d(4) [of n] n assms(2) d(3) by auto
    have run: "remove_at s p =
        (if p \<noteq> 0 \<and> ts_heap ?s1 ! p < ts_heap ?s1 ! parent p then (sift_up ?s1 p, Some r)
         else (sift_down ?s1 p, Some r))"
      using slot n False assms(2) small
      by (cases s) (simp add: remove_at_def Let_def r_def set_position_eq entry_precedes_def precedes_less parent_def)
    have p: "p < ts_len ?s1" using assms(2) n False by simp
    have finish: ?thesis
      if s2: "indexed s2 \<and> is_heap (ts_len ?s1) (ts_heap s2) \<and> live s2 = live ?s1 \<and> ts_len s2 = ts_len ?s1 \<and>
          length (ts_heap s2) = length (ts_heap ?s1)" and run: "remove_at s p = (s2, Some r)" for s2
      using timer_get_delete [OF ix, of s2 "te_slot r"] fh(2) s2 cap d(1) indexedD(1) [of s2]
      by (simp add: run timer_inv_def)
    show ?thesis
    proof (cases "p \<noteq> 0 \<and> ts_heap ?s1 ! p < ts_heap ?s1 ! parent p")
      case True
      then have "heap_up (ts_len ?s1) (ts_heap ?s1) p" using fh(3) by simp
      from sift_up_ok [OF fh(1) p this] show ?thesis by (rule finish) (use True run in simp)
    next
      case False
      then have "heap_down (ts_len ?s1) (ts_heap ?s1) p" using fh(4) by simp
      from sift_down_ok [OF fh(1) p this] show ?thesis by (rule finish) (use False run in auto)
    qed
  qed
qed

lemma timer_get_none_or_position:
  assumes "indexed s"
  shows "timer_get s k = None \<longleftrightarrow>
    \<not> unat k < length (ts_positions s) \<or> ts_positions s ! unat k = NONE_POSITION"
proof (cases "unat k < length (ts_positions s) \<and> ts_positions s ! unat k \<noteq> NONE_POSITION")
  case True
  then obtain i where i: "i < ts_len s" "unat (te_slot (ts_heap s ! i)) = unat k"
    using indexedD(6) [OF assms] by blast
  then have "timer_get s k = Some (ts_heap s ! i)"
    using timer_get_iff [OF assms] live_iff [OF assms] by (auto simp: word_unat_eq_iff)
  then show ?thesis using True by simp
qed (auto simp: timer_get_def Let_def)

lemma timer_cancel_ok:
  assumes "timer_inv s"
  shows "timer_inv (fst (timer_sched_cancel s k)) \<and> snd (timer_sched_cancel s k) = timer_get s k \<and>
    timer_get (fst (timer_sched_cancel s k)) = (timer_get s)(k := None) \<and>
    length (ts_positions (fst (timer_sched_cancel s k))) = length (ts_positions s)"
proof (cases "timer_get s k")
  case None
  have "timer_sched_cancel s k = (s, None)"
    using None timer_get_none_or_position [of s k] assms
    by (auto simp: timer_sched_cancel_def Let_def timer_inv_def)
  then show ?thesis using None assms by auto
next
  case (Some e)
  then have p: "unat (ts_positions s ! unat k) < ts_len s"
    and e: "e = ts_heap s ! unat (ts_positions s ! unat k)"
    and run: "timer_sched_cancel s k = remove_at s (unat (ts_positions s ! unat k))"
    by (auto simp: timer_get_def timer_sched_cancel_def Let_def split: if_splits)
  have "te_slot e = k" using Some timer_get_iff assms by (auto simp: timer_inv_def)
  then show ?thesis using remove_at_ok [OF assms p] Some run e by simp
qed

lemma root_least:
  assumes "timer_inv s" and "timer_get s k = Some e"
  shows "ts_heap s ! 0 \<le> e"
proof -
  have ix: "indexed s" and hp: "is_heap (ts_len s) (ts_heap s)" using assms(1) by (simp_all add: timer_inv_def)
  obtain i where "i < ts_len s" "ts_heap s ! i = e"
    using assms(2) timer_get_iff [OF ix] live_iff [OF ix] by auto
  then show ?thesis using heap_root_least [OF hp] by auto
qed

lemma timer_pop_ok:
  assumes "timer_inv s"
  shows "timer_inv (fst (timer_pop s)) \<and> length (ts_positions (fst (timer_pop s))) = length (ts_positions s) \<and>
    (case snd (timer_pop s) of
       None \<Rightarrow> timer_get s = Map.empty \<and> timer_get (fst (timer_pop s)) = Map.empty
     | Some e \<Rightarrow> timer_get s (te_slot e) = Some e \<and> (\<forall>k e'. timer_get s k = Some e' \<longrightarrow> e \<le> e') \<and>
         timer_get (fst (timer_pop s)) = (timer_get s)(te_slot e := None))"
proof (cases "ts_len s = 0")
  case True
  then have "timer_get s k = None" for k by (simp add: timer_get_def Let_def)
  then show ?thesis using True assms by (simp add: timer_pop_def fun_eq_iff)
next
  case False
  have ix: "indexed s" using assms by (simp add: timer_inv_def)
  have "timer_get s (te_slot (ts_heap s ! 0)) = Some (ts_heap s ! 0)"
    using False timer_get_iff [OF ix] live_iff [OF ix] by blast
  then show ?thesis
    using remove_at_ok [OF assms, of 0] root_least [OF assms] False by (simp add: timer_pop_def)
qed

lemma timer_new_inv:
  "n \<le> 2 ^ 32 - 1 \<Longrightarrow> timer_inv (timer_sched_new n)" "timer_get (timer_sched_new n) = Map.empty"
  by (auto simp: timer_inv_def indexed_def is_heap_def timer_sched_new_def timer_get_def fun_eq_iff Let_def)

definition good_timer_slot :: "TimerScheduler \<Rightarrow> u32 \<Rightarrow> bool" where
  "good_timer_slot s k = (unat k < length (ts_positions s))"

interpretation timer: deadline_queue timer_get timer_schedule timer_sched_cancel timer_pop te_slot
  good_timer_slot timer_inv
proof (unfold_locales, goal_cases)
  case (1 s)
  then show ?case by simp
next
  case (2 s k e)
  then show ?case using timer_get_iff by (auto simp: timer_inv_def)
next
  case (3 s e)
  then show ?case
    using timer_schedule_ok [OF 3, of e] timer_schedule_refused [of e s]
    by (cases "unat (te_slot e) < length (ts_positions s)") (auto simp: good_timer_slot_def fun_eq_iff)
next
  case (4 s k)
  then show ?case using timer_cancel_ok [OF 4, of k] by (auto simp: good_timer_slot_def fun_eq_iff)
next
  case (5 s)
  then show ?case using timer_pop_ok [OF 5] by (auto simp: good_timer_slot_def fun_eq_iff)
qed

section \<open>Histories of a deadline scheduler\<close>

datatype timer_op = Arm_Op TimerEntry | Disarm_Op u32

fun timer_run :: "timer_op list \<Rightarrow> TimerScheduler \<Rightarrow> TimerScheduler" where
  "timer_run [] s = s"
| "timer_run (Arm_Op e # ops) s = timer_run ops (fst (timer_schedule s e))"
| "timer_run (Disarm_Op k # ops) s = timer_run ops (fst (timer_sched_cancel s k))"

fun timer_spec :: "nat \<Rightarrow> timer_op list \<Rightarrow> (u32 \<rightharpoonup> TimerEntry) \<Rightarrow> (u32 \<rightharpoonup> TimerEntry)" where
  "timer_spec n [] m = m"
| "timer_spec n (Arm_Op e # ops) m =
     timer_spec n ops (if unat (te_slot e) < n then m(te_slot e \<mapsto> e) else m)"
| "timer_spec n (Disarm_Op k # ops) m = timer_spec n ops (m(k := None))"

lemma timer_run_refines:
  assumes "timer_inv s" and "length (ts_positions s) = n"
  shows "timer_inv (timer_run ops s) \<and> timer_get (timer_run ops s) = timer_spec n ops (timer_get s) \<and>
    length (ts_positions (timer_run ops s)) = n"
  using assms
proof (induction ops s rule: timer_run.induct)
  case (2 e ops s)
  then show ?case
    using timer_schedule_ok [OF "2.prems"(1), of e] timer_schedule_refused [of e s]
    by (cases "unat (te_slot e) < length (ts_positions s)") (auto simp: fun_upd_def)
next
  case (3 k ops s)
  then show ?case using timer_cancel_ok [OF "3.prems"(1), of k] by (simp add: fun_upd_def)
qed simp

section \<open>Properties\<close>

text \<open>C17: The deadline scheduler fires every armed timer exactly once, earliest first.  After
  any sequence of arm and cancel calls on a new scheduler of at most \<open>2^32 - 1\<close> slots, lookup
  returns the last entry armed for a slot and not cancelled, and popping repeatedly returns
  exactly those entries, each once, in the order of their deadlines (ties by slot, generation
  and sequence).\<close>

theorem timer_scheduler_fires_in_order:
  fixes ops :: "timer_op list"
  assumes "n \<le> 2 ^ 32 - 1"
  defines "s \<equiv> timer_run ops (timer_sched_new n)"
  shows "timer_get s = timer_spec n ops Map.empty \<and>
    sorted (drain timer_pop (card (dom (timer_get s))) s) \<and>
    distinct (drain timer_pop (card (dom (timer_get s))) s) \<and>
    set (drain timer_pop (card (dom (timer_get s))) s) = ran (timer_spec n ops Map.empty)"
proof -
  have "length (ts_positions (timer_sched_new n)) = n" by (simp add: timer_sched_new_def)
  from timer_run_refines [OF timer_new_inv(1) [OF assms(1)] this, of ops]
  have "timer_inv s" "timer_get s = timer_spec n ops Map.empty"
    by (simp_all add: s_def timer_new_inv(2))
  then show ?thesis using timer.drain_sorted [of s "card (dom (timer_get s))"] by simp
qed

theorem timer_scheduler_fires_in_order_witness:
  "set (drain timer_pop (card (dom (timer_get (timer_run
       [Arm_Op (TimerEntry 9 0 1 1), Arm_Op (TimerEntry 4 1 1 1), Disarm_Op 0] (timer_sched_new 2)))))
     (timer_run [Arm_Op (TimerEntry 9 0 1 1), Arm_Op (TimerEntry 4 1 1 1), Disarm_Op 0] (timer_sched_new 2)))
   = {TimerEntry 4 1 1 1}"
proof -
  let ?ops = "[Arm_Op (TimerEntry 9 0 1 1), Arm_Op (TimerEntry 4 1 1 1), Disarm_Op 0]"
  have "ran (timer_spec 2 ?ops Map.empty) = {TimerEntry 4 1 1 1}"
    by (auto simp: ran_def split: if_splits)
  moreover have "(2 :: nat) \<le> 2 ^ 32 - 1" by simp
  ultimately show ?thesis
    using timer_scheduler_fires_in_order [of 2 ?ops] by metis
qed

text \<open>C18: Expiry is decided by the earliest deadline.  \<open>pop_expired\<close> returns a timer exactly
  when some armed timer is due; it returns the least one, removes only it, and otherwise leaves
  the scheduler as it was.\<close>

theorem pop_expired_exact:
  assumes "timer_inv s"
  shows "case pop_expired s now of
      (s', None) \<Rightarrow> s' = s \<and> (\<forall>k e. timer_get s k = Some e \<longrightarrow> now < te_deadline e)
    | (s', Some e) \<Rightarrow> timer_get s (te_slot e) = Some e \<and> te_deadline e \<le> now \<and>
        (\<forall>k e'. timer_get s k = Some e' \<longrightarrow> te_deadline e \<le> te_deadline e') \<and>
        timer_inv s' \<and> timer_get s' = (timer_get s)(te_slot e := None)"
proof (cases "ts_len s = 0")
  case True
  then show ?thesis by (simp add: pop_expired_def timer_peek_def timer_get_def Let_def)
next
  case False
  have least: "te_deadline (ts_heap s ! 0) \<le> te_deadline e'" if "timer_get s k = Some e'" for k e'
    using root_least [OF assms that] by (rule less_eq_deadline)
  have pop: "snd (timer_pop s) = Some (ts_heap s ! 0)"
    using remove_at_ok [OF assms, of 0] False by (simp add: timer_pop_def)
  show ?thesis
  proof (cases "te_deadline (ts_heap s ! 0) \<le> now")
    case True
    then have "pop_expired s now = (fst (timer_pop s), Some (ts_heap s ! 0))"
      using False pop by (simp add: pop_expired_def timer_peek_def prod_eq_iff)
    then show ?thesis using timer_pop_ok [OF assms] pop True least by simp
  next
    case late: False
    then have "pop_expired s now = (s, None)"
      using False by (simp add: pop_expired_def timer_peek_def)
    then show ?thesis using least late by (auto simp: not_le intro: less_le_trans)
  qed
qed

theorem pop_expired_exact_witness:
  "snd (pop_expired (timer_run [Arm_Op (TimerEntry 4 1 1 1)] (timer_sched_new 2)) 5)
     = Some (TimerEntry 4 1 1 1)"
proof -
  let ?s = "timer_run [Arm_Op (TimerEntry 4 1 1 1)] (timer_sched_new 2)"
  have "timer_inv (timer_sched_new 2)" by (rule timer_new_inv) simp
  moreover have "length (ts_positions (timer_sched_new 2)) = 2" by (simp add: timer_sched_new_def)
  ultimately have inv: "timer_inv ?s"
    and get: "timer_get ?s = timer_spec 2 [Arm_Op (TimerEntry 4 1 1 1)] (timer_get (timer_sched_new 2))"
    using timer_run_refines by blast+
  have get: "timer_get ?s = [1 \<mapsto> TimerEntry 4 1 1 1]"
    unfolding get timer_new_inv(2) by simp
  show ?thesis
    using pop_expired_exact [OF inv, of 5] unfolding get
    by (cases "pop_expired ?s 5") (auto split: option.splits if_splits)
qed

end
