(* ===== verification/Mem_Keys.thy ===== *)
theory Mem_Keys
  imports Contracts Probe_Table
begin

text \<open>
  The protection-key table of \<open>rocev2-memory/src/keys.rs\<close>: open addressing over
  four buckets per memory region, with deletion by reinsertion of the following
  cluster.  A zero key marks an empty bucket.  The table is an instance of the
  probing scheme of \<open>Probe_Table\<close> and implements the bounded map contract.
\<close>

section \<open>Model\<close>

datatype KeyKind = LocalKey | RemoteKey

record KeyEntry =
  ke_key :: u32
  ke_slot :: u16
  ke_kind :: KeyKind

definition KEY_ENTRY_EMPTY :: KeyEntry where
  "KEY_ENTRY_EMPTY = \<lparr>ke_key = 0, ke_slot = 0, ke_kind = LocalKey\<rparr>"

record KeyTable =
  key_entries :: "KeyEntry list list"

definition mix32 :: "u32 \<Rightarrow> u32" where
  "mix32 v0 =
     (let v = v0 XOR drop_bit 16 v0;
          v = v * 0x7feb352d;
          v = v XOR drop_bit 15 v;
          v = v * 0x846ca68b
      in v XOR drop_bit 16 v)"

definition key_table_new :: "nat \<Rightarrow> KeyTable" where
  "key_table_new n = \<lparr>key_entries = replicate n (replicate 4 KEY_ENTRY_EMPTY)\<rparr>"

abbreviation key_capacity :: "KeyTable \<Rightarrow> usize" where
  "key_capacity t \<equiv> length (key_entries t) * 4"

definition key_entry :: "KeyTable \<Rightarrow> usize \<Rightarrow> KeyEntry" where
  "key_entry t index = key_entries t ! (index div 4) ! (index mod 4)"

definition key_set :: "KeyTable \<Rightarrow> usize \<Rightarrow> KeyEntry \<Rightarrow> KeyTable" where
  "key_set t index e =
     t\<lparr>key_entries := (key_entries t)[index div 4 := (key_entries t ! (index div 4))[index mod 4 := e]]\<rparr>"

fun position_loop :: "nat \<Rightarrow> usize \<Rightarrow> KeyTable \<Rightarrow> u32 \<Rightarrow> usize option" where
  "position_loop 0 index t k = None"
| "position_loop (Suc f) index t k =
     (let e = key_entry t index
      in if ke_key e = k then Some index
         else if ke_key e = 0 then None
         else position_loop f ((index + 1) mod key_capacity t) t k)"

definition key_position :: "KeyTable \<Rightarrow> u32 \<Rightarrow> usize option" where
  "key_position t k =
     (if key_capacity t = 0 \<or> k = 0 then None
      else position_loop (key_capacity t) (unat (mix32 k) mod key_capacity t) t k)"

definition key_contains :: "KeyTable \<Rightarrow> u32 \<Rightarrow> bool" where
  "key_contains t k = (key_position t k \<noteq> None)"

definition key_get :: "KeyTable \<Rightarrow> u32 \<Rightarrow> KeyKind \<Rightarrow> usize option" where
  "key_get t k kind =
     (case key_position t k of
        None \<Rightarrow> None
      | Some index \<Rightarrow>
          (let e = key_entry t index in if ke_kind e = kind then Some (unat (ke_slot e)) else None))"

fun key_insert_loop :: "nat \<Rightarrow> usize \<Rightarrow> KeyTable \<Rightarrow> KeyEntry \<Rightarrow> KeyTable \<times> bool" where
  "key_insert_loop 0 index t new = (t, False)"
| "key_insert_loop (Suc f) index t new =
     (let e = key_entry t index
      in if ke_key e = ke_key new then (t, False)
         else if ke_key e = 0 then (key_set t index new, True)
         else key_insert_loop f ((index + 1) mod key_capacity t) t new)"

definition key_insert :: "KeyTable \<Rightarrow> u32 \<Rightarrow> u16 \<Rightarrow> KeyKind \<Rightarrow> KeyTable \<times> bool" where
  "key_insert t k slot kind =
     (if key_capacity t = 0 \<or> k = 0 then (t, False)
      else key_insert_loop (key_capacity t) (unat (mix32 k) mod key_capacity t) t
        \<lparr>ke_key = k, ke_slot = slot, ke_kind = kind\<rparr>)"

fun key_reinsert_loop :: "nat \<Rightarrow> usize \<Rightarrow> KeyTable \<Rightarrow> KeyTable" where
  "key_reinsert_loop 0 index t = t"
| "key_reinsert_loop (Suc f) index t =
     (let index = (index + 1) mod key_capacity t; e = key_entry t index
      in if ke_key e = 0 then t
         else key_reinsert_loop f index
           (fst (key_insert (key_set t index KEY_ENTRY_EMPTY) (ke_key e) (ke_slot e) (ke_kind e))))"

definition key_remove :: "KeyTable \<Rightarrow> u32 \<Rightarrow> KeyTable" where
  "key_remove t k =
     (case key_position t k of
        None \<Rightarrow> t
      | Some index \<Rightarrow> key_reinsert_loop (key_capacity t) index (key_set t index KEY_ENTRY_EMPTY))"

section \<open>The probing scheme\<close>

definition key_shape :: "KeyTable \<Rightarrow> bool" where
  "key_shape t \<longleftrightarrow> (\<forall>row \<in> set (key_entries t). length row = 4)"

definition key_view :: "KeyTable \<Rightarrow> nat \<Rightarrow> KeyEntry option" where
  "key_view t i =
     (if i < key_capacity t \<and> ke_key (key_entry t i) \<noteq> 0 then Some (key_entry t i) else None)"

interpretation key_probe: probing "Suc m" "\<lambda>k. unat (mix32 k) mod Suc m" ke_key for m
  by unfold_locales simp

lemma key_set_shape [simp]: "key_shape t \<Longrightarrow> key_shape (key_set t i e)"
proof -
  assume sh: "key_shape t"
  show ?thesis
  proof (cases "i div 4 < length (key_entries t)")
    case True
    then have "length (key_entries t ! (i div 4)) = 4" using sh by (simp add: key_shape_def)
    then show ?thesis
      using sh set_update_subset_insert [of "key_entries t"] by (fastforce simp: key_shape_def key_set_def)
  qed (use sh in \<open>simp add: key_shape_def key_set_def list_update_beyond\<close>)
qed

lemma key_set_capacity [simp]: "length (key_entries (key_set t i e)) = length (key_entries t)"
  by (simp add: key_set_def)

lemma key_entry_set:
  assumes "key_shape t" "i < key_capacity t" "j < key_capacity t"
  shows "key_entry (key_set t i e) j = (if i = j then e else key_entry t j)"
proof -
  have rows: "i div 4 < length (key_entries t)" "j div 4 < length (key_entries t)"
    using assms by (simp_all add: less_mult_imp_div_less)
  then have "length (key_entries t ! (i div 4)) = 4" using assms(1) by (simp add: key_shape_def)
  moreover have "i = j \<longleftrightarrow> i div 4 = j div 4 \<and> i mod 4 = j mod 4" by (metis div_mult_mod_eq)
  ultimately show ?thesis using rows by (auto simp: key_entry_def key_set_def nth_list_update)
qed

lemma key_view_set:
  assumes "key_shape t" "i < key_capacity t"
  shows "key_view (key_set t i e) = (key_view t)(i := if ke_key e = 0 then None else Some e)"
  using key_entry_set [OF assms] assms(2) by (auto simp: key_view_def fun_eq_iff split: if_splits)

lemma key_nxt: "i < Suc m \<Longrightarrow> key_probe.nxt m i = (i + 1) mod Suc m"
  by (auto simp: key_probe.nxt_def)

lemma key_view_beyond: "key_capacity t \<le> i \<Longrightarrow> key_view t i = None"
  by (simp add: key_view_def)

lemma position_loop_probe:
  "key_capacity t = Suc m \<Longrightarrow> k \<noteq> 0 \<Longrightarrow> i < Suc m \<Longrightarrow>
   position_loop f i t k = (case key_probe.probe m (key_view t) k f i of Found j \<Rightarrow> Some j | _ \<Rightarrow> None)"
  by (induction f arbitrary: i) (simp_all add: key_view_def key_nxt Let_def)

lemma key_insert_loop_probe:
  "key_capacity t = Suc m \<Longrightarrow> ke_key new \<noteq> 0 \<Longrightarrow> i < Suc m \<Longrightarrow>
   key_insert_loop f i t new = (case key_probe.probe m (key_view t) (ke_key new) f i of
     Vacant j \<Rightarrow> (key_set t j new, True) | _ \<Rightarrow> (t, False))"
  by (induction f arbitrary: i) (simp_all add: key_view_def key_nxt Let_def)

lemma key_insert_probe:
  assumes "key_capacity t = Suc m" "k \<noteq> 0"
  shows "key_insert t k slot kind =
    (case key_probe.probe m (key_view t) k (Suc m) (unat (mix32 k) mod Suc m) of
       Vacant j \<Rightarrow> (key_set t j \<lparr>ke_key = k, ke_slot = slot, ke_kind = kind\<rparr>, True) | _ \<Rightarrow> (t, False))"
  using assms key_insert_loop_probe [of t m "\<lparr>ke_key = k, ke_slot = slot, ke_kind = kind\<rparr>"
      "unat (mix32 k) mod Suc m" "Suc m"]
  by (simp add: key_insert_def del: key_insert_loop.simps key_probe.probe.simps)

lemma key_insert_view:
  assumes "key_shape t" "key_capacity t = Suc m" "ke_key e \<noteq> 0"
  shows "key_view (fst (key_insert t (ke_key e) (ke_slot e) (ke_kind e))) = key_probe.put_entry m (key_view t) e"
    "key_shape (fst (key_insert t (ke_key e) (ke_slot e) (ke_kind e)))"
    "key_capacity (fst (key_insert t (ke_key e) (ke_slot e) (ke_kind e))) = key_capacity t"
proof -
  have e: "\<lparr>ke_key = ke_key e, ke_slot = ke_slot e, ke_kind = ke_kind e\<rparr> = e" by simp
  note ins = key_insert_probe [OF assms(2,3), of "ke_slot e" "ke_kind e", unfolded e]
  have "j < Suc m" if "key_probe.probe m (key_view t) (ke_key e) (Suc m) (unat (mix32 (ke_key e)) mod Suc m) = Vacant j" for j
    using key_probe.probe_home [of m "key_view t" "ke_key e"] that by simp
  then show "key_view (fst (key_insert t (ke_key e) (ke_slot e) (ke_kind e))) = key_probe.put_entry m (key_view t) e"
    unfolding ins key_probe.put_entry_def using assms
    by (auto simp: key_view_set split: probe_result.splits)
  show "key_shape (fst (key_insert t (ke_key e) (ke_slot e) (ke_kind e)))"
    "key_capacity (fst (key_insert t (ke_key e) (ke_slot e) (ke_kind e))) = key_capacity t"
    unfolding ins using assms(1) by (auto split: probe_result.splits)
qed

lemma key_reinsert_view:
  assumes "key_shape t" "key_capacity t = Suc m" "i < Suc m"
  shows "key_view (key_reinsert_loop f i t) = key_probe.reinsert_loop m f i (key_view t) \<and>
    key_shape (key_reinsert_loop f i t) \<and> key_capacity (key_reinsert_loop f i t) = Suc m"
  using assms
proof (induction f arbitrary: i t)
  case (Suc f)
  define s where "s = (i + 1) mod Suc m"
  have s: "s < Suc m" "key_probe.nxt m i = s" using Suc.prems(3) by (simp_all add: s_def key_nxt)
  show ?case
  proof (cases "ke_key (key_entry t s) = 0")
    case True
    then have "key_view t s = None" by (simp add: key_view_def)
    then show ?thesis using Suc.prems True s by (simp add: Let_def s_def)
  next
    case False
    let ?e = "key_entry t s" and ?t = "key_set t s KEY_ENTRY_EMPTY"
    let ?t' = "fst (key_insert ?t (ke_key ?e) (ke_slot ?e) (ke_kind ?e))"
    have view: "key_view t s = Some ?e" using False s Suc.prems(2) by (simp add: key_view_def)
    have view': "key_view ?t = (key_view t)(s := None)"
      using key_view_set [OF Suc.prems(1)] s Suc.prems(2) by (simp add: KEY_ENTRY_EMPTY_def)
    have t: "key_shape ?t" "key_capacity ?t = Suc m" using Suc.prems by simp_all
    note ins = key_insert_view [OF t False]
    have "key_reinsert_loop (Suc f) i t = key_reinsert_loop f s ?t'"
      using False Suc.prems(2) by (simp add: Let_def s_def)
    moreover have "key_probe.reinsert_loop m (Suc f) i (key_view t)
        = key_probe.reinsert_loop m f s (key_probe.put_entry m ((key_view t)(s := None)) ?e)"
      by (simp add: s(2) view)
    ultimately show ?thesis
      using Suc.IH [of ?t' s] ins t(2) s(1) unfolding view' by simp
  qed
qed simp

section \<open>The key table is a bounded map\<close>

definition key_inv :: "KeyTable \<Rightarrow> bool" where
  "key_inv t \<longleftrightarrow> key_shape t \<and> (\<forall>m. key_capacity t = Suc m \<longrightarrow> key_probe.table_ok m (key_view t))"

definition key_find :: "KeyTable \<Rightarrow> u32 \<rightharpoonup> u16 \<times> KeyKind" where
  "key_find t k = map_option (\<lambda>i. (ke_slot (key_entry t i), ke_kind (key_entry t i))) (key_position t k)"

definition key_put :: "KeyTable \<Rightarrow> u32 \<Rightarrow> u16 \<times> KeyKind \<Rightarrow> KeyTable option" where
  "key_put t k v = (case key_insert t k (fst v) (snd v) of (t', True) \<Rightarrow> Some t' | (t', False) \<Rightarrow> None)"

abbreviation entry_value :: "KeyEntry \<Rightarrow> u16 \<times> KeyKind" where
  "entry_value e \<equiv> (ke_slot e, ke_kind e)"

lemma key_holds_nonzero: "key_probe.holds m (key_view t) e \<Longrightarrow> ke_key e \<noteq> 0"
  by (auto simp: key_probe.holds_def key_view_def split: if_splits)

lemma key_find_lookup:
  assumes "key_inv t" "key_capacity t = Suc m"
  shows "key_find t = (\<lambda>k. map_option entry_value (key_probe.lookup_entry m (key_view t) k))"
proof
  fix k
  have ok: "key_probe.table_ok m (key_view t)" using assms by (simp add: key_inv_def)
  show "key_find t k = map_option entry_value (key_probe.lookup_entry m (key_view t) k)"
  proof (cases "k = 0")
    case True
    then have "key_probe.lookup_entry m (key_view t) k = None"
      unfolding key_probe.lookup_None [OF ok] using key_holds_nonzero by blast
    then show ?thesis using True by (simp add: key_find_def key_position_def)
  next
    case False
    have pos: "key_position t k = (case key_probe.probe m (key_view t) k (Suc m) (unat (mix32 k) mod Suc m) of
        Found j \<Rightarrow> Some j | _ \<Rightarrow> None)"
      using False assms(2) position_loop_probe [of t m k _ "Suc m"]
      by (simp add: key_position_def del: position_loop.simps key_probe.probe.simps)
    have "key_view t j = Some (key_entry t j)"
      if "key_probe.probe m (key_view t) k (Suc m) (unat (mix32 k) mod Suc m) = Found j" for j
      using key_probe.probe_home [of m "key_view t" k] that by (auto simp: key_view_def split: if_splits)
    then show ?thesis
      by (auto simp: key_find_def pos key_probe.lookup_entry_def
          simp del: key_probe.probe.simps split: probe_result.splits)
  qed
qed

lemma key_dom:
  assumes "key_inv t" "key_capacity t = Suc m"
  shows "dom (key_find t) = dom (key_probe.lookup_entry m (key_view t))"
  unfolding key_find_lookup [OF assms] by (auto simp: dom_def)

lemma key_put_refines:
  assumes "key_inv t"
  shows "map_option key_find (key_put t k v) = spec_put (key_capacity t) (\<lambda>k. k \<noteq> 0) (key_find t) k v"
    and "key_put t k v = Some t' \<Longrightarrow> key_inv t' \<and> key_capacity t' = key_capacity t"
proof -
  have "map_option key_find (key_put t k v) = spec_put (key_capacity t) (\<lambda>k. k \<noteq> 0) (key_find t) k v \<and>
    (key_put t k v = Some t' \<longrightarrow> key_inv t' \<and> key_capacity t' = key_capacity t)"
  proof (cases "key_capacity t = 0 \<or> k = 0")
    case True
    then show ?thesis by (auto simp: key_put_def key_insert_def spec_put_def)
  next
    case False
    then obtain m where m: "key_capacity t = Suc m" by (cases "key_capacity t") auto
    let ?e = "\<lparr>ke_key = k, ke_slot = fst v, ke_kind = snd v\<rparr>"
    have ok: "key_probe.table_ok m (key_view t)" and sh: "key_shape t"
      using assms m by (simp_all add: key_inv_def)
    have put: "key_put t k v = (case key_probe.probe m (key_view t) k (Suc m) (unat (mix32 k) mod Suc m) of
        Vacant j \<Rightarrow> Some (key_set t j ?e) | _ \<Rightarrow> None)"
      using False by (auto simp: key_put_def key_insert_probe [OF m] simp del: key_probe.probe.simps
          split: probe_result.splits)
    have dom: "dom (key_find t) = dom (key_probe.lookup_entry m (key_view t))"
      by (rule key_dom [OF assms m])
    show ?thesis
    proof (cases rule: key_probe.probe_cases [OF ok, of k, case_names found vacant full])
      case (found j)
      then have "key_find t k \<noteq> None" using dom by blast
      then show ?thesis using found(1) by (simp add: put spec_put_def del: key_probe.probe.simps)
    next
      case (vacant j)
      have view: "key_view (key_set t j ?e) = (key_view t)(j := Some ?e)"
        using key_view_set [OF sh, of j ?e] vacant(2) m False by simp
      have "key_probe.probe m (key_view t) (ke_key ?e) (Suc m) (unat (mix32 (ke_key ?e)) mod Suc m) = Vacant j"
        using vacant(1) by (simp del: key_probe.probe.simps)
      note lp = key_probe.lookup_put [OF ok this]
      have inv: "key_inv (key_set t j ?e)" using lp(1) sh m by (simp add: key_inv_def view)
      have m': "key_capacity (key_set t j ?e) = Suc m" using m by simp
      have "key_find (key_set t j ?e) = (key_find t)(k \<mapsto> v)"
        using key_find_lookup [OF inv m'] key_find_lookup [OF assms m] lp(2) by (auto simp: view)
      moreover have "key_find t k = None" "card (dom (key_find t)) < key_capacity t"
        using vacant(4,5) m unfolding dom [symmetric] by blast (use vacant(5) m dom in simp)
      ultimately show ?thesis
        using vacant(1) inv False by (auto simp: put spec_put_def simp del: key_probe.probe.simps)
    next
      case full
      then show ?thesis using dom m by (auto simp: put spec_put_def simp del: key_probe.probe.simps)
    qed
  qed
  then show "map_option key_find (key_put t k v) = spec_put (key_capacity t) (\<lambda>k. k \<noteq> 0) (key_find t) k v"
    and "key_put t k v = Some t' \<Longrightarrow> key_inv t' \<and> key_capacity t' = key_capacity t" by blast+
qed

lemma key_remove_refines:
  assumes "key_inv t"
  shows "key_find (key_remove t k) = spec_del (key_find t) k"
    and "key_inv (key_remove t k) \<and> key_capacity (key_remove t k) = key_capacity t"
proof -
  have "key_find (key_remove t k) = spec_del (key_find t) k \<and>
    key_inv (key_remove t k) \<and> key_capacity (key_remove t k) = key_capacity t"
  proof (cases "key_position t k")
    case None
    then have "key_find t k = None" by (simp add: key_find_def)
    then show ?thesis using None assms by (auto simp: key_remove_def spec_del_def)
  next
    case (Some i)
    then have nz: "key_capacity t \<noteq> 0" "k \<noteq> 0" by (auto simp: key_position_def split: if_splits)
    then obtain m where m: "key_capacity t = Suc m" by (cases "key_capacity t") auto
    have ok: "key_probe.table_ok m (key_view t)" and sh: "key_shape t"
      using assms m by (simp_all add: key_inv_def)
    have "key_probe.probe m (key_view t) k (Suc m) (unat (mix32 k) mod Suc m) = Found i"
      using Some nz m position_loop_probe [of t m k _ "Suc m"]
      by (auto simp: key_position_def simp del: position_loop.simps key_probe.probe.simps
          split: probe_result.splits)
    then obtain e where i: "i < Suc m" "key_view t i = Some e" "ke_key e = k"
      using key_probe.probe_Found_iff ok unfolding key_probe.table_ok_def by blast
    let ?t = "key_set t i KEY_ENTRY_EMPTY"
    have view: "key_view ?t = (key_view t)(i := None)"
      using key_view_set [OF sh, of i KEY_ENTRY_EMPTY] i m by (simp add: KEY_ENTRY_EMPTY_def)
    have t: "key_shape ?t" "key_capacity ?t = Suc m" using sh m by simp_all
    have rem: "key_remove t k = key_reinsert_loop (Suc m) i ?t" using Some m by (simp add: key_remove_def)
    note re = key_reinsert_view [OF t i(1), of "Suc m", folded rem]
    note del = key_probe.lookup_reinsertion [OF ok i(1,2), folded view]
    have inv: "key_inv (key_remove t k)" and m': "key_capacity (key_remove t k) = Suc m"
      using re del(1) by (simp_all add: key_inv_def)
    have "key_find (key_remove t k) = spec_del (key_find t) k"
      using key_find_lookup [OF inv m'] key_find_lookup [OF assms m] re del(2) i(3)
      by (auto simp: spec_del_def)
    then show ?thesis using inv m m' by simp
  qed
  then show "key_find (key_remove t k) = spec_del (key_find t) k"
    and "key_inv (key_remove t k) \<and> key_capacity (key_remove t k) = key_capacity t" by blast+
qed

interpretation key_map: bounded_map key_find key_put key_remove "\<lambda>t. length (key_entries t) * 4"
  "\<lambda>k. k \<noteq> 0" key_inv
  by unfold_locales (use key_put_refines key_remove_refines in auto)

lemma key_insert_True:
  assumes "key_inv t" "key_insert t k slot kind = (t', True)"
  shows "key_inv t' \<and> length (key_entries t') = length (key_entries t) \<and>
    key_find t' = (key_find t)(k \<mapsto> (slot, kind))"
proof -
  have put: "key_put t k (slot, kind) = Some t'" using assms(2) by (simp add: key_put_def)
  then show ?thesis
    using key_put_refines [OF assms(1), of k "(slot, kind)"] by (auto simp: spec_put_def split: if_splits)
qed

lemma key_insert_False:
  assumes "key_inv t" "key_insert t k slot kind = (t', False)"
  shows "t' = t \<and> (k = 0 \<or> k \<in> dom (key_find t) \<or> key_capacity t \<le> card (dom (key_find t)))"
proof
  have "key_put t k (slot, kind) = None" using assms(2) by (simp add: key_put_def)
  then show "k = 0 \<or> k \<in> dom (key_find t) \<or> key_capacity t \<le> card (dom (key_find t))"
    using key_put_refines(1) [OF assms(1), of k "(slot, kind)"]
    by (auto simp: spec_put_def domIff not_less split: if_splits)
  have "snd (key_insert_loop f i t new) = False \<longrightarrow> fst (key_insert_loop f i t new) = t" for f i new
    by (induction f arbitrary: i) (simp_all add: Let_def)
  then show "t' = t"
    using assms(2) by (auto simp: key_insert_def split: if_splits dest: arg_cong [where f = fst] arg_cong [where f = snd])
      (metis fst_conv snd_conv)
qed

lemma key_entry_new: "i < n * 4 \<Longrightarrow> key_entry (key_table_new n) i = KEY_ENTRY_EMPTY"
  by (simp add: key_entry_def key_table_new_def less_mult_imp_div_less)

lemma key_new_inv: "key_inv (key_table_new n)" "key_find (key_table_new n) = Map.empty"
proof -
  have view: "key_view (key_table_new n) = (\<lambda>_. None)"
    using key_entry_new by (auto simp: key_view_def fun_eq_iff KEY_ENTRY_EMPTY_def key_table_new_def)
  have "key_shape (key_table_new n)" by (simp add: key_shape_def key_table_new_def)
  then show inv: "key_inv (key_table_new n)"
    unfolding key_inv_def view using key_probe.table_ok_empty by blast
  show "key_find (key_table_new n) = Map.empty"
  proof (cases "key_capacity (key_table_new n)")
    case 0
    then show ?thesis by (auto simp: key_find_def key_position_def)
  next
    case (Suc m)
    then show ?thesis using key_find_lookup [OF inv Suc] by (simp add: view key_probe.lookup_empty)
  qed
qed

lemma key_get_find: "key_get t k kind = (case key_find t k of
    Some (slot, kd) \<Rightarrow> if kd = kind then Some (unat slot) else None | None \<Rightarrow> None)"
  by (auto simp: key_get_def key_find_def Let_def split: option.splits)

lemma key_contains_find: "key_contains t k \<longleftrightarrow> k \<in> dom (key_find t)"
  by (auto simp: key_contains_def key_find_def domIff)

text \<open>
  C33: From a new key table, every sequence of insertions and removals leaves exactly the
  map that the same sequence leaves of a finite map with room for four keys per region:
  zero and duplicate keys are refused, and deletion by reinsertion never loses a key.
\<close>

theorem key_table_refines_map:
  "key_find (map_run key_put key_remove ops (key_table_new n)) =
     map_run (spec_put (n * 4) (\<lambda>k. k \<noteq> 0)) spec_del ops Map.empty"
proof -
  have "length (key_entries (key_table_new n)) = n" by (simp add: key_table_new_def)
  then show ?thesis
    using key_map.map_run_refines [OF key_new_inv(1), of ops n] by (simp add: key_new_inv(2))
qed

end
