(* ===== verification/Mem_Registry.thy ===== *)
theory Mem_Registry
  imports Mem_Keys
begin

text \<open>
  The registered-memory table of \<open>rocev2-memory/src/lib.rs\<close> with its raw copies
  (\<open>raw.rs\<close>).  Process memory is an explicit store from 64-bit addresses to
  octets, so that the copies have the effect of the raw pointers and a statement
  about what a write leaves unchanged is about all of memory.  A registered slice
  is its address and length.  The process-wide identity counter and the caller's
  key generator are arguments: a generator is a function on a state of its own.
\<close>

section \<open>Access rights and handles\<close>

definition MAX_REGIONS :: usize where
  "MAX_REGIONS = 4096"

definition KEY_ATTEMPTS :: usize where
  "KEY_ATTEMPTS = 64"

record RegionLease =
  lease_registry :: u32
  lease_slot :: u16
  lease_generation :: u32

datatype AccessFlags = AccessFlags (bits: u8)

definition ACCESS_NONE :: AccessFlags where "ACCESS_NONE = AccessFlags 0"
definition LOCAL_WRITE :: AccessFlags where "LOCAL_WRITE = AccessFlags 1"
definition REMOTE_WRITE :: AccessFlags where "REMOTE_WRITE = AccessFlags 2"
definition REMOTE_READ :: AccessFlags where "REMOTE_READ = AccessFlags 4"

definition KNOWN_BITS :: u8 where
  "KNOWN_BITS = bits LOCAL_WRITE OR bits REMOTE_WRITE OR bits REMOTE_READ"

definition access_from_bits :: "u8 \<Rightarrow> AccessFlags option" where
  "access_from_bits b = (if b AND NOT KNOWN_BITS = 0 then Some (AccessFlags b) else None)"

definition access_contains :: "AccessFlags \<Rightarrow> AccessFlags \<Rightarrow> bool" where
  "access_contains a required = (bits a AND bits required = bits required)"

definition access_bitor :: "AccessFlags \<Rightarrow> AccessFlags \<Rightarrow> AccessFlags" where
  "access_bitor a b = AccessFlags (bits a OR bits b)"

record RegionHandle =
  rh_address :: u64
  rh_length :: u64
  rh_lkey :: u32
  rh_rkey :: u32
  rh_slot :: u16
  rh_generation :: u32

record RemoteMemory =
  rm_address :: u64
  rm_length :: u64
  rm_rkey :: u32

definition remote_descriptor :: "RegionHandle \<Rightarrow> RemoteMemory" where
  "remote_descriptor h = \<lparr>rm_address = rh_address h, rm_length = rh_length h, rm_rkey = rh_rkey h\<rparr>"

datatype MemoryError =
    RegistryTooLarge
  | RegistryFull
  | RegionBusy
  | ReferenceOverflow
  | InvalidLease
  | KeyGenerationFailed
  | KeyCollisionLimit
  | KeySpaceExhausted
  | RegistryIdentityExhausted
  | EmptyRegion
  | RemoteWriteRequiresLocalWrite
  | AddressOverflow
  | InvalidHandle
  | InvalidKey
  | AccessDenied
  | RangeOutOfBounds

section \<open>Process memory\<close>

type_synonym memory = "u64 \<Rightarrow> u8"

definition copy_from_registered :: "memory \<Rightarrow> u64 \<Rightarrow> usize \<Rightarrow> usize \<Rightarrow> octets" where
  "copy_from_registered mem pointer offset len =
     map (\<lambda>i. mem (pointer + of_nat (offset + i))) [0..<len]"

fun write_bytes :: "memory \<Rightarrow> u64 \<Rightarrow> octets \<Rightarrow> memory" where
  "write_bytes mem a [] = mem"
| "write_bytes mem a (b # bs) = write_bytes (mem(a := b)) (a + 1) bs"

definition copy_to_registered :: "memory \<Rightarrow> u64 \<Rightarrow> usize \<Rightarrow> octets \<Rightarrow> memory" where
  "copy_to_registered mem pointer offset input = write_bytes mem (pointer + of_nat offset) input"

section \<open>The registry\<close>

record Slot =
  sl_pointer :: u64
  sl_address :: u64
  sl_length :: usize
  sl_access :: AccessFlags
  sl_lkey :: u32
  sl_rkey :: u32
  sl_generation :: u32
  sl_references :: u32

record MemoryRegistry =
  slots :: "Slot option list"
  generations :: "u32 list"
  reg_seed :: u32
  reg_sequence :: u32
  identity :: u32
  keys :: KeyTable
  registered :: usize

type_synonym 'g key_generator = "('g \<Rightarrow> 'g \<times> (MemoryError + u32)) option"

definition registry_new :: "nat \<Rightarrow> u32 \<Rightarrow> u32 \<Rightarrow> u32 \<times> (MemoryError + MemoryRegistry)" where
  "registry_new n seed next_id =
     (if n > MAX_REGIONS then (next_id, Inl RegistryTooLarge)
      else case u32_checked_add next_id 1 of
        None \<Rightarrow> (next_id, Inl RegistryIdentityExhausted)
      | Some next_id' \<Rightarrow> (next_id', Inr
          \<lparr>slots = replicate n None, generations = replicate n 0, reg_seed = seed, reg_sequence = 0,
           identity = next_id, keys = key_table_new n, registered = 0\<rparr>))"

fun next_key_loop ::
  "nat \<Rightarrow> 'g key_generator \<Rightarrow> u32 \<Rightarrow> MemoryRegistry \<Rightarrow> 'g \<Rightarrow> MemoryRegistry \<times> 'g \<times> (MemoryError + u32)" where
  "next_key_loop 0 gen other r g = (r, g, Inl KeyCollisionLimit)"
| "next_key_loop (Suc f) gen other r g =
     (let (r', g', candidate) =
        (case gen of
           Some next \<Rightarrow> (let (g', k) = next g in (r, g', k))
         | None \<Rightarrow>
             (case u32_checked_add (reg_sequence r) 1 of
                None \<Rightarrow> (r, g, Inl KeySpaceExhausted)
              | Some s \<Rightarrow> (r\<lparr>reg_sequence := s\<rparr>, g, Inr (mix32 (s + reg_seed r)))))
      in case candidate of
           Inl e \<Rightarrow> (r', g', Inl e)
         | Inr k \<Rightarrow>
             if k \<noteq> 0 \<and> k \<noteq> other \<and> \<not> key_contains (keys r') k then (r', g', Inr k)
             else next_key_loop f gen other r' g')"

definition next_key ::
  "'g key_generator \<Rightarrow> u32 \<Rightarrow> MemoryRegistry \<Rightarrow> 'g \<Rightarrow> MemoryRegistry \<times> 'g \<times> (MemoryError + u32)" where
  "next_key = next_key_loop KEY_ATTEMPTS"

definition free_slot :: "MemoryRegistry \<Rightarrow> usize option" where
  "free_slot r = find (\<lambda>i. slots r ! i = None) [0..<length (slots r)]"

definition register_inner ::
  "'g key_generator \<Rightarrow> u64 \<times> usize \<Rightarrow> AccessFlags \<Rightarrow> MemoryRegistry \<Rightarrow> 'g
     \<Rightarrow> MemoryRegistry \<times> 'g \<times> (MemoryError + RegionHandle)" where
  "register_inner gen region access r g =
     (let (pointer, len) = region in
      if len = 0 then (r, g, Inl EmptyRegion)
      else if access_contains access REMOTE_WRITE \<and> \<not> access_contains access LOCAL_WRITE
      then (r, g, Inl RemoteWriteRequiresLocalWrite)
      else case free_slot r of
        None \<Rightarrow> (r, g, Inl RegistryFull)
      | Some slot_index \<Rightarrow>
        if pointer = 0 then (r, g, Inl AddressOverflow)
        else case u64_try_from len of
          None \<Rightarrow> (r, g, Inl AddressOverflow)
        | Some length_u64 \<Rightarrow>
          if u64_checked_add pointer length_u64 = None then (r, g, Inl AddressOverflow)
          else case u16_try_from slot_index of
            None \<Rightarrow> (r, g, Inl RegistryTooLarge)
          | Some slot_u16 \<Rightarrow>
            (case u32_checked_add (generations r ! slot_index) 1 of
               None \<Rightarrow> (r, g, Inl KeySpaceExhausted)
             | Some generation \<Rightarrow>
               (case next_key gen 0 r g of
                  (r, g, Inl e) \<Rightarrow> (r, g, Inl e)
                | (r, g, Inr lkey) \<Rightarrow>
                  (case next_key gen lkey r g of
                     (r, g, Inl e) \<Rightarrow> (r, g, Inl e)
                   | (r, g, Inr rkey) \<Rightarrow>
                     (case key_insert (keys r) lkey slot_u16 LocalKey of
                        (ks, False) \<Rightarrow> (r\<lparr>keys := ks\<rparr>, g, Inl RegistryFull)
                      | (ks, True) \<Rightarrow>
                        (case key_insert ks rkey slot_u16 RemoteKey of
                           (ks, False) \<Rightarrow> (r\<lparr>keys := key_remove ks lkey\<rparr>, g, Inl RegistryFull)
                         | (ks, True) \<Rightarrow>
                           (r\<lparr>keys := ks,
                              generations := (generations r)[slot_index := generation],
                              slots := (slots r)[slot_index := Some
                                \<lparr>sl_pointer = pointer, sl_address = pointer, sl_length = len,
                                 sl_access = access, sl_lkey = lkey, sl_rkey = rkey,
                                 sl_generation = generation, sl_references = 0\<rparr>],
                              registered := registered r + 1\<rparr>, g,
                            Inr \<lparr>rh_address = pointer, rh_length = length_u64, rh_lkey = lkey,
                                 rh_rkey = rkey, rh_slot = slot_u16, rh_generation = generation\<rparr>)))))))"

definition register :: "u64 \<times> usize \<Rightarrow> AccessFlags \<Rightarrow> MemoryRegistry \<Rightarrow> MemoryRegistry \<times> (MemoryError + RegionHandle)" where
  "register region access r = (case register_inner None region access r () of (r', _, res) \<Rightarrow> (r', res))"

definition register_with_key_generator ::
  "('g \<Rightarrow> 'g \<times> (MemoryError + u32)) \<Rightarrow> u64 \<times> usize \<Rightarrow> AccessFlags \<Rightarrow> MemoryRegistry \<Rightarrow> 'g
     \<Rightarrow> MemoryRegistry \<times> 'g \<times> (MemoryError + RegionHandle)" where
  "register_with_key_generator next = register_inner (Some next)"

text \<open>Indexing a slot out of range, a panic in \<open>retain\<close>, reads as an empty slot; the
  registry invariant below excludes it.\<close>

definition slot_at :: "MemoryRegistry \<Rightarrow> usize \<Rightarrow> Slot option" where
  "slot_at r index = (if index < length (slots r) then slots r ! index else None)"

definition retain :: "u32 \<Rightarrow> KeyKind \<Rightarrow> MemoryRegistry \<Rightarrow> MemoryRegistry \<times> (MemoryError + RegionLease)" where
  "retain k kind r =
     (case key_get (keys r) k kind of
        None \<Rightarrow> (r, Inl InvalidKey)
      | Some index \<Rightarrow>
        (case slot_at r index of
           None \<Rightarrow> (r, Inl InvalidKey)
         | Some slot \<Rightarrow>
           (case u32_checked_add (sl_references slot) 1 of
              None \<Rightarrow> (r, Inl ReferenceOverflow)
            | Some references \<Rightarrow>
                (r\<lparr>slots := (slots r)[index := Some (slot\<lparr>sl_references := references\<rparr>)]\<rparr>,
                 Inr \<lparr>lease_registry = identity r, lease_slot = of_nat index,
                      lease_generation = sl_generation slot\<rparr>))))"

definition retain_local :: "u32 \<Rightarrow> MemoryRegistry \<Rightarrow> MemoryRegistry \<times> (MemoryError + RegionLease)" where
  "retain_local lkey = retain lkey LocalKey"

definition retain_remote :: "u32 \<Rightarrow> MemoryRegistry \<Rightarrow> MemoryRegistry \<times> (MemoryError + RegionLease)" where
  "retain_remote rkey = retain rkey RemoteKey"

definition release ::
  "RegionLease option \<Rightarrow> MemoryRegistry \<Rightarrow> MemoryRegistry \<times> RegionLease option \<times> (MemoryError + unit)" where
  "release lease r =
     (case lease of
        None \<Rightarrow> (r, lease, Inr ())
      | Some token \<Rightarrow>
        if lease_registry token \<noteq> identity r then (r, lease, Inl InvalidLease)
        else case slot_at r (unat (lease_slot token)) of
          None \<Rightarrow> (r, lease, Inl InvalidLease)
        | Some slot \<Rightarrow>
          if sl_generation slot \<noteq> lease_generation token \<or> sl_references slot = 0
          then (r, lease, Inl InvalidLease)
          else (r\<lparr>slots := (slots r)[unat (lease_slot token) :=
                  Some (slot\<lparr>sl_references := sl_references slot - 1\<rparr>)]\<rparr>, None, Inr ()))"

definition deregister :: "RegionHandle \<Rightarrow> MemoryRegistry \<Rightarrow> MemoryRegistry \<times> (MemoryError + (u64 \<times> usize))" where
  "deregister h r =
     (let index = unat (rh_slot h) in
      case slot_at r index of
        None \<Rightarrow> (r, Inl InvalidHandle)
      | Some slot \<Rightarrow>
        if sl_generation slot \<noteq> rh_generation h \<or> sl_lkey slot \<noteq> rh_lkey h \<or> sl_rkey slot \<noteq> rh_rkey h
           \<or> sl_address slot \<noteq> rh_address h
        then (r, Inl InvalidHandle)
        else case u64_try_from (sl_length slot) of
          None \<Rightarrow> (r, Inl AddressOverflow)
        | Some len \<Rightarrow>
          if len \<noteq> rh_length h then (r, Inl InvalidHandle)
          else if sl_references slot \<noteq> 0 then (r, Inl RegionBusy)
          else (r\<lparr>slots := (slots r)[index := None],
                  keys := key_remove (key_remove (keys r) (sl_lkey slot)) (sl_rkey slot),
                  registered := registered r - 1\<rparr>,
                Inr (sl_pointer slot, sl_length slot)))"

definition resolve ::
  "MemoryRegistry \<Rightarrow> u32 \<Rightarrow> KeyKind \<Rightarrow> AccessFlags \<Rightarrow> u64 \<Rightarrow> usize \<Rightarrow> MemoryError + (u64 \<times> usize)" where
  "resolve r k kind required address len =
     (case key_get (keys r) k kind of
        None \<Rightarrow> Inl InvalidKey
      | Some index \<Rightarrow>
        (case slot_at r index of
           None \<Rightarrow> Inl InvalidKey
         | Some slot \<Rightarrow>
           let expected = (case kind of LocalKey \<Rightarrow> sl_lkey slot | RemoteKey \<Rightarrow> sl_rkey slot)
           in if k \<noteq> expected then Inl InvalidKey
           else if \<not> access_contains (sl_access slot) required then Inl AccessDenied
           else
             and_then (ok_or (u64_try_from len) AddressOverflow) (\<lambda>length_u64.
             and_then (ok_or (u64_checked_add address length_u64) AddressOverflow) (\<lambda>requested_end.
             and_then (ok_or (u64_try_from (sl_length slot)) AddressOverflow) (\<lambda>region_length.
             and_then (ok_or (u64_checked_add (sl_address slot) region_length) AddressOverflow) (\<lambda>region_end.
             if address < sl_address slot \<or> requested_end > region_end then Inl RangeOutOfBounds
             else Inr (sl_pointer slot, unat (address - sl_address slot))))))))"

definition validate_local_read :: "MemoryRegistry \<Rightarrow> u32 \<Rightarrow> u64 \<Rightarrow> usize \<Rightarrow> MemoryError + unit" where
  "validate_local_read r lkey address len =
     and_then (resolve r lkey LocalKey ACCESS_NONE address len) (\<lambda>_. Inr ())"

definition validate_local_write :: "MemoryRegistry \<Rightarrow> u32 \<Rightarrow> u64 \<Rightarrow> usize \<Rightarrow> MemoryError + unit" where
  "validate_local_write r lkey address len =
     and_then (resolve r lkey LocalKey LOCAL_WRITE address len) (\<lambda>_. Inr ())"

definition validate_remote_read :: "MemoryRegistry \<Rightarrow> u32 \<Rightarrow> u64 \<Rightarrow> usize \<Rightarrow> MemoryError + unit" where
  "validate_remote_read r rkey address len =
     and_then (resolve r rkey RemoteKey REMOTE_READ address len) (\<lambda>_. Inr ())"

definition validate_remote_write :: "MemoryRegistry \<Rightarrow> u32 \<Rightarrow> u64 \<Rightarrow> usize \<Rightarrow> MemoryError + unit" where
  "validate_remote_write r rkey address len =
     and_then (resolve r rkey RemoteKey REMOTE_WRITE address len) (\<lambda>_. Inr ())"

definition local_read_slice :: "MemoryRegistry \<Rightarrow> memory \<Rightarrow> u32 \<Rightarrow> u64 \<Rightarrow> usize \<Rightarrow> MemoryError + octets" where
  "local_read_slice r mem lkey address len =
     and_then (resolve r lkey LocalKey ACCESS_NONE address len) (\<lambda>(pointer, offset).
       Inr (copy_from_registered mem pointer offset len))"

definition remote_read_slice :: "MemoryRegistry \<Rightarrow> memory \<Rightarrow> u32 \<Rightarrow> u64 \<Rightarrow> usize \<Rightarrow> MemoryError + octets" where
  "remote_read_slice r mem rkey address len =
     and_then (resolve r rkey RemoteKey REMOTE_READ address len) (\<lambda>(pointer, offset).
       Inr (copy_from_registered mem pointer offset len))"

definition read_local :: "MemoryRegistry \<Rightarrow> memory \<Rightarrow> u32 \<Rightarrow> u64 \<Rightarrow> usize \<Rightarrow> MemoryError + octets" where
  "read_local r mem lkey address len =
     and_then (resolve r lkey LocalKey ACCESS_NONE address len) (\<lambda>(pointer, offset).
       Inr (copy_from_registered mem pointer offset len))"

definition write_local :: "MemoryRegistry \<Rightarrow> memory \<Rightarrow> u32 \<Rightarrow> u64 \<Rightarrow> octets \<Rightarrow> MemoryError + memory" where
  "write_local r mem lkey address input =
     and_then (resolve r lkey LocalKey LOCAL_WRITE address (length input)) (\<lambda>(pointer, offset).
       Inr (copy_to_registered mem pointer offset input))"

definition read_remote :: "MemoryRegistry \<Rightarrow> memory \<Rightarrow> u32 \<Rightarrow> u64 \<Rightarrow> usize \<Rightarrow> MemoryError + octets" where
  "read_remote r mem rkey address len =
     and_then (resolve r rkey RemoteKey REMOTE_READ address len) (\<lambda>(pointer, offset).
       Inr (copy_from_registered mem pointer offset len))"

definition write_remote :: "MemoryRegistry \<Rightarrow> memory \<Rightarrow> u32 \<Rightarrow> u64 \<Rightarrow> octets \<Rightarrow> MemoryError + memory" where
  "write_remote r mem rkey address input =
     and_then (resolve r rkey RemoteKey REMOTE_WRITE address (length input)) (\<lambda>(pointer, offset).
       Inr (copy_to_registered mem pointer offset input))"

section \<open>Registry invariant\<close>

definition region_live :: "MemoryRegistry \<Rightarrow> usize \<Rightarrow> Slot \<Rightarrow> bool" where
  "region_live r i s \<longleftrightarrow> i < length (slots r) \<and> slots r ! i = Some s"

definition key_of :: "KeyKind \<Rightarrow> Slot \<Rightarrow> u32" where
  "key_of kind s = (case kind of LocalKey \<Rightarrow> sl_lkey s | RemoteKey \<Rightarrow> sl_rkey s)"

definition slot_ok :: "Slot \<Rightarrow> bool" where
  "slot_ok s \<longleftrightarrow> sl_pointer s = sl_address s \<and> sl_address s \<noteq> 0 \<and> 0 < sl_length s \<and>
     unat (sl_address s) + sl_length s < 2 ^ 64 \<and> sl_lkey s \<noteq> 0 \<and> sl_rkey s \<noteq> 0 \<and> sl_lkey s \<noteq> sl_rkey s \<and>
     (access_contains (sl_access s) REMOTE_WRITE \<longrightarrow> access_contains (sl_access s) LOCAL_WRITE)"

definition registry_inv :: "MemoryRegistry \<Rightarrow> bool" where
  "registry_inv r \<longleftrightarrow>
     length (slots r) \<le> MAX_REGIONS \<and> length (generations r) = length (slots r) \<and>
     key_inv (keys r) \<and> length (key_entries (keys r)) = length (slots r) \<and>
     (\<forall>i s. region_live r i s \<longrightarrow> slot_ok s \<and> sl_generation s = generations r ! i) \<and>
     (\<forall>k slot kind. key_find (keys r) k = Some (slot, kind) \<longleftrightarrow>
        (\<exists>s. region_live r (unat slot) s \<and> k = key_of kind s)) \<and>
     registered r = card {i. \<exists>s. region_live r i s}"

lemma registry_invD:
  assumes "registry_inv r"
  shows "length (slots r) \<le> 4096" "length (generations r) = length (slots r)" "key_inv (keys r)"
    "length (key_entries (keys r)) = length (slots r)"
    "\<And>i s. region_live r i s \<Longrightarrow> slot_ok s" "\<And>i s. region_live r i s \<Longrightarrow> sl_generation s = generations r ! i"
    "\<And>k slot kind. key_find (keys r) k = Some (slot, kind) \<longleftrightarrow>
        (\<exists>s. region_live r (unat slot) s \<and> k = key_of kind s)"
    "registered r = card {i. \<exists>s. region_live r i s}"
  using assms unfolding registry_inv_def MAX_REGIONS_def by blast+

lemma registry_invI:
  assumes "length (slots r) \<le> 4096" "length (generations r) = length (slots r)" "key_inv (keys r)"
    "length (key_entries (keys r)) = length (slots r)"
    "\<And>i s. region_live r i s \<Longrightarrow> slot_ok s" "\<And>i s. region_live r i s \<Longrightarrow> sl_generation s = generations r ! i"
    "\<And>k slot kind. key_find (keys r) k = Some (slot, kind) \<longleftrightarrow>
        (\<exists>s. region_live r (unat slot) s \<and> k = key_of kind s)"
    "registered r = card {i. \<exists>s. region_live r i s}"
  shows "registry_inv r"
  using assms unfolding registry_inv_def MAX_REGIONS_def by blast

lemma live_index:
  assumes "registry_inv r" "region_live r i s"
  shows "i < 4096" "unat (of_nat i :: u16) = i"
proof -
  show "i < 4096" using registry_invD(1) [OF assms(1)] assms(2) by (simp add: region_live_def)
  then show "unat (of_nat i :: u16) = i" by (simp add: unat_of_nat)
qed

lemma slot_at_live: "slot_at r i = Some s \<longleftrightarrow> region_live r i s"
  by (auto simp: slot_at_def region_live_def)

lemma key_get_live:
  assumes "registry_inv r"
  shows "key_get (keys r) k kind = Some i \<longleftrightarrow> (\<exists>s. region_live r i s \<and> k = key_of kind s)"
proof -
  have "key_get (keys r) k kind = Some i \<longleftrightarrow> (\<exists>slot. key_find (keys r) k = Some (slot, kind) \<and> unat slot = i)"
    by (auto simp: key_get_find split: option.splits)
  also have "\<dots> \<longleftrightarrow> (\<exists>s. region_live r i s \<and> k = key_of kind s)"
    unfolding registry_invD(7) [OF assms] using live_index(2) [OF assms] by metis
  finally show ?thesis .
qed

text \<open>A live key names one region.\<close>

lemma live_key_unique:
  assumes "registry_inv r" "region_live r i s" "region_live r j t" "key_of kind s = key_of kind' t"
  shows "i = j \<and> s = t \<and> kind = kind'"
proof -
  have "key_find (keys r) (key_of kind s) = Some (of_nat i, kind)"
    "key_find (keys r) (key_of kind' t) = Some (of_nat j, kind')"
    using registry_invD(7) [OF assms(1)] live_index(2) [OF assms(1)] assms(2,3) by metis+
  then have "(of_nat i :: u16) = of_nat j" "kind = kind'" using assms(4) by simp_all
  then have "i = j" using live_index(2) [OF assms(1)] assms(2,3) by metis
  then show ?thesis using \<open>kind = kind'\<close> assms(2,3) by (simp add: region_live_def)
qed

lemma retain_live:
  assumes "registry_inv r"
  shows "retain k kind r = (case key_get (keys r) k kind of
      None \<Rightarrow> (r, Inl InvalidKey)
    | Some i \<Rightarrow> let s = the (slots r ! i) in
        if sl_references s = - 1 then (r, Inl ReferenceOverflow)
        else (r\<lparr>slots := (slots r)[i := Some (s\<lparr>sl_references := sl_references s + 1\<rparr>)]\<rparr>,
              Inr \<lparr>lease_registry = identity r, lease_slot = of_nat i, lease_generation = sl_generation s\<rparr>))"
proof (cases "key_get (keys r) k kind")
  case (Some i)
  then obtain s where s: "region_live r i s" using key_get_live [OF assms] by blast
  have "u32_checked_add x 1 = (if x = - 1 then None else Some (x + 1))" for x
  proof -
    have "x = - 1 \<longleftrightarrow> unat x = 2 ^ 32 - 1"
      by (simp add: word_unat_eq_iff unsigned_minus_1_eq_mask mask_eq_exp_minus_1)
    moreover have "unat x < 2 ^ 32" using unsigned_less [of x, where 'a = nat] by simp
    ultimately show ?thesis by (auto simp: u32_checked_add_def)
  qed
  then show ?thesis
    using Some s slot_at_live [of r i s] by (auto simp: retain_def Let_def region_live_def)
qed (simp add: retain_def)

section \<open>Checked access\<close>

definition granted :: "MemoryRegistry \<Rightarrow> u32 \<Rightarrow> KeyKind \<Rightarrow> AccessFlags \<Rightarrow> u64 \<Rightarrow> usize \<Rightarrow> Slot \<Rightarrow> bool" where
  "granted r k kind required address len s \<longleftrightarrow>
     (\<exists>i. region_live r i s) \<and> k = key_of kind s \<and> access_contains (sl_access s) required \<and>
     sl_address s \<le> address \<and> unat address + len \<le> unat (sl_address s) + sl_length s"

lemma resolve_region:
  assumes inv: "registry_inv r" and live: "region_live r i s"
  shows "resolve r (key_of kind s) kind required address len =
    (if \<not> access_contains (sl_access s) required then Inl AccessDenied
     else if 2 ^ 64 \<le> unat address + len then Inl AddressOverflow
     else if address < sl_address s \<or> unat (sl_address s) + sl_length s < unat address + len
     then Inl RangeOutOfBounds
     else Inr (sl_address s, unat address - unat (sl_address s)))"
proof -
  have ok: "slot_ok s" by (rule registry_invD(5) [OF inv live])
  then have ptr: "sl_pointer s = sl_address s" by (simp add: slot_ok_def)
  have get: "key_get (keys r) (key_of kind s) kind = Some i" using key_get_live [OF inv] live by blast
  have len: "u64_try_from (sl_length s) = Some (of_nat (sl_length s))" "unat (of_nat (sl_length s) :: u64) = sl_length s"
    using ok by (simp_all add: slot_ok_def u64_try_from_def unat_of_nat)
  have stop: "u64_checked_add (sl_address s) (of_nat (sl_length s)) = Some (sl_address s + of_nat (sl_length s))"
    "unat (sl_address s + of_nat (sl_length s)) = unat (sl_address s) + sl_length s"
    using ok len(2) by (simp_all add: slot_ok_def u64_checked_add_def unat_word_ariths)
  have "resolve r (key_of kind s) kind required address len =
      (if \<not> access_contains (sl_access s) required then Inl AccessDenied
       else and_then (ok_or (u64_try_from len) AddressOverflow) (\<lambda>n.
         and_then (ok_or (u64_checked_add address n) AddressOverflow) (\<lambda>e.
         if address < sl_address s \<or> e > sl_address s + of_nat (sl_length s) then Inl RangeOutOfBounds
         else Inr (sl_address s, unat (address - sl_address s)))))"
    using get live slot_at_live [of r i s] ptr
    by (simp add: resolve_def key_of_def len(1) stop(1) cong: if_cong)
  moreover have "and_then (ok_or (u64_try_from len) AddressOverflow) (\<lambda>n.
         and_then (ok_or (u64_checked_add address n) AddressOverflow) f) =
      (if 2 ^ 64 \<le> unat address + len then Inl AddressOverflow else f (address + of_nat len))" for f :: "u64 \<Rightarrow> MemoryError + u64 \<times> nat"
    by (auto simp: u64_try_from_def u64_checked_add_def unat_of_nat)
  moreover have "unat (address + of_nat len) = unat address + len" if "unat address + len < 2 ^ 64"
    using that by (simp add: unat_word_ariths unat_of_nat)
  ultimately show ?thesis
    using stop(2) by (auto simp: word_less_nat_alt not_le not_less unat_sub word_le_nat_alt)
qed

lemma resolve_no_region:
  assumes "registry_inv r" "\<And>i s. region_live r i s \<Longrightarrow> k \<noteq> key_of kind s"
  shows "resolve r k kind required address len = Inl InvalidKey"
proof -
  have "key_get (keys r) k kind = None" using key_get_live [OF assms(1), of k kind] assms(2) by (metis not_None_eq)
  then show ?thesis by (simp add: resolve_def)
qed

lemma resolve_iff:
  assumes "registry_inv r"
  shows "resolve r k kind required address len = Inr (pointer, offset) \<longleftrightarrow>
    (\<exists>s. granted r k kind required address len s \<and> pointer = sl_address s \<and>
         offset = unat address - unat (sl_address s))"
proof (cases "\<exists>i s. region_live r i s \<and> k = key_of kind s")
  case True
  then obtain i s where s: "region_live r i s" "k = key_of kind s" by blast
  have only: "granted r k kind required address len t \<longleftrightarrow> t = s \<and> access_contains (sl_access s) required \<and>
     sl_address s \<le> address \<and> unat address + len \<le> unat (sl_address s) + sl_length s" for t
    using live_key_unique [OF assms s(1)] s unfolding granted_def by metis
  have "unat (sl_address s) + sl_length s < 2 ^ 64"
    using registry_invD(5) [OF assms s(1)] by (simp add: slot_ok_def)
  moreover have "resolve r k kind required address len =
    (if \<not> access_contains (sl_access s) required then Inl AccessDenied
     else if 2 ^ 64 \<le> unat address + len then Inl AddressOverflow
     else if address < sl_address s \<or> unat (sl_address s) + sl_length s < unat address + len
     then Inl RangeOutOfBounds
     else Inr (sl_address s, unat address - unat (sl_address s)))"
    using resolve_region [OF assms s(1)] s(2) by simp
  ultimately show ?thesis by (auto simp: only not_less)
next
  case False
  then have "resolve r k kind required address len = Inl InvalidKey"
    using resolve_no_region [OF assms] by blast
  then show ?thesis using False by (auto simp: granted_def)
qed

section \<open>Copies\<close>

lemma write_bytes_other:
  "(\<And>i. i < length bs \<Longrightarrow> x \<noteq> a + of_nat i) \<Longrightarrow> write_bytes mem a bs x = mem x"
proof (induction bs arbitrary: mem a)
  case (Cons b bs)
  have "x \<noteq> a" using Cons.prems [of 0] by simp
  moreover have "x \<noteq> a + 1 + of_nat i" if "i < length bs" for i
    using Cons.prems [of "Suc i"] that by (simp add: add.assoc)
  ultimately show ?case using Cons.IH [of "a + 1"] by simp
qed simp

lemma write_bytes_at:
  "length bs \<le> 2 ^ 64 \<Longrightarrow> i < length bs \<Longrightarrow> write_bytes mem a bs (a + of_nat i) = bs ! i"
proof (induction bs arbitrary: mem a i)
  case (Cons b bs)
  show ?case
  proof (cases i)
    case 0
    have "a \<noteq> a + 1 + of_nat j" if "j < length bs" for j
    proof
      assume "a = a + 1 + of_nat j"
      then have "(1 + of_nat j :: u64) = 0" by (metis add.assoc add_cancel_right_right)
      then have zero: "(of_nat (Suc j) :: u64) = 0" by simp
      have "Suc j < 2 ^ 64" using that Cons.prems(1) by simp
      then have "unat (of_nat (Suc j) :: u64) = Suc j" by (simp only: unat_of_nat) simp
      with zero show False by simp
    qed
    then show ?thesis using 0 write_bytes_other [of bs a "a + 1" "mem(a := b)"] by simp
  next
    case (Suc j)
    then show ?thesis using Cons.IH [of j "mem(a := b)" "a + 1"] Cons.prems by (simp add: add.assoc fun_upd_def)
  qed
qed simp

definition in_range :: "u64 \<Rightarrow> nat \<Rightarrow> u64 \<Rightarrow> bool" where
  "in_range a len x \<longleftrightarrow> unat a \<le> unat x \<and> unat x < unat a + len"

lemma copy_address:
  assumes "granted r k kind required address len s" "registry_inv r"
  shows "sl_address s + of_nat (unat address - unat (sl_address s)) = address"
proof -
  have "unat (sl_address s) \<le> unat address" using assms(1) by (simp add: granted_def word_le_nat_alt)
  then have "of_nat (unat (sl_address s)) + of_nat (unat address - unat (sl_address s)) = (of_nat (unat address) :: u64)"
    by (simp only: of_nat_add [symmetric] le_add_diff_inverse)
  then show ?thesis by simp
qed

lemma granted_range:
  assumes "granted r k kind required address len s" "registry_inv r"
  shows "unat address + len < 2 ^ 64" "in_range address len x \<Longrightarrow> in_range (sl_address s) (sl_length s) x"
proof -
  obtain i where "region_live r i s" using assms(1) by (auto simp: granted_def)
  then have "slot_ok s" by (rule registry_invD(5) [OF assms(2)])
  then show "unat address + len < 2 ^ 64" using assms(1) by (simp add: granted_def slot_ok_def)
  show "in_range address len x \<Longrightarrow> in_range (sl_address s) (sl_length s) x"
    using assms(1) by (auto simp: in_range_def granted_def word_le_nat_alt)
qed

lemma write_bytes_range:
  assumes "unat a + length bs < 2 ^ 64"
  shows "write_bytes mem a bs x = (if in_range a (length bs) x then bs ! (unat x - unat a) else mem x)"
proof (cases "in_range a (length bs) x")
  case True
  define i where "i = unat x - unat a"
  have i: "i < length bs" using True by (auto simp: in_range_def i_def)
  have "(of_nat (unat a) + of_nat i :: u64) = of_nat (unat x)"
    using True by (simp only: of_nat_add [symmetric]) (simp add: i_def in_range_def)
  then have "x = a + of_nat i" by simp
  then have "write_bytes mem a bs x = bs ! i" using write_bytes_at [of bs i mem a] i assms by simp
  then show ?thesis using True by (simp add: i_def)
next
  case False
  have "x \<noteq> a + of_nat i" if "i < length bs" for i
  proof
    assume x: "x = a + of_nat i"
    have "unat (a + of_nat i) = unat a + i" using that assms by (simp add: unat_word_ariths unat_of_nat)
    then show False using False that x by (simp add: in_range_def)
  qed
  then show ?thesis using write_bytes_other [of bs x a mem] False by simp
qed

lemma read_back:
  assumes "unat a + length bs < 2 ^ 64" "p + of_nat off = a"
  shows "copy_from_registered (write_bytes mem a bs) p off (length bs) = bs"
proof -
  have "write_bytes mem a bs (p + of_nat (off + i)) = bs ! i" if "i < length bs" for i
    using write_bytes_at [of bs i mem a] that assms by (simp add: add.assoc [symmetric])
  then show ?thesis unfolding copy_from_registered_def by (auto intro!: nth_equalityI)
qed

section \<open>The operations keep the invariant\<close>

lemma region_live_update:
  "region_live (r\<lparr>slots := (slots r)[i := x]\<rparr>) j t \<longleftrightarrow>
    (if j = i then i < length (slots r) \<and> x = Some t else region_live r j t)"
  by (auto simp: region_live_def nth_list_update)

lemma live_frame [simp]:
  "region_live (r\<lparr>keys := ks\<rparr>) = region_live r" "region_live (r\<lparr>generations := gs\<rparr>) = region_live r"
  "region_live (r\<lparr>registered := n\<rparr>) = region_live r" "region_live (r\<lparr>reg_sequence := q\<rparr>) = region_live r"
  by (simp_all add: region_live_def fun_eq_iff)

lemma registry_new_inv: "registry_new n seed next_id = (next_id', Inr r) \<Longrightarrow> registry_inv r"
proof -
  assume "registry_new n seed next_id = (next_id', Inr r)"
  then have n: "n \<le> MAX_REGIONS" and r: "r = \<lparr>slots = replicate n None, generations = replicate n 0,
      reg_seed = seed, reg_sequence = 0, identity = next_id, keys = key_table_new n, registered = 0\<rparr>"
    by (auto simp: registry_new_def not_less split: if_splits option.splits)
  have "\<not> region_live r i s" for i s by (simp add: r region_live_def)
  then show ?thesis
    using n key_new_inv by (simp add: registry_inv_def) (simp add: r key_table_new_def)
qed

lemma references_inv:
  assumes "registry_inv r" "region_live r i s"
  shows "registry_inv (r\<lparr>slots := (slots r)[i := Some (s\<lparr>sl_references := n\<rparr>)]\<rparr>)" (is "registry_inv ?r")
proof -
  let ?s = "s\<lparr>sl_references := n\<rparr>"
  have i: "i < length (slots r)" using assms(2) by (simp add: region_live_def)
  have live: "region_live ?r j t \<longleftrightarrow> (if j = i then t = ?s else region_live r j t)" for j t
    using i by (auto simp: region_live_update)
  have ok: "slot_ok ?s" "sl_generation ?s = generations r ! i" "key_of kind ?s = key_of kind s" for kind
    using registry_invD(5,6) [OF assms] by (simp_all add: slot_ok_def key_of_def split: KeyKind.split)
  have ex: "(\<exists>t. region_live ?r j t \<and> k = key_of kind t) \<longleftrightarrow> (\<exists>t. region_live r j t \<and> k = key_of kind t)" for j k kind
    using assms(2) by (cases "j = i") (auto simp: live ok(3) region_live_def)
  have "{j. \<exists>t. region_live ?r j t} = {j. \<exists>t. region_live r j t}"
    using assms(2) unfolding live by auto
  moreover have "slot_ok t \<and> sl_generation t = generations r ! j" if "region_live ?r j t" for j t
    using that ok(1,2) registry_invD(5,6) [OF assms(1)] unfolding live by (metis (full_types))
  ultimately show ?thesis
    using registry_invD [OF assms(1)] unfolding registry_inv_def ex MAX_REGIONS_def by simp
qed

lemma retain_inv:
  assumes "registry_inv r" "retain k kind r = (r', res)"
  shows "registry_inv r'"
proof -
  have "\<exists>s. region_live r i s" if "key_get (keys r) k kind = Some i" for i
    using key_get_live [OF assms(1)] that by blast
  then show ?thesis
    using assms references_inv [OF assms(1)] unfolding retain_live [OF assms(1)]
    by (auto simp: Let_def region_live_def split: option.splits if_splits)
qed

lemma release_inv:
  assumes "registry_inv r" "release lease r = (r', lease', res)"
  shows "registry_inv r'"
  using assms references_inv [OF assms(1)]
  by (auto simp: release_def slot_at_live split: option.splits if_splits)

lemma live_finite: "finite {i. \<exists>s. region_live r i s}"
  by (rule finite_subset [of _ "{..<length (slots r)}"]) (auto simp: region_live_def)

lemma deregister_success:
  assumes "registry_inv r" "deregister h r = (r', Inr region)"
  obtains s where "region_live r (unat (rh_slot h)) s" "sl_references s = 0" "region = (sl_address s, sl_length s)"
    "rh_lkey h = sl_lkey s" "rh_rkey h = sl_rkey s" "rh_generation h = sl_generation s"
    "r' = r\<lparr>slots := (slots r)[unat (rh_slot h) := None],
       keys := key_remove (key_remove (keys r) (sl_lkey s)) (sl_rkey s), registered := registered r - 1\<rparr>"
proof -
  obtain s where s: "slot_at r (unat (rh_slot h)) = Some s"
    using assms(2) by (cases "slot_at r (unat (rh_slot h))") (simp_all add: deregister_def)
  then have "region_live r (unat (rh_slot h)) s" by (simp add: slot_at_live)
  moreover from this have "sl_pointer s = sl_address s"
    using registry_invD(5) [OF assms(1)] by (auto simp: slot_ok_def)
  ultimately show thesis
    using assms(2) s by (intro that [of s]) (auto simp: deregister_def Let_def split: if_splits option.splits)
qed

lemma deregister_inv:
  assumes "registry_inv r" "deregister h r = (r', Inr region)"
  shows "registry_inv r'"
proof -
  obtain s where s: "region_live r (unat (rh_slot h)) s"
    and r': "r' = r\<lparr>slots := (slots r)[unat (rh_slot h) := None],
       keys := key_remove (key_remove (keys r) (sl_lkey s)) (sl_rkey s), registered := registered r - 1\<rparr>"
    using deregister_success [OF assms] .
  let ?i = "unat (rh_slot h)" and ?ks = "key_remove (keys r) (sl_lkey s)"
  have live: "region_live r' j t \<longleftrightarrow> j \<noteq> ?i \<and> region_live r j t" for j t
    by (cases "j = ?i") (auto simp: r' region_live_def)
  note inv = registry_invD [OF assms(1)]
  have k1: "key_inv ?ks" "length (key_entries ?ks) = length (slots r)" "key_find ?ks = (key_find (keys r))(sl_lkey s := None)"
    using key_remove_refines [OF inv(3)] inv(4) by (simp_all add: spec_del_def)
  have k2: "key_inv (keys r')" "length (key_entries (keys r')) = length (slots r)"
    "key_find (keys r') = (key_find (keys r))(sl_lkey s := None, sl_rkey s := None)"
    using key_remove_refines [OF k1(1)] k1 by (simp_all add: r' spec_del_def)
  have find: "key_find (keys r') k = Some (slot, kind) \<longleftrightarrow> (\<exists>t. region_live r' (unat slot) t \<and> k = key_of kind t)"
    for k slot kind
  proof -
    have "(\<exists>t. region_live r' (unat slot) t \<and> k = key_of kind t) \<longleftrightarrow>
        k \<noteq> sl_lkey s \<and> k \<noteq> sl_rkey s \<and> (\<exists>t. region_live r (unat slot) t \<and> k = key_of kind t)"
    proof -
      have "t = s \<and> unat slot = ?i" if "region_live r (unat slot) t" "key_of kind t = sl_lkey s \<or> key_of kind t = sl_rkey s" for t
        using live_key_unique [OF assms(1) that(1) s, of kind LocalKey]
          live_key_unique [OF assms(1) that(1) s, of kind RemoteKey] that(2) by (auto simp: key_of_def)
      moreover have "key_of kind s = sl_lkey s \<or> key_of kind s = sl_rkey s" by (cases kind) (simp_all add: key_of_def)
      moreover have "t = s" if "region_live r ?i t" for t using that s by (simp add: region_live_def)
      ultimately show ?thesis unfolding live by metis
    qed
    then show ?thesis unfolding k2(3) using inv(7) by auto
  qed
  have rest: "{j. \<exists>t. region_live r' j t} = {j. \<exists>t. region_live r j t} - {?i}" unfolding live by auto
  have mem: "?i \<in> {j. \<exists>t. region_live r j t}" using s by blast
  have reg: "registered r' = registered r - 1" by (simp add: r')
  have count: "registered r' = card {j. \<exists>t. region_live r' j t}"
    unfolding rest card_Diff_singleton [OF mem] reg inv(8) ..
  have frame: "length (slots r') = length (slots r)" "generations r' = generations r" by (simp_all add: r')
  show ?thesis
    by (rule registry_invI) (use inv k2(1,2) find count live frame in auto)
qed

lemma same_sequence: "\<exists>q. r = r\<lparr>reg_sequence := q\<rparr>"
  by (rule exI [of _ "reg_sequence r"]) simp

lemma next_key_loop_frame:
  "next_key_loop f gen other r g = (r', g', res) \<Longrightarrow>
   (\<exists>q. r' = r\<lparr>reg_sequence := q\<rparr>) \<and>
   (\<forall>k. res = Inr k \<longrightarrow> k \<noteq> 0 \<and> k \<noteq> other \<and> key_find (keys r) k = None)"
proof (induction f arbitrary: r g)
  case 0
  then have "r' = r\<lparr>reg_sequence := reg_sequence r\<rparr>" by simp
  then show ?case using 0 by (metis next_key_loop.simps(1) prod.inject sum.distinct(1))
next
  case (Suc f)
  obtain r1 g1 c where step: "(case gen of
       Some next \<Rightarrow> (let (g', k) = next g in (r, g', k))
     | None \<Rightarrow>
         (case u32_checked_add (reg_sequence r) 1 of
            None \<Rightarrow> (r, g, Inl KeySpaceExhausted)
          | Some s \<Rightarrow> (r\<lparr>reg_sequence := s\<rparr>, g, Inr (mix32 (s + reg_seed r))))) = (r1, g1, c)"
    using prod_cases3 by blast
  have r1: "\<exists>q. r1 = r\<lparr>reg_sequence := q\<rparr>"
    using step same_sequence by (auto split: option.splits prod.splits)
  have run: "(case c of Inl e \<Rightarrow> (r1, g1, Inl e)
      | Inr k \<Rightarrow> if k \<noteq> 0 \<and> k \<noteq> other \<and> \<not> key_contains (keys r1) k then (r1, g1, Inr k)
               else next_key_loop f gen other r1 g1) = (r', g', res)"
    using Suc.prems unfolding next_key_loop.simps step by simp
  show ?case
  proof (cases c)
    case (Inl e)
    then show ?thesis using run r1 by auto
  next
    case (Inr k)
    show ?thesis
    proof (cases "k \<noteq> 0 \<and> k \<noteq> other \<and> \<not> key_contains (keys r1) k")
      case True
      then show ?thesis using run Inr r1 by (auto simp: key_contains_find domIff simp del: not_None_eq)
    next
      case False
      then have "next_key_loop f gen other r1 g1 = (r', g', res)" using run Inr by auto
      from Suc.IH [OF this] r1 show ?thesis by auto
    qed
  qed
qed

lemma sequence_inv [simp]: "registry_inv (r\<lparr>reg_sequence := q\<rparr>) = registry_inv r"
  by (simp add: registry_inv_def)

lemma free_slot_Some: "free_slot r = Some i \<Longrightarrow> i < length (slots r) \<and> slots r ! i = None"
  by (auto simp: free_slot_def find_Some_iff)

lemma key_count:
  assumes "registry_inv r"
  shows "card (dom (key_find (keys r))) \<le> 2 * card {i. \<exists>s. region_live r i s}"
proof -
  let ?L = "{i. \<exists>s. region_live r i s}"
  let ?l = "\<lambda>i. sl_lkey (the (slots r ! i))" and ?r = "\<lambda>i. sl_rkey (the (slots r ! i))"
  have "dom (key_find (keys r)) \<subseteq> ?l ` ?L \<union> ?r ` ?L"
  proof
    fix k assume "k \<in> dom (key_find (keys r))"
    then obtain slot kind where "key_find (keys r) k = Some (slot, kind)" by fastforce
    then obtain s where "region_live r (unat slot) s" "k = key_of kind s"
      using registry_invD(7) [OF assms] by blast
    then show "k \<in> ?l ` ?L \<union> ?r ` ?L"
      by (cases kind) (force simp: key_of_def region_live_def image_iff)+
  qed
  then have "card (dom (key_find (keys r))) \<le> card (?l ` ?L \<union> ?r ` ?L)"
    using live_finite [of r] by (intro card_mono) auto
  also have "\<dots> \<le> card ?L + card ?L"
    using live_finite [of r] by (meson add_mono card_Un_le card_image_le le_trans)
  finally show ?thesis by simp
qed

lemma free_slot_room:
  assumes "registry_inv r" "free_slot r = Some i"
  shows "card (dom (key_find (keys r))) + 2 \<le> 2 * length (slots r)"
proof -
  have i: "i < length (slots r)" "slots r ! i = None" using free_slot_Some [OF assms(2)] by auto
  have "{i. \<exists>s. region_live r i s} \<subseteq> {..<length (slots r)} - {i}"
    using i by (auto simp: region_live_def)
  then have "card {i. \<exists>s. region_live r i s} \<le> card ({..<length (slots r)} - {i})"
    by (rule card_mono [rotated]) simp
  then have "card {i. \<exists>s. region_live r i s} + 1 \<le> length (slots r)" using i(1) by simp
  then show ?thesis using key_count [OF assms(1)] by linarith
qed

lemma key_insert_room:
  assumes "key_inv t" "k \<noteq> 0" "key_find t k = None" "card (dom (key_find t)) < key_capacity t"
  obtains t' where "key_insert t k slot kind = (t', True)" "key_inv t'"
    "length (key_entries t') = length (key_entries t)" "key_find t' = (key_find t)(k \<mapsto> (slot, kind))"
proof -
  obtain t' b where ins: "key_insert t k slot kind = (t', b)" by fastforce
  have b: "b = True" using key_insert_False [OF assms(1), of k slot kind t'] ins assms by (cases b) (auto simp: domIff)
  show thesis using key_insert_True [OF assms(1), of k slot kind t'] ins that b by blast
qed

text \<open>With a free slot the key table has room for both keys, so registration fails only before
  the first insertion, having advanced the deterministic key sequence at most.\<close>

lemma register_cases:
  assumes inv: "registry_inv r" and reg: "register_inner gen (pointer, len) access r g = (r', g', res)"
  obtains (fail) e q where "res = Inl e" "r' = r\<lparr>reg_sequence := q\<rparr>"
  | (ok) i q lkey rkey ks s where "free_slot r = Some i" "i < length (slots r)" "slots r ! i = None"
      "s = \<lparr>sl_pointer = pointer, sl_address = pointer, sl_length = len, sl_access = access,
        sl_lkey = lkey, sl_rkey = rkey, sl_generation = generations r ! i + 1, sl_references = 0\<rparr>"
      "unat (generations r ! i) + 1 < 2 ^ 32"
      "slot_ok s" "key_find (keys r) lkey = None" "key_find (keys r) rkey = None"
      "key_inv ks" "length (key_entries ks) = length (key_entries (keys r))"
      "key_find ks = (key_find (keys r))(lkey \<mapsto> (of_nat i, LocalKey), rkey \<mapsto> (of_nat i, RemoteKey))"
      "r' = r\<lparr>reg_sequence := q, keys := ks, generations := (generations r)[i := generations r ! i + 1],
        slots := (slots r)[i := Some s], registered := registered r + 1\<rparr>"
      "res = Inr \<lparr>rh_address = pointer, rh_length = of_nat len, rh_lkey = lkey, rh_rkey = rkey,
        rh_slot = of_nat i, rh_generation = generations r ! i + 1\<rparr>"
proof (cases "len = 0 \<or> access_contains access REMOTE_WRITE \<and> \<not> access_contains access LOCAL_WRITE \<or>
    free_slot r = None \<or> pointer = 0 \<or> 2 ^ 64 \<le> unat pointer + len \<or>
    2 ^ 32 \<le> unat (generations r ! the (free_slot r)) + 1")
  case True
  have "r' = r \<and> (\<exists>e. res = Inl e)"
    using True reg
    by (auto simp: register_inner_def u64_try_from_def u64_checked_add_def u32_checked_add_def unat_of_nat
        split: if_splits option.splits)
  moreover have "r = r\<lparr>reg_sequence := reg_sequence r\<rparr>" by simp
  ultimately show thesis using fail by metis
next
  case False
  then obtain i where i: "free_slot r = Some i" by auto
  note fs = free_slot_Some [OF i]
  have small: "i < 4096" using fs registry_invD(1) [OF inv] by simp
  let ?gen = "generations r ! i + 1"
  have pre: "u64_try_from len = Some (of_nat len)" "u64_checked_add pointer (of_nat len) \<noteq> None"
    "u16_try_from i = Some (of_nat i)" "u32_checked_add (generations r ! i) 1 = Some ?gen"
    using False i small
    by (auto simp: u64_try_from_def u64_checked_add_def u16_try_from_def u32_checked_add_def unat_of_nat)
  obtain r1 g1 res1 where k1: "next_key gen 0 r g = (r1, g1, res1)" using prod_cases3 by blast
  obtain q1 where r1: "r1 = r\<lparr>reg_sequence := q1\<rparr>"
    and res1: "\<And>k. res1 = Inr k \<Longrightarrow> k \<noteq> 0 \<and> key_find (keys r) k = None"
    using next_key_loop_frame [of KEY_ATTEMPTS gen 0 r g r1 g1 res1] k1 unfolding next_key_def by auto
  note head = False i pre
  show thesis
  proof (cases res1)
    case (Inl e)
    then have "r' = r1 \<and> res = Inl e"
      using reg head k1 by (auto simp: register_inner_def)
    then show thesis using fail r1 by blast
  next
    case lkey: (Inr lkey)
    obtain r2 g2 res2 where k2: "next_key gen lkey r1 g1 = (r2, g2, res2)" using prod_cases3 by blast
    obtain q2 where r2: "r2 = r\<lparr>reg_sequence := q2\<rparr>"
      and res2: "\<And>k. res2 = Inr k \<Longrightarrow> k \<noteq> 0 \<and> k \<noteq> lkey \<and> key_find (keys r) k = None"
      using next_key_loop_frame [of KEY_ATTEMPTS gen lkey r1 g1 r2 g2 res2] k2 r1
      unfolding next_key_def by auto
    show thesis
    proof (cases res2)
      case (Inl e)
      then have "r' = r2 \<and> res = Inl e"
        using reg head k1 k2 lkey by (auto simp: register_inner_def)
      then show thesis using fail r2 by blast
    next
      case rkey: (Inr rkey)
      have l: "lkey \<noteq> 0" "key_find (keys r) lkey = None" using res1 [OF lkey] by simp_all
      have rk: "rkey \<noteq> 0" "rkey \<noteq> lkey" "key_find (keys r) rkey = None" using res2 [OF rkey] by simp_all
      have room: "card (dom (key_find (keys r))) + 2 \<le> 2 * length (slots r)" by (rule free_slot_room [OF inv i])
      have cap: "length (key_entries (keys r)) = length (slots r)" by (rule registry_invD(4) [OF inv])
      obtain ks1 where ks1: "key_insert (keys r) lkey (of_nat i) LocalKey = (ks1, True)" "key_inv ks1"
        "length (key_entries ks1) = length (key_entries (keys r))"
        "key_find ks1 = (key_find (keys r))(lkey \<mapsto> (of_nat i, LocalKey))"
        using key_insert_room [OF registry_invD(3) [OF inv] l] room cap by auto
      have fin: "finite (dom (key_find (keys r)))"
        by (rule ccontr) (use room fs in auto)
      have "card (dom (key_find ks1)) \<le> card (dom (key_find (keys r))) + 1"
        unfolding ks1(4) using fin by (simp add: card_insert_if)
      then obtain ks where ks: "key_insert ks1 rkey (of_nat i) RemoteKey = (ks, True)" "key_inv ks"
        "length (key_entries ks) = length (key_entries ks1)"
        "key_find ks = (key_find ks1)(rkey \<mapsto> (of_nat i, RemoteKey))"
        using key_insert_room [OF ks1(2) rk(1)] rk room cap ks1(3,4) by auto
      define s where "s = \<lparr>sl_pointer = pointer, sl_address = pointer, sl_length = len, sl_access = access,
        sl_lkey = lkey, sl_rkey = rkey, sl_generation = ?gen, sl_references = 0\<rparr>"
      have "slot_ok s" using False l rk by (auto simp: slot_ok_def s_def)
      moreover have "r' = r\<lparr>reg_sequence := q2, keys := ks, generations := (generations r)[i := ?gen],
          slots := (slots r)[i := Some s], registered := registered r + 1\<rparr> \<and>
        res = Inr \<lparr>rh_address = pointer, rh_length = of_nat len, rh_lkey = lkey, rh_rkey = rkey,
          rh_slot = of_nat i, rh_generation = ?gen\<rparr>"
        using reg head k1 k2 lkey rkey ks1(1) ks(1) r2 by (auto simp: register_inner_def s_def)
      moreover have "unat (generations r ! i) + 1 < 2 ^ 32" using False i by simp
      ultimately show thesis
        using ok [of i s lkey rkey ks q2] i fs l rk ks ks1 s_def by simp
    qed
  qed
qed

lemma register_inv:
  assumes "registry_inv r" "register_inner gen region access r g = (r', g', res)"
  shows "registry_inv r'"
proof -
  obtain pointer len where region: "region = (pointer, len)" by fastforce
  show ?thesis
  proof (cases rule: register_cases [OF assms(1) assms(2) [unfolded region], case_names fail ok])
    case (fail e q)
    then show ?thesis using assms(1) by simp
  next
    case (ok i q lkey rkey ks s)
    note inv = registry_invD [OF assms(1)]
    have small: "unat (of_nat i :: u16) = i" using ok(2) inv(1) by (simp add: unat_of_nat)
    have live: "region_live r' j t \<longleftrightarrow> (if j = i then t = s else region_live r j t)" for j t
      using ok(2) by (auto simp: ok(12) region_live_def nth_list_update)
    have free: "\<not> region_live r i t" for t using ok(3) by (simp add: region_live_def)
    have keys: "sl_lkey s = lkey" "sl_rkey s = rkey" "lkey \<noteq> rkey"
      using ok(6) by (simp_all add: ok(4) slot_ok_def)
    have find': "key_find (keys r')
        = (key_find (keys r))(lkey \<mapsto> (of_nat i, LocalKey), rkey \<mapsto> (of_nat i, RemoteKey))"
      by (simp add: ok(12) ok(11))
    have find: "key_find (keys r') k = Some (slot, kind) \<longleftrightarrow> (\<exists>t. region_live r' (unat slot) t \<and> k = key_of kind t)"
      for k slot kind
    proof (cases "unat slot = i")
      case True
      then have "slot = of_nat i" by auto
      moreover have "key_find (keys r) k \<noteq> Some (slot, kind)" using inv(7) free True by blast
      ultimately show ?thesis
        using True keys ok(7,8) by (cases kind) (auto simp: find' live key_of_def)
    next
      case False
      then have "slot \<noteq> of_nat i" using small by auto
      then show ?thesis using False inv(7) [of k slot kind] ok(7,8)
        by (auto simp: find' live)
    qed
    have frame: "length (slots r') = length (slots r)" "length (generations r') = length (generations r)"
      "generations r' ! i = generations r ! i + 1" "j \<noteq> i \<Longrightarrow> generations r' ! j = generations r ! j"
      "keys r' = ks" "registered r' = registered r + 1" for j
      using ok(2) inv(2) by (simp_all add: ok(12))
    have "{j. \<exists>t. region_live r' j t} = insert i {j. \<exists>t. region_live r j t}" unfolding live by auto
    then have count: "registered r' = card {j. \<exists>t. region_live r' j t}"
      using live_finite [of r] free inv(8) frame(6) by simp
    have ok_slots: "slot_ok t \<and> sl_generation t = generations r' ! j" if "region_live r' j t" for j t
      using that inv(5,6) [of j t] ok(6) frame(3,4) unfolding live by (auto simp: ok(4) split: if_splits)
    show ?thesis
      by (rule registry_invI) (use inv(1-4) ok(9,10) find count ok_slots frame in auto)
  qed
qed

section \<open>A registry with one region\<close>

text \<open>The handle that registration returned for a live region.\<close>

definition handle_of :: "usize \<Rightarrow> Slot \<Rightarrow> RegionHandle" where
  "handle_of i s = \<lparr>rh_address = sl_address s, rh_length = of_nat (sl_length s), rh_lkey = sl_lkey s,
     rh_rkey = sl_rkey s, rh_slot = of_nat i, rh_generation = sl_generation s\<rparr>"

text \<open>A concrete registry before and after one registration.\<close>

definition sample_registry :: MemoryRegistry where
  "sample_registry = \<lparr>slots = [None], generations = [0], reg_seed = 10, reg_sequence = 0,
     identity = 1, keys = key_table_new 1, registered = 0\<rparr>"

definition sample_slot :: "u32 \<Rightarrow> Slot" where
  "sample_slot n = \<lparr>sl_pointer = 4096, sl_address = 4096, sl_length = 64, sl_access = AccessFlags 7,
     sl_lkey = 69794299, sl_rkey = 2631693420, sl_generation = 1, sl_references = n\<rparr>"

definition sample_live :: "u32 \<Rightarrow> MemoryRegistry" where
  "sample_live n = \<lparr>slots = [Some (sample_slot n)], generations = [1], reg_seed = 10, reg_sequence = 2,
     identity = 1, keys = \<lparr>key_entries = [[
       \<lparr>ke_key = 2631693420, ke_slot = 0, ke_kind = RemoteKey\<rparr>, KEY_ENTRY_EMPTY, KEY_ENTRY_EMPTY,
       \<lparr>ke_key = 69794299, ke_slot = 0, ke_kind = LocalKey\<rparr>]]\<rparr>,
     registered = 1\<rparr>"

lemma sample_registry_new: "registry_new 1 10 1 = (2, Inr sample_registry)"
  by (simp add: registry_new_def sample_registry_def MAX_REGIONS_def u32_checked_add_def)

lemma next_key_first:
  assumes "u32_checked_add (reg_sequence r) 1 = Some q" "k = mix32 (q + reg_seed r)"
    and "k \<noteq> 0" "k \<noteq> other" "\<not> key_contains (keys r) k"
  shows "next_key None other r g = (r\<lparr>reg_sequence := q\<rparr>, g, Inr k)"
  using assms by (simp add: next_key_def KEY_ATTEMPTS_def numeral_eq_Suc)

lemma loops_numeral:
  "position_loop (numeral n) i t k = (if ke_key (key_entry t i) = k then Some i
     else if ke_key (key_entry t i) = 0 then None
     else position_loop (pred_numeral n) ((i + 1) mod key_capacity t) t k)"
  "key_insert_loop (numeral n) i t e = (if ke_key (key_entry t i) = ke_key e then (t, False)
     else if ke_key (key_entry t i) = 0 then (key_set t i e, True)
     else key_insert_loop (pred_numeral n) ((i + 1) mod key_capacity t) t e)"
  by (simp_all add: numeral_eq_Suc Let_def)

lemma sample_hash: "unat (mix32 69794299) mod 4 = 3" "unat (mix32 2631693420) mod 4 = 0"
  "mix32 11 = 69794299" "mix32 12 = 2631693420"
  by (simp_all add: mix32_def)

lemma sample_keys:
  "key_table_new (Suc 0) = \<lparr>key_entries = [[KEY_ENTRY_EMPTY, KEY_ENTRY_EMPTY, KEY_ENTRY_EMPTY, KEY_ENTRY_EMPTY]]\<rparr>"
  by (simp add: key_table_new_def eval_nat_numeral)

lemmas sample_eval = sample_hash key_contains_def key_position_def key_entry_def key_set_def key_insert_def
  KEY_ENTRY_EMPTY_def sample_keys loops_numeral

lemma sample_register:
  "register_inner None (4096, 64) (AccessFlags 7) sample_registry g =
     (sample_live 0, g, Inr (handle_of 0 (sample_slot 0)))"
proof -
  let ?ks = "keys sample_registry" and ?r = "\<lambda>q. sample_registry\<lparr>reg_sequence := q\<rparr>"
  let ?mid = "\<lparr>key_entries = [[KEY_ENTRY_EMPTY, KEY_ENTRY_EMPTY, KEY_ENTRY_EMPTY,
       \<lparr>ke_key = 69794299, ke_slot = 0, ke_kind = LocalKey\<rparr>]]\<rparr> :: KeyTable"
  have "\<not> key_contains ?ks 69794299" "\<not> key_contains ?ks 2631693420"
    by (simp_all add: sample_registry_def sample_eval)
  then have "next_key None 0 sample_registry g = (?r 1, g, Inr 69794299)"
    "next_key None 69794299 (?r 1) g = (?r 2, g, Inr 2631693420)"
    by (subst next_key_first; simp add: u32_checked_add_def sample_registry_def sample_hash)+
  moreover have "key_insert ?ks 69794299 0 LocalKey = (?mid, True)"
    by (simp add: sample_registry_def sample_eval)
  moreover have "key_insert ?mid 2631693420 0 RemoteKey = (keys (sample_live 0), True)"
    by (simp add: sample_live_def sample_eval)
  moreover have "free_slot sample_registry = Some 0" by (simp add: free_slot_def sample_registry_def)
  ultimately show ?thesis
    by (simp add: register_inner_def access_contains_def REMOTE_WRITE_def LOCAL_WRITE_def
        u64_try_from_def u64_checked_add_def u16_try_from_def u32_checked_add_def)
       (simp add: sample_registry_def sample_live_def sample_slot_def handle_of_def)
qed

lemma sample_get: "key_get (keys (sample_live n)) 69794299 LocalKey = Some 0"
  "key_get (keys (sample_live n)) 2631693420 RemoteKey = Some 0"
  by (simp_all add: sample_live_def sample_eval key_get_def)

section \<open>Remote writes\<close>

text \<open>
  C30: A remote write that succeeds was granted: its key is the remote key of a live region
  that permits remote writing, and the addressed range lies inside that region.  It stores
  the octets at the addressed range, changes no other octet of memory, and a remote read of
  the range that is permitted afterwards returns them.
\<close>

theorem write_remote_contained:
  assumes "registry_inv r" "write_remote r mem rkey address input = Inr mem'"
  shows "\<exists>i s. region_live r i s \<and> sl_rkey s = rkey \<and> access_contains (sl_access s) REMOTE_WRITE \<and>
      access_contains (sl_access s) LOCAL_WRITE \<and>
      (\<forall>x. in_range address (length input) x \<longrightarrow> in_range (sl_address s) (sl_length s) x) \<and>
      (\<forall>x. mem' x = (if in_range address (length input) x then input ! (unat x - unat address) else mem x)) \<and>
      (access_contains (sl_access s) REMOTE_READ \<longrightarrow>
         read_remote r mem' rkey address (length input) = Inr input)"
proof -
  obtain p off where res: "resolve r rkey RemoteKey REMOTE_WRITE address (length input) = Inr (p, off)"
    and mem': "mem' = copy_to_registered mem p off input"
    using assms(2) by (auto simp: write_remote_def result_simps)
  then obtain s where g: "granted r rkey RemoteKey REMOTE_WRITE address (length input) s"
    and p: "p = sl_address s" "off = unat address - unat (sl_address s)"
    unfolding resolve_iff [OF assms(1)] by blast
  obtain i where live: "region_live r i s" using g by (auto simp: granted_def)
  have addr: "p + of_nat off = address" using copy_address [OF g assms(1)] p by simp
  have mem: "mem' = write_bytes mem address input" by (simp add: mem' copy_to_registered_def addr)
  have lw: "access_contains (sl_access s) LOCAL_WRITE"
    using registry_invD(5) [OF assms(1) live] g by (simp add: slot_ok_def granted_def)
  have rd: "read_remote r mem' rkey address (length input) = Inr input"
    if "access_contains (sl_access s) REMOTE_READ"
  proof -
    have "granted r rkey RemoteKey REMOTE_READ address (length input) s"
      using g that by (simp add: granted_def)
    then have "resolve r rkey RemoteKey REMOTE_READ address (length input) = Inr (p, off)"
      unfolding resolve_iff [OF assms(1)] using p by blast
    then show ?thesis
      using read_back [OF granted_range(1) [OF g assms(1)] addr, of mem]
      by (simp add: read_remote_def mem)
  qed
  show ?thesis
    using live g lw rd write_bytes_range [of address input mem] granted_range [OF g assms(1)]
    by (intro exI [of _ i] exI [of _ s]) (auto simp: mem granted_def key_of_def)
qed

lemma write_remote_contained_witness:
  "write_remote (sample_live 0) (\<lambda>_. 0) 2631693420 4100 [1, 2] =
     Inr (copy_to_registered (\<lambda>_. 0) 4096 4 [1, 2]) \<and>
   copy_to_registered (\<lambda>_. 0) 4096 4 [1, 2] 4101 = 2 \<and>
   read_remote (sample_live 0) (copy_to_registered (\<lambda>_. 0) 4096 4 [1, 2]) 2631693420 4100 2 = Inr [1, 2]"
proof -
  have inv: "registry_inv (sample_live 0)"
    using register_inv [OF registry_new_inv [OF sample_registry_new] sample_register [of "()"]] .
  have live: "region_live (sample_live 0) 0 (sample_slot 0)" by (simp add: region_live_def sample_live_def)
  have "resolve (sample_live 0) 2631693420 RemoteKey REMOTE_WRITE 4100 2 = Inr (4096, 4)"
    using resolve_region [OF inv live, of RemoteKey REMOTE_WRITE 4100 2]
    by (simp add: sample_slot_def key_of_def access_contains_def REMOTE_WRITE_def)
  then have w: "write_remote (sample_live 0) (\<lambda>_. 0) 2631693420 4100 [1, 2] =
      Inr (copy_to_registered (\<lambda>_. 0) 4096 4 [1, 2])"
    by (simp add: write_remote_def result_simps numeral_2_eq_2)
  obtain i s where s: "region_live (sample_live 0) i s"
    and x: "\<forall>x. copy_to_registered (\<lambda>_. 0) 4096 4 [1, 2] x =
      (if in_range 4100 (length [1, 2 :: u8]) x then [1, 2] ! (unat x - unat (4100 :: u64)) else 0)"
    and rd: "access_contains (sl_access s) REMOTE_READ \<longrightarrow>
      read_remote (sample_live 0) (copy_to_registered (\<lambda>_. 0) 4096 4 [1, 2]) 2631693420 4100 (length [1, 2 :: u8]) = Inr [1, 2]"
    using write_remote_contained [OF inv w] by blast
  have "s = sample_slot 0" using s by (auto simp: region_live_def sample_live_def)
  then have "access_contains (sl_access s) REMOTE_READ"
    by (simp add: sample_slot_def access_contains_def REMOTE_READ_def)
  moreover have two: "length [1, 2 :: u8] = 2" by simp
  ultimately show ?thesis using w rd x [THEN spec, of 4101] unfolding two by (simp add: in_range_def)
qed

end
