(* ===== verification/Mem_Lease.thy ===== *)
theory Mem_Lease
  imports Mem_Registry "HOL-Library.Multiset"
begin

text \<open>
  Runs of the memory registry.  \<open>registry_run\<close> executes any sequence of
  registrations (with the deterministic sequence or a key generator), retains,
  releases and deregistrations; the leases handed out and not yet released form
  the pool, and a lease can only be released from the pool because the token
  cannot be copied.  The lemmas relate reference counts and the pool, and show
  that keys of the deterministic sequence are never issued twice.
\<close>

section \<open>Runs\<close>

datatype registry_op =
    Register_Op bool "u64 \<times> usize" AccessFlags
  | Retain_Op u32 KeyKind
  | Release_Op nat
  | Deregister_Op RegionHandle

type_synonym 'g registry_world = "MemoryRegistry \<times> 'g \<times> RegionLease list"

definition drop_nth :: "nat \<Rightarrow> 'a list \<Rightarrow> 'a list" where
  "drop_nth n xs = take n xs @ drop (Suc n) xs"

fun registry_step ::
  "('g \<Rightarrow> 'g \<times> (MemoryError + u32)) \<Rightarrow> registry_op \<Rightarrow> 'g registry_world \<Rightarrow> 'g registry_world" where
  "registry_step next (Register_Op use_generator region access) (r, g, pool) =
     (case register_inner (if use_generator then Some next else None) region access r g of
        (r', g', _) \<Rightarrow> (r', g', pool))"
| "registry_step next (Retain_Op k kind) (r, g, pool) =
     (case retain k kind r of
        (r', Inr lease) \<Rightarrow> (r', g, pool @ [lease])
      | (r', Inl _) \<Rightarrow> (r', g, pool))"
| "registry_step next (Release_Op n) (r, g, pool) =
     (if n < length pool
      then case release (Some (pool ! n)) r of
             (r', None, _) \<Rightarrow> (r', g, drop_nth n pool)
           | (r', Some _, _) \<Rightarrow> (r', g, pool)
      else (r, g, pool))"
| "registry_step next (Deregister_Op h) (r, g, pool) =
     (case deregister h r of (r', _) \<Rightarrow> (r', g, pool))"

fun registry_run ::
  "('g \<Rightarrow> 'g \<times> (MemoryError + u32)) \<Rightarrow> registry_op list \<Rightarrow> 'g registry_world \<Rightarrow> 'g registry_world" where
  "registry_run next [] w = w"
| "registry_run next (op # ops) w = registry_run next ops (registry_step next op w)"

section \<open>Reference counts\<close>

definition lease_count :: "RegionLease list \<Rightarrow> nat \<Rightarrow> nat" where
  "lease_count pool i = length (filter (\<lambda>l. unat (lease_slot l) = i) pool)"

definition pool_ok :: "MemoryRegistry \<Rightarrow> RegionLease list \<Rightarrow> bool" where
  "pool_ok r pool \<longleftrightarrow>
     (\<forall>l \<in> set pool. lease_registry l = identity r \<and>
        (\<exists>s. region_live r (unat (lease_slot l)) s \<and> sl_generation s = lease_generation l)) \<and>
     (\<forall>i s. region_live r i s \<longrightarrow> unat (sl_references s) = lease_count pool i)"

lemma lease_count_append [simp]: "lease_count (xs @ ys) i = lease_count xs i + lease_count ys i"
  by (simp add: lease_count_def)

lemma lease_count_single: "lease_count [l] i = (if unat (lease_slot l) = i then 1 else 0)"
  by (simp add: lease_count_def)

lemma lease_count_drop_nth:
  assumes "n < length pool"
  shows "lease_count pool i = lease_count (drop_nth n pool) i + (if unat (lease_slot (pool ! n)) = i then 1 else 0)"
proof -
  have "pool = take n pool @ [pool ! n] @ drop (Suc n) pool"
    using assms by (simp add: id_take_nth_drop)
  then have "lease_count pool i = lease_count (take n pool) i + lease_count [pool ! n] i + lease_count (drop (Suc n) pool) i"
    by (metis lease_count_append add.assoc)
  then show ?thesis by (simp add: drop_nth_def lease_count_single)
qed

lemma lease_count_zero: "lease_count pool i = 0 \<longleftrightarrow> (\<forall>l \<in> set pool. unat (lease_slot l) \<noteq> i)"
  by (simp add: lease_count_def filter_empty_conv)

lemma pool_okD:
  assumes "pool_ok r pool"
  shows "l \<in> set pool \<Longrightarrow> lease_registry l = identity r"
    "l \<in> set pool \<Longrightarrow> \<exists>s. region_live r (unat (lease_slot l)) s \<and> sl_generation s = lease_generation l"
    "region_live r i s \<Longrightarrow> unat (sl_references s) = lease_count pool i"
  using assms unfolding pool_ok_def by blast+

lemma pool_ok_references:
  assumes "pool_ok r pool" "region_live r i s" "set pool' \<subseteq> insert l (set pool)"
    and "l \<notin> set pool \<Longrightarrow> lease_registry l = identity r \<and> unat (lease_slot l) = i \<and> lease_generation l = sl_generation s"
    and "unat n = lease_count pool' i" and "\<And>j. j \<noteq> i \<Longrightarrow> lease_count pool' j = lease_count pool j"
  shows "pool_ok (r\<lparr>slots := (slots r)[i := Some (s\<lparr>sl_references := n\<rparr>)]\<rparr>) pool'" (is "pool_ok ?r pool'")
proof -
  have live: "region_live ?r j t \<longleftrightarrow> (if j = i then t = s\<lparr>sl_references := n\<rparr> else region_live r j t)" for j t
    using assms(2) by (auto simp: region_live_update region_live_def)
  have "lease_registry m = identity r \<and>
      (\<exists>t. region_live ?r (unat (lease_slot m)) t \<and> sl_generation t = lease_generation m)" if "m \<in> set pool'" for m
  proof (cases "m \<in> set pool")
    case True
    then obtain t where "lease_registry m = identity r" "region_live r (unat (lease_slot m)) t"
      "sl_generation t = lease_generation m" using pool_okD [OF assms(1)] by blast
    moreover have "t = s" if "unat (lease_slot m) = i"
      using that \<open>region_live r (unat (lease_slot m)) t\<close> assms(2) by (simp add: region_live_def)
    ultimately show ?thesis by (cases "unat (lease_slot m) = i") (auto simp: live)
  next
    case False
    then have "m = l" using that assms(3) by auto
    then show ?thesis using assms(4) False by (auto simp: live)
  qed
  moreover have "unat (sl_references t) = lease_count pool' j" if "region_live ?r j t" for j t
    using that assms(5,6) pool_okD(3) [OF assms(1)] by (auto simp: live split: if_splits)
  ultimately show ?thesis by (simp add: pool_ok_def)
qed

lemma retain_pool:
  assumes "registry_inv r" "pool_ok r pool" "retain k kind r = (r', res)"
  shows "pool_ok r' (case res of Inr l \<Rightarrow> pool @ [l] | Inl _ \<Rightarrow> pool)"
proof (cases "key_get (keys r) k kind")
  case None
  then show ?thesis using assms by (auto simp: retain_def)
next
  case (Some i)
  then obtain s where s: "region_live r i s" using key_get_live [OF assms(1)] by blast
  then have slot: "slots r ! i = Some s" by (simp add: region_live_def)
  show ?thesis
  proof (cases "sl_references s = - 1")
    case True
    then show ?thesis using assms(2,3) Some slot unfolding retain_live [OF assms(1)] by auto
  next
    case False
    let ?l = "\<lparr>lease_registry = identity r, lease_slot = of_nat i, lease_generation = sl_generation s\<rparr> :: RegionLease"
    have res: "res = Inr ?l" and r': "r' = r\<lparr>slots := (slots r)[i := Some (s\<lparr>sl_references := sl_references s + 1\<rparr>)]\<rparr>"
      using assms(3) Some slot False unfolding retain_live [OF assms(1)] by auto
    have l: "unat (lease_slot ?l) = i" using live_index(2) [OF assms(1) s] by simp
    have "unat (sl_references s + 1) = unat (sl_references s) + 1"
      using False by (metis Suc_eq_plus1 add.commute unatSuc add.right_inverse add_eq_0_iff2 minus_unique)
    then have n: "unat (sl_references s + 1) = lease_count (pool @ [?l]) i"
      using pool_okD(3) [OF assms(2) s] l by (simp add: lease_count_single)
    show ?thesis unfolding r' res sum.case
      by (rule pool_ok_references [OF assms(2) s, of _ ?l]) (use n l in \<open>auto simp: lease_count_single\<close>)
  qed
qed


lemma release_pool:
  assumes "registry_inv r" "pool_ok r pool" "n < length pool"
  shows "\<exists>r'. release (Some (pool ! n)) r = (r', None, Inr ()) \<and> pool_ok r' (drop_nth n pool)"
proof -
  let ?l = "pool ! n"
  let ?i = "unat (lease_slot ?l)"
  have mem: "?l \<in> set pool" using assms(3) by simp
  obtain s where s: "region_live r ?i s" "sl_generation s = lease_generation ?l"
    and reg: "lease_registry ?l = identity r" using pool_okD [OF assms(2)] mem by blast
  have cnt: "lease_count pool j = lease_count (drop_nth n pool) j + (if ?i = j then 1 else 0)" for j
    by (rule lease_count_drop_nth [OF assms(3)])
  then have pos: "unat (sl_references s) = lease_count (drop_nth n pool) ?i + 1"
    using pool_okD(3) [OF assms(2) s(1)] by simp
  then have "sl_references s \<noteq> 0" by auto
  then have rel: "release (Some ?l) r =
      (r\<lparr>slots := (slots r)[?i := Some (s\<lparr>sl_references := sl_references s - 1\<rparr>)]\<rparr>, None, Inr ())"
    using s reg by (simp add: release_def slot_at_live [THEN iffD2])
  have "1 \<le> sl_references s" using pos by (simp add: word_le_nat_alt)
  then have "unat (sl_references s - 1) = lease_count (drop_nth n pool) ?i"
    using pos by (simp add: unat_sub)
  moreover have "set (drop_nth n pool) \<subseteq> insert ?l (set pool)"
    using set_take_subset [of n pool] set_drop_subset [of "Suc n" pool] by (auto simp: drop_nth_def)
  ultimately have "pool_ok (r\<lparr>slots := (slots r)[?i := Some (s\<lparr>sl_references := sl_references s - 1\<rparr>)]\<rparr>)
      (drop_nth n pool)"
    using mem cnt by (intro pool_ok_references [OF assms(2) s(1), of _ ?l]) auto
  then show ?thesis using rel by simp
qed

lemma deregister_unchanged: "deregister h r = (r', Inl e) \<Longrightarrow> r' = r"
  by (auto simp: deregister_def Let_def split: option.splits if_splits)

lemma deregister_pool:
  assumes "registry_inv r" "pool_ok r pool" "deregister h r = (r', res)"
  shows "pool_ok r' pool"
proof (cases res)
  case (Inl e)
  then have "r' = r" using assms(3) deregister_unchanged by blast
  then show ?thesis using assms(2) by simp
next
  case (Inr region)
  let ?i = "unat (rh_slot h)"
  obtain s where s: "region_live r ?i s" "sl_references s = 0"
    and r': "r' = r\<lparr>slots := (slots r)[?i := None],
       keys := key_remove (key_remove (keys r) (sl_lkey s)) (sl_rkey s), registered := registered r - 1\<rparr>"
    using deregister_success [OF assms(1)] assms(3) Inr by metis
  have live: "region_live r' j t \<longleftrightarrow> j \<noteq> ?i \<and> region_live r j t" for j t
    by (cases "j = ?i") (auto simp: r' region_live_def)
  have "lease_count pool ?i = 0" using pool_okD(3) [OF assms(2) s(1)] s(2) by simp
  then have "unat (lease_slot l) \<noteq> ?i" if "l \<in> set pool" for l using that by (simp add: lease_count_zero)
  moreover have "identity r' = identity r" by (simp add: r')
  ultimately show ?thesis using assms(2) by (auto simp: pool_ok_def live)
qed

lemma register_pool:
  assumes "registry_inv r" "pool_ok r pool" "register_inner gen region access r g = (r', g', res)"
  shows "pool_ok r' pool"
proof -
  obtain pointer len where region: "region = (pointer, len)" by fastforce
  show ?thesis
  proof (cases rule: register_cases [OF assms(1) assms(3) [unfolded region], case_names fail ok])
    case (fail e q)
    then show ?thesis using assms(2) by (simp add: pool_ok_def)
  next
    case (ok i q lkey rkey ks s)
    have live: "region_live r' j t \<longleftrightarrow> (if j = i then t = s else region_live r j t)" for j t
      using ok(2) by (auto simp: ok(12) region_live_def nth_list_update)
    have free: "\<not> region_live r i t" for t using ok(3) by (simp add: region_live_def)
    have not_i: "unat (lease_slot l) \<noteq> i" if "l \<in> set pool" for l
      using pool_okD(2) [OF assms(2) that] free by auto
    then have "lease_count pool i = 0" by (simp add: lease_count_zero)
    moreover have "identity r' = identity r" by (simp add: ok(12))
    moreover have "sl_references s = 0" by (simp add: ok(4))
    ultimately show ?thesis using assms(2) not_i by (auto simp: pool_ok_def live split: if_splits)
  qed
qed

fun world_ok :: "'g registry_world \<Rightarrow> bool" where
  "world_ok (r, g, pool) \<longleftrightarrow> registry_inv r \<and> pool_ok r pool"

lemma registry_step_ok: "world_ok w \<Longrightarrow> world_ok (registry_step next op w)"
proof -
  assume ok: "world_ok w"
  obtain r g pool where w: "w = (r, g, pool)" by (cases w)
  then have inv: "registry_inv r" and pool: "pool_ok r pool" using ok by simp_all
  show ?thesis
  proof (cases op)
    case (Register_Op b region access)
    obtain r' g' res where reg: "register_inner (if b then Some next else None) region access r g = (r', g', res)"
      by (metis prod_cases3)
    then have "registry_step next op w = (r', g', pool)" by (simp only: w Register_Op registry_step.simps reg prod.case)
    then show ?thesis using register_inv [OF inv reg] register_pool [OF inv pool reg] by simp
  next
    case (Retain_Op k kind)
    then show ?thesis
      using retain_inv [OF inv] retain_pool [OF inv pool] by (fastforce simp: w split: prod.splits sum.splits)
  next
    case (Release_Op n)
    then show ?thesis
      using release_inv [OF inv] release_pool [OF inv pool, of n] inv pool by (fastforce simp: w)
  next
    case (Deregister_Op h)
    obtain r' res where d: "deregister h r = (r', res)" by fastforce
    then have "registry_inv r'"
      using deregister_inv [OF inv] deregister_unchanged inv by (cases res) blast+
    then show ?thesis using deregister_pool [OF inv pool d] by (simp add: w Deregister_Op d)
  qed
qed

lemma registry_run_ok: "world_ok w \<Longrightarrow> world_ok (registry_run next ops w)"
  by (induction ops arbitrary: w) (simp_all add: registry_step_ok)

lemma registry_new_ok:
  assumes "registry_new n seed next_id = (next_id', Inr r)"
  shows "world_ok (r, g, [])"
proof -
  have "\<not> region_live r i s" for i s
    using assms by (auto simp: registry_new_def region_live_def split: if_splits option.splits)
  then show ?thesis using registry_new_inv [OF assms] by (simp add: pool_ok_def)
qed

lemma registry_run_append: "registry_run next (xs @ ys) w = registry_run next ys (registry_run next xs w)"
  by (induction xs arbitrary: w) simp_all

text \<open>The same for an unordered collection of leases, as the holders of leases use it.\<close>

definition leased :: "MemoryRegistry \<Rightarrow> RegionLease multiset \<Rightarrow> bool" where
  "leased r M \<longleftrightarrow> (\<exists>pool. mset pool = M \<and> pool_ok r pool)"

lemma lease_count_mset: "lease_count pool i = size (filter_mset (\<lambda>l. unat (lease_slot l) = i) (mset pool))"
  by (simp add: lease_count_def flip: mset_filter)

lemma leased_pool: "leased r (mset pool) \<longleftrightarrow> pool_ok r pool"
proof
  assume "leased r (mset pool)"
  then obtain pool' where "mset pool' = mset pool" "pool_ok r pool'" by (auto simp: leased_def)
  then show "pool_ok r pool" unfolding pool_ok_def lease_count_mset by (metis set_mset_mset)
qed (auto simp: leased_def)

lemma leased_release:
  assumes "registry_inv r" "leased r (add_mset l M)"
  obtains r' where "release (Some l) r = (r', None, Inr ())" "registry_inv r'" "leased r' M"
proof -
  obtain pool where pool: "mset pool = M" using ex_mset by blast
  then have "pool_ok r (l # pool)" using assms(2) leased_pool [of r "l # pool"] by simp
  from release_pool [OF assms(1) this, of 0] obtain r' where
    r': "release (Some l) r = (r', None, Inr ())" "pool_ok r' pool" by (auto simp: drop_nth_def)
  moreover have "registry_inv r'" by (rule release_inv [OF assms(1) r'(1)])
  ultimately show thesis using that leased_pool [of r' pool] pool by blast
qed

lemma leased_retain:
  assumes "registry_inv r" "leased r M" "retain k kind r = (r', res)"
  shows "registry_inv r' \<and> (case res of Inr l \<Rightarrow> leased r' (add_mset l M) | Inl _ \<Rightarrow> r' = r)"
proof -
  obtain pool where pool: "mset pool = M" using ex_mset by blast
  then have "pool_ok r pool" using assms(2) leased_pool by blast
  note p = retain_pool [OF assms(1) this assms(3)]
  show ?thesis
  proof (cases res)
    case (Inl e)
    then have "r' = r" using assms(3) by (auto simp: retain_def split: option.splits)
    then show ?thesis using Inl assms(1) by simp
  next
    case (Inr l)
    then have "leased r' (mset (pool @ [l]))" using p leased_pool by (metis sum.case(2))
    then show ?thesis using Inr pool retain_inv [OF assms(1,3)] by simp
  qed
qed

lemma leased_register:
  "registry_inv r \<Longrightarrow> leased r M \<Longrightarrow> register_inner gen region access r g = (r', g', res) \<Longrightarrow> leased r' M"
  using register_pool by (metis leased_def)

lemma leased_deregister:
  "registry_inv r \<Longrightarrow> leased r M \<Longrightarrow> deregister h r = (r', res) \<Longrightarrow> leased r' M"
  using deregister_pool by (metis leased_def)

lemma leased_new: "registry_new n seed next_id = (next_id', Inr r) \<Longrightarrow> leased r {#}"
  using registry_new_ok [of n seed next_id next_id' r "()"] leased_pool [of r "[]"] by simp

section \<open>Accesses under leases\<close>

text \<open>Leases change reference counts only, so every access is resolved as before.\<close>

lemma resolve_references:
  assumes "slot_at r i = Some s" "r' = r\<lparr>slots := (slots r)[i := Some (s\<lparr>sl_references := n\<rparr>)]\<rparr>"
  shows "resolve r' = resolve r"
proof (intro ext)
  fix k kind required address len
  have at: "slot_at r' j = (if j = i then Some (s\<lparr>sl_references := n\<rparr>) else slot_at r j)" for j
    using assms by (auto simp: slot_at_def nth_list_update split: if_splits)
  have ks: "keys r' = keys r" using assms(2) by simp
  show "resolve r' k kind required address len = resolve r k kind required address len"
  proof (cases "key_get (keys r) k kind = Some i")
    case True
    then show ?thesis using assms(1) by (cases kind) (simp_all add: resolve_def at ks cong: if_cong)
  next
    case False
    then show ?thesis by (auto simp: resolve_def at ks split: option.split)
  qed
qed

lemma resolve_retain: "retain k kind r = (r', x) \<Longrightarrow> resolve r' = resolve r"
  by (auto simp: retain_def split: option.splits intro: resolve_references)

lemma resolve_release: "release l r = (r', x) \<Longrightarrow> resolve r' = resolve r"
  by (auto simp: release_def split: option.splits if_splits intro: resolve_references)

lemma write_bytes_append:
  "write_bytes mem a (xs @ ys) = write_bytes (write_bytes mem a xs) (a + of_nat (length xs)) ys"
  by (induction xs arbitrary: mem a) (simp_all add: ac_simps)

text \<open>A part of a range that has been validated can be accessed.\<close>

lemma resolve_part:
  assumes inv: "registry_inv r" and whole: "resolve r k kind required address len = Inr x" and part: "off + n \<le> len"
  shows "\<exists>pointer offset. resolve r k kind required (address + of_nat off) n = Inr (pointer, offset) \<and>
      pointer + of_nat offset = address + of_nat off"
    and "u64_checked_add address (of_nat off) = Some (address + of_nat off)"
proof -
  obtain p o' where "x = (p, o')" by fastforce
  then obtain s where g: "granted r k kind required address len s"
    using whole resolve_iff [OF inv] by blast
  have fit: "unat address + len < 2 ^ 64" by (rule granted_range(1) [OF g inv])
  have o: "unat (of_nat off :: u64) = off" using fit part by (simp add: unat_of_nat)
  have a: "unat (address + of_nat off) = unat address + off"
    using fit part o by (simp add: unat_add_no_overflow)
  have g': "granted r k kind required (address + of_nat off) n s"
    using g part a by (auto simp: granted_def word_le_nat_alt)
  then have "resolve r k kind required (address + of_nat off) n =
      Inr (sl_address s, unat (address + of_nat off) - unat (sl_address s))"
    using resolve_iff [OF inv] by blast
  moreover have "sl_address s + of_nat (unat (address + of_nat off) - unat (sl_address s)) = address + of_nat off"
    using g' by (simp add: granted_def word_le_nat_alt of_nat_diff)
  ultimately show "\<exists>pointer offset. resolve r k kind required (address + of_nat off) n = Inr (pointer, offset) \<and>
      pointer + of_nat offset = address + of_nat off" by blast
  show "u64_checked_add address (of_nat off) = Some (address + of_nat off)"
    using fit part o by (simp add: u64_checked_add_eq_Some)
qed

lemma write_remote_part:
  assumes "registry_inv r" "validate_remote_write r k address len = Inr ()" "off + length bs \<le> len"
  shows "write_remote r mem k (address + of_nat off) bs = Inr (write_bytes mem (address + of_nat off) bs)"
    and "u64_checked_add address (of_nat off) = Some (address + of_nat off)"
proof -
  obtain x where x: "resolve r k RemoteKey REMOTE_WRITE address len = Inr x"
    using assms(2) by (auto simp: validate_remote_write_def result_simps)
  show "write_remote r mem k (address + of_nat off) bs = Inr (write_bytes mem (address + of_nat off) bs)"
    using resolve_part(1) [OF assms(1) x assms(3)] by (auto simp: write_remote_def copy_to_registered_def)
  show "u64_checked_add address (of_nat off) = Some (address + of_nat off)"
    by (rule resolve_part(2) [OF assms(1) x assms(3)])
qed

lemma write_local_part:
  assumes "registry_inv r" "validate_local_write r k address len = Inr ()" "off + length bs \<le> len"
  shows "write_local r mem k (address + of_nat off) bs = Inr (write_bytes mem (address + of_nat off) bs)"
    and "u64_checked_add address (of_nat off) = Some (address + of_nat off)"
proof -
  obtain x where x: "resolve r k LocalKey LOCAL_WRITE address len = Inr x"
    using assms(2) by (auto simp: validate_local_write_def result_simps)
  show "write_local r mem k (address + of_nat off) bs = Inr (write_bytes mem (address + of_nat off) bs)"
    using resolve_part(1) [OF assms(1) x assms(3)] by (auto simp: write_local_def copy_to_registered_def)
  show "u64_checked_add address (of_nat off) = Some (address + of_nat off)"
    by (rule resolve_part(2) [OF assms(1) x assms(3)])
qed

section \<open>Leases pin regions\<close>

lemma deregister_handle:
  assumes "registry_inv r" "region_live r i s"
  shows "snd (deregister (handle_of i s) r) =
    (if sl_references s = 0 then Inr (sl_address s, sl_length s) else Inl RegionBusy)"
proof -
  have ok: "slot_ok s" by (rule registry_invD(5) [OF assms])
  have len: "u64_try_from (sl_length s) = Some (of_nat (sl_length s))"
    using ok by (simp add: slot_ok_def u64_try_from_def)
  have "slot_at r i = Some s" using assms(2) by (simp add: slot_at_live)
  then show ?thesis
    using live_index(2) [OF assms] ok by (simp add: deregister_def handle_of_def len slot_ok_def Let_def)
qed

text \<open>
  C31: In every state a registry reaches from its creation by registrations, retains,
  releases and deregistrations, each outstanding lease still names the region it was taken
  on (live and with its generation) and can be released, and a live region can be
  deregistered with its handle exactly when no outstanding lease names it, otherwise the
  attempt reports that the region is busy: no lease dangles and none leaks.
\<close>

theorem leases_pin_regions:
  assumes "registry_new n seed next_id = (next_id', Inr r0)"
    and "registry_run next ops (r0, g0, []) = (r, g, pool)"
  shows "registry_inv r \<and>
    (\<forall>m < length pool. let l = pool ! m in
       (\<exists>s. region_live r (unat (lease_slot l)) s \<and> sl_generation s = lease_generation l) \<and>
       snd (release (Some l) r) = (None, Inr ())) \<and>
    (\<forall>i s. region_live r i s \<longrightarrow>
       snd (deregister (handle_of i s) r) =
         (if \<exists>l \<in> set pool. unat (lease_slot l) = i then Inl RegionBusy else Inr (sl_address s, sl_length s)))"
proof -
  have "world_ok (r, g, pool)"
    using registry_run_ok [OF registry_new_ok [OF assms(1)], of "next" ops g0] assms(2) by simp
  then have inv: "registry_inv r" and pool: "pool_ok r pool" by simp_all
  have "snd (deregister (handle_of i s) r) =
      (if \<exists>l \<in> set pool. unat (lease_slot l) = i then Inl RegionBusy else Inr (sl_address s, sl_length s))"
    if "region_live r i s" for i s
    using pool_okD(3) [OF pool that] lease_count_zero [of pool i]
    by (auto simp: deregister_handle [OF inv that] unat_eq_zero)
  moreover have "snd (release (Some (pool ! m)) r) = (None, Inr ())" if "m < length pool" for m
    using release_pool [OF inv pool that] by auto
  ultimately show ?thesis using inv pool_okD(2) [OF pool] by (simp add: Let_def)
qed


text \<open>A concrete run: one region registered and retained.\<close>

definition sample_ops :: "registry_op list" where
  "sample_ops = [Register_Op False (4096, 64) (AccessFlags 7), Retain_Op 69794299 LocalKey]"

lemma sample_retain:
  "retain 69794299 LocalKey (sample_live 0) =
     (sample_live 1, Inr \<lparr>lease_registry = 1, lease_slot = 0, lease_generation = 1\<rparr>)"
  using sample_get(1) [of 0]
  by (simp add: retain_def slot_at_def sample_live_def sample_slot_def u32_checked_add_def)

lemma sample_run:
  "registry_run next sample_ops (sample_registry, g, []) =
     (sample_live 1, g, [\<lparr>lease_registry = 1, lease_slot = 0, lease_generation = 1\<rparr>])"
  by (simp add: sample_ops_def sample_register sample_retain)

lemma leases_pin_regions_witness:
  "registry_run (\<lambda>g. (g, Inl KeyGenerationFailed)) sample_ops (sample_registry, (), []) =
     (sample_live 1, (), [\<lparr>lease_registry = 1, lease_slot = 0, lease_generation = 1\<rparr>]) \<and>
   snd (deregister (handle_of 0 (sample_slot 1)) (sample_live 1)) = Inl RegionBusy \<and>
   snd (release (Some \<lparr>lease_registry = 1, lease_slot = 0, lease_generation = 1\<rparr>) (sample_live 1)) = (None, Inr ())"
proof -
  have live: "region_live (sample_live 1) 0 (sample_slot 1)" by (simp add: region_live_def sample_live_def)
  have *: "\<exists>l \<in> set [\<lparr>lease_registry = 1, lease_slot = 0, lease_generation = 1\<rparr> :: RegionLease]. unat (lease_slot l) = 0"
    by simp
  note run = sample_run [of "\<lambda>g. (g, Inl KeyGenerationFailed)" "()"]
  show ?thesis
    using leases_pin_regions [OF sample_registry_new run] run live *
    by (simp only: Let_def if_True) (metis (no_types, lifting) length_Cons nth_Cons_0 zero_less_Suc)
qed

section \<open>Keys of the deterministic sequence\<close>

lemma xorshift_inj:
  fixes x y :: "'a::len word"
  assumes "0 < n" "x XOR drop_bit n x = y XOR drop_bit n y"
  shows "x = y"
proof -
  have "bit x i = bit y i" if "LENGTH('a) - i = m" for m i
    using that
  proof (induction m arbitrary: i rule: less_induct)
    case (less m)
    show ?case
    proof (cases "i < LENGTH('a)")
      case True
      have "bit x (i + n) = bit y (i + n)"
      proof (cases "i + n < LENGTH('a)")
        case True
        then show ?thesis using less.IH [of "LENGTH('a) - (i + n)" "i + n"] less.prems assms(1) by simp
      qed (metis bit_imp_le_length)
      moreover have "bit (x XOR drop_bit n x) i = bit (y XOR drop_bit n y) i" using assms(2) by simp
      ultimately show ?thesis by (auto simp: bit_xor_iff bit_drop_bit_eq add.commute)
    qed (use bit_imp_le_length in auto)
  qed
  then show ?thesis by (intro bit_word_eqI) auto
qed

lemma mult_inj:
  fixes a b x y :: "'a::len word"
  assumes "a * b = 1" "x * a = y * a"
  shows "x = y"
  using assms by (metis mult.assoc mult.right_neutral)

lemma mix32_inj: "mix32 x = mix32 y \<Longrightarrow> x = y"
proof -
  assume *: "mix32 x = mix32 y"
  have odd: "(0x7feb352d :: u32) * 0x1d69e2a5 = 1" "(0x846ca68b :: u32) * 0x43021123 = 1" by simp_all
  show ?thesis
    using * unfolding mix32_def Let_def
    by (rule xorshift_inj [rotated, THEN mult_inj [OF odd(2)], THEN xorshift_inj [rotated],
          THEN mult_inj [OF odd(1)], THEN xorshift_inj [rotated]]) simp_all
qed


definition sequence_key :: "MemoryRegistry \<Rightarrow> MemoryRegistry \<Rightarrow> u32 \<Rightarrow> bool" where
  "sequence_key r r' k \<longleftrightarrow> (\<exists>q. reg_sequence r < q \<and> q \<le> reg_sequence r' \<and> k = mix32 (q + reg_seed r))"

lemma next_key_sequence:
  "next_key_loop f None other r g = (r', g', res) \<Longrightarrow>
   reg_seed r' = reg_seed r \<and> reg_sequence r \<le> reg_sequence r' \<and> (\<forall>k. res = Inr k \<longrightarrow> sequence_key r r' k)"
proof (induction f arbitrary: r g)
  case (Suc f)
  show ?case
  proof (cases "u32_checked_add (reg_sequence r) 1")
    case None
    then show ?thesis using Suc.prems by auto
  next
    case (Some q)
    let ?r = "r\<lparr>reg_sequence := q\<rparr>"
    have q: "reg_sequence r < q"
      using Some by (auto simp: u32_checked_add_def word_less_nat_alt unat_word_ariths split: if_splits)
    show ?thesis
    proof (cases "mix32 (q + reg_seed r) \<noteq> 0 \<and> mix32 (q + reg_seed r) \<noteq> other \<and>
        \<not> key_contains (keys r) (mix32 (q + reg_seed r))")
      case True
      then show ?thesis using Suc.prems Some q by (auto simp: sequence_key_def)
    next
      case False
      then have "next_key_loop f None other ?r g = (r', g', res)"
        using Suc.prems Some by (simp split: if_splits)
      note ih = Suc.IH [OF this]
      have "sequence_key r r' k" if "sequence_key ?r r' k" for k
        using that q by (auto simp: sequence_key_def intro: less_trans)
      then show ?thesis using ih q by auto
    qed
  qed
qed auto


lemma register_sequence:
  assumes "register_inner None region access r g = (r', g', res)"
  shows "reg_seed r' = reg_seed r \<and> reg_sequence r \<le> reg_sequence r' \<and>
    (\<forall>h. res = Inr h \<longrightarrow> sequence_key r r' (rh_lkey h) \<and> sequence_key r r' (rh_rkey h))"
proof -
  obtain r1 g1 k1 where 1: "next_key None 0 r g = (r1, g1, k1)" by (metis prod_cases3)
  obtain r2 g2 k2 where 2: "next_key None (projr k1) r1 g1 = (r2, g2, k2)" by (metis prod_cases3)
  note s1 = next_key_sequence [OF 1 [unfolded next_key_def]]
  note s2 = next_key_sequence [OF 2 [unfolded next_key_def]]
  have k1: "sequence_key r r2 k" if "k1 = Inr k" for k
    using s1 s2 that by (auto simp: sequence_key_def intro: order_trans)
  have k2: "sequence_key r r2 k" if "k2 = Inr k" for k
    using s1 s2 that by (auto simp: sequence_key_def intro: le_less_trans)
  show ?thesis
    using assms 1 2 s1 s2 k1 k2 unfolding register_inner_def
    by (auto simp: sequence_key_def Let_def split: prod.splits if_splits option.splits sum.splits bool.splits)
qed


fun deterministic_op :: "registry_op \<Rightarrow> bool" where
  "deterministic_op (Register_Op use_generator _ _) = (\<not> use_generator)"
| "deterministic_op _ = True"

definition key_issued :: "u32 \<Rightarrow> MemoryRegistry \<Rightarrow> bool" where
  "key_issued k r \<longleftrightarrow> (\<exists>q \<le> reg_sequence r. k = mix32 (q + reg_seed r))"

lemma sequence_key_fresh: "sequence_key r r' k \<Longrightarrow> key_issued k' r \<Longrightarrow> k \<noteq> k'"
  using mix32_inj by (fastforce simp: sequence_key_def key_issued_def)

lemma sequence_key_issued: "sequence_key r r' k \<Longrightarrow> reg_seed r' = reg_seed r \<Longrightarrow> key_issued k r'"
  by (auto simp: sequence_key_def key_issued_def)

lemma retain_frame: "retain k kind r = (r', res) \<Longrightarrow> keys r' = keys r \<and> reg_seed r' = reg_seed r \<and> reg_sequence r' = reg_sequence r"
  by (auto simp: retain_def split: option.splits)

lemma release_frame: "release l r = (r', res) \<Longrightarrow> keys r' = keys r \<and> reg_seed r' = reg_seed r \<and> reg_sequence r' = reg_sequence r"
  by (auto simp: release_def split: option.splits if_splits)

lemma deregister_frame: "deregister h r = (r', res) \<Longrightarrow> reg_seed r' = reg_seed r \<and> reg_sequence r' = reg_sequence r"
  by (auto simp: deregister_def Let_def split: option.splits if_splits)

text \<open>A key that was issued from the sequence and is in no table entry.\<close>

definition key_dead :: "u32 \<Rightarrow> MemoryRegistry \<Rightarrow> bool" where
  "key_dead k r \<longleftrightarrow> key_issued k r \<and> key_find (keys r) k = None"

lemma key_issued_mono:
  "key_issued k r \<Longrightarrow> reg_seed r' = reg_seed r \<Longrightarrow> reg_sequence r \<le> reg_sequence r' \<Longrightarrow> key_issued k r'"
  by (auto simp: key_issued_def intro: order_trans)

lemma deregister_find:
  assumes "registry_inv r" "deregister h r = (r', Inr region)"
  shows "key_find (keys r') k = (if k = rh_lkey h \<or> k = rh_rkey h then None else key_find (keys r) k)"
proof -
  obtain s :: Slot where s: "rh_lkey h = sl_lkey s" "rh_rkey h = sl_rkey s"
    and r': "r' = r\<lparr>slots := (slots r)[unat (rh_slot h) := None],
       keys := key_remove (key_remove (keys r) (sl_lkey s)) (sl_rkey s), registered := registered r - 1\<rparr>"
    by (rule deregister_success [OF assms]) (rule that)
  from r' have "keys r' = key_remove (key_remove (keys r) (sl_lkey s)) (sl_rkey s)" by simp
  then show ?thesis
    using s(1,2) key_remove_refines registry_invD(3) [OF assms(1)] by (simp add: spec_del_def)
qed

lemma step_dead:
  assumes "world_ok (r, g, pool)" "deterministic_op op" "registry_step next op (r, g, pool) = (r', g', pool')"
  shows "(key_issued k r \<longrightarrow> key_issued k r') \<and> (key_dead k r \<longrightarrow> key_dead k r')"
proof (cases op)
  case (Register_Op b region access)
  obtain pointer len where region: "region = (pointer, len)" by fastforce
  obtain res where reg: "register_inner None (pointer, len) access r g = (r', g', res)"
    using assms(2,3) by (auto simp: Register_Op region split: prod.splits)
  note sq = register_sequence [OF reg]
  have iss: "key_issued k r'" if "key_issued k r" using key_issued_mono [OF that] sq by blast
  have "key_find (keys r') k = None" if d: "key_issued k r" "key_find (keys r) k = None"
  proof (cases rule: register_cases [OF _ reg, case_names inv fail ok])
    case (ok i q lkey rkey ks s)
    then have "lkey \<noteq> k" "rkey \<noteq> k" using sq sequence_key_fresh [OF _ d(1)] by auto
    then show ?thesis using ok d(2) by simp
  qed (use assms(1) d(2) in auto)
  then show ?thesis using iss by (auto simp: key_dead_def)
next
  case (Retain_Op k kind)
  then show ?thesis
    using assms(3) retain_frame by (fastforce simp: key_dead_def key_issued_def split: prod.splits sum.splits)
next
  case (Release_Op n)
  then show ?thesis
    using assms(3) release_frame
    by (fastforce simp: key_dead_def key_issued_def split: prod.splits option.splits if_splits)
next
  case (Deregister_Op h)
  then obtain res where d: "deregister h r = (r', res)" using assms(3) by (auto split: prod.splits)
  have "key_find (keys r') k = None" if "key_find (keys r) k = None"
    using that d deregister_unchanged deregister_find assms(1) by (cases res) fastforce+
  then show ?thesis using deregister_frame [OF d] by (auto simp: key_dead_def key_issued_def)
qed

lemma run_dead:
  assumes "world_ok w" "list_all deterministic_op ops"
  shows "(key_issued k (fst w) \<longrightarrow> key_issued k (fst (registry_run next ops w))) \<and>
    (key_dead k (fst w) \<longrightarrow> key_dead k (fst (registry_run next ops w)))"
  using assms
proof (induction ops arbitrary: w)
  case (Cons op ops)
  obtain r g pool where w: "w = (r, g, pool)" by (cases w)
  obtain r' g' pool' where st: "registry_step next op (r, g, pool) = (r', g', pool')" by (metis prod_cases3)
  show ?case
    using Cons.IH [of "(r', g', pool')"] Cons.prems step_dead [OF _ _ st, of k] registry_step_ok [of w "next" op]
    by (simp add: w st)
qed simp

text \<open>
  C32: A revoked key never becomes valid again.  Take any reachable registry, register a
  region with the deterministic key sequence, deregister it at any later point and run any
  further operations, none of them using an external key generator: each of the two keys of
  the region is rejected as an invalid key for every access, range and key kind.
\<close>

theorem revoked_keys_stay_invalid:
  assumes "world_ok (r, g, pool)"
    and "register region access r = (r1, Inr h)"
    and "registry_run next ops (r1, g, pool) = (r2, g2, pool2)" "list_all deterministic_op ops"
    and "deregister h r2 = (r3, Inr region')"
    and "registry_run next ops' (r3, g2, pool2) = (r4, g4, pool4)" "list_all deterministic_op ops'"
  shows "resolve r4 (rh_lkey h) kind required address len = Inl InvalidKey \<and>
    resolve r4 (rh_rkey h) kind required address len = Inl InvalidKey"
proof -
  have reg: "register_inner None region access r () = (r1, (), Inr h)"
    using assms(2) by (auto simp: register_def split: prod.splits)
  have w1: "world_ok (r1, g, pool)"
    using register_inv [OF _ reg] register_pool [OF _ _ reg] assms(1) by simp
  then have w2: "world_ok (r2, g2, pool2)" using registry_run_ok [OF w1] assms(3) by metis
  then have w3: "world_ok (r3, g2, pool2)"
    using deregister_inv [OF _ assms(5)] deregister_pool [OF _ _ assms(5)] by simp
  have "resolve r4 k kind required address len = Inl InvalidKey" if k: "k = rh_lkey h \<or> k = rh_rkey h" for k
  proof -
    have "key_issued k r1" using register_sequence [OF reg] sequence_key_issued k by blast
    then have "key_issued k r2" using run_dead [OF w1 assms(4), of k "next"] assms(3) by simp
    then have "key_issued k r3" using deregister_frame [OF assms(5)] by (simp add: key_issued_def)
    moreover have "key_find (keys r3) k = None" using deregister_find [OF _ assms(5)] w2 k by simp
    ultimately have "key_dead k r4"
      using run_dead [OF w3 assms(7), of k "next"] assms(6) by (simp add: key_dead_def)
    then show ?thesis by (simp add: resolve_def key_get_find key_dead_def)
  qed
  then show ?thesis by blast
qed


lemma revoked_keys_stay_invalid_witness:
  "\<exists>r3. deregister (handle_of 0 (sample_slot 0)) (sample_live 0) = (r3, Inr (4096, 64)) \<and>
     resolve (fst (registry_run (\<lambda>g. (g, Inl KeyGenerationFailed)) [Register_Op False (8192, 32) (AccessFlags 1)] (r3, (), [])))
       2631693420 RemoteKey REMOTE_WRITE 4096 8 = Inl InvalidKey"
proof -
  have w: "world_ok (sample_registry, (), [])" by (rule registry_new_ok [OF sample_registry_new])
  have reg: "register (4096, 64) (AccessFlags 7) sample_registry = (sample_live 0, Inr (handle_of 0 (sample_slot 0)))"
    by (simp add: register_def sample_register)
  have "registry_inv (sample_live 0)"
    using register_inv [OF _ sample_register [of "()"]] w by simp
  moreover have live: "region_live (sample_live 0) 0 (sample_slot 0)" by (simp add: region_live_def sample_live_def)
  ultimately have "snd (deregister (handle_of 0 (sample_slot 0)) (sample_live 0)) = Inr (4096, 64)"
    by (simp add: deregister_handle) (simp add: sample_slot_def)
  then obtain r3 where d: "deregister (handle_of 0 (sample_slot 0)) (sample_live 0) = (r3, Inr (4096, 64))"
    by (metis prod.collapse)
  let ?next = "\<lambda>g. (g, Inl KeyGenerationFailed) :: unit \<times> (MemoryError + u32)"
  obtain r4 g4 pool4 where run: "registry_run ?next [Register_Op False (8192, 32) (AccessFlags 1)] (r3, (), []) = (r4, g4, pool4)"
    by (metis prod_cases3)
  have "resolve r4 (rh_rkey (handle_of 0 (sample_slot 0))) RemoteKey REMOTE_WRITE 4096 8 = Inl InvalidKey"
    using revoked_keys_stay_invalid [OF w reg _ _ d run, where ops = "[]"] by simp
  then show ?thesis using d run by (auto simp: handle_of_def sample_slot_def)
qed

end
