(* ===== verification/Api_Base.thy ===== *)
theory Api_Base
  imports Core_Qp Core_Qpn Wire_Opcode Mem_Registry
begin

text \<open>
  Vocabulary of the public API crate \<open>rocev2\<close>: the error type of \<open>error.rs\<close>, and
  the generation-checked queue-pair handles and the QPN index helpers of \<open>qp.rs\<close>.
  A packet backend's own error type is a type parameter.
\<close>

datatype QueueKind = Send_Queue | Receive_Queue | Completion_Queue

datatype ApiError =
    Wire WireError
  | BufferTooShort (buffer_needed: usize) (buffer_actual: usize)
  | PacketTooLarge (packet_length: usize) (packet_maximum: usize)
  | UnsupportedMaximumPacket (requested: usize) (backend: usize)
  | InvalidIpv4Protocol u8
  | FragmentedIpv4
  | InvalidRoceDestinationPort u16
  | InvalidUdpLength (udp_declared: usize) (udp_actual: usize)
  | ArithmeticOverflow
  | QpTableFull
  | InvalidQpnIndexCapacity (qp_capacity: usize) (index_capacity: usize)
  | QpnIndexFull
  | InvalidQpHandle
  | DuplicateLocalQpn u32
  | UnknownDestinationQpn u32
  | QpNotReady QpState
  | QpState StateTransitionError
  | Memory MemoryError
  | QueueFull QueueKind
  | QpBusy
  | WorkRequestTooLarge (request_packets: u32) (request_maximum: u32)
  | InvalidTicksPerSecond
  | PacketIoContractViolation
  | InvalidRnrNakTimer u8
  | PathMtuExceedsPacketLimit (mtu_required: usize) (mtu_maximum: usize)
  | PeerAddressMismatch (peer_source: "u8 \<times> u8 \<times> u8 \<times> u8") (peer_destination: "u8 \<times> u8 \<times> u8 \<times> u8")

datatype 'e PollError = Io 'e | Api ApiError

record QpHandle =
  handle_slot :: u32
  handle_generation :: u32

definition validate_qpn_index :: "usize \<Rightarrow> usize \<Rightarrow> ApiError + unit" where
  "validate_qpn_index qps qpn_index =
     (if supports_entries qpn_index qps then Inr () else Inl (InvalidQpnIndexCapacity qps qpn_index))"

definition qpn_slot :: "QpnTable \<Rightarrow> u32 \<Rightarrow> usize option" where
  "qpn_slot table qpn = map_option unat (qpn_get table qpn)"

definition insert_qpn :: "QpnTable \<Rightarrow> u32 \<Rightarrow> usize \<Rightarrow> QpnTable \<times> (ApiError + u32)" where
  "insert_qpn table qpn slot =
     (case u32_try_from slot of
        None \<Rightarrow> (table, Inl QpTableFull)
      | Some slot \<Rightarrow>
        (case qpn_insert table qpn slot of
           (table, Inr _) \<Rightarrow> (table, Inr slot)
         | (table, Inl (InvalidQpn qpn)) \<Rightarrow> (table, Inl (QpState (InvalidLocalQpn qpn)))
         | (table, Inl (DuplicateQpn qpn)) \<Rightarrow> (table, Inl (DuplicateLocalQpn qpn))
         | (table, Inl QpnFull) \<Rightarrow> (table, Inl QpnIndexFull)))"

end
