(* ===== verification/Wire_Header.thy ===== *)
theory Wire_Header
  imports Wire_Opcode Contracts
begin

text \<open>
  The transport headers: \<open>rocev2-wire/src/bth.rs\<close>, \<open>reth.rs\<close> and \<open>aeth.rs\<close>.
  An \<open>encode\<close> method takes the output buffer and returns the updated buffer; its
  checks all come before the first write.  Each header is an instance of the
  codec contract.
\<close>

section \<open>Base transport header\<close>

definition SE_MASK :: u8 where "SE_MASK = 0x80"
definition MIG_MASK :: u8 where "MIG_MASK = 0x40"
definition PAD_MASK :: u8 where "PAD_MASK = 0x30"
definition TVER_MASK :: u8 where "TVER_MASK = 0x0f"
definition FECN_MASK :: u32 where "FECN_MASK = 0x80000000"
definition BECN_MASK :: u32 where "BECN_MASK = 0x40000000"
definition QPN_RESERVED_MASK :: u32 where "QPN_RESERVED_MASK = 0x3f000000"
definition ACK_MASK :: u32 where "ACK_MASK = 0x80000000"
definition APSN_RESERVED_MASK :: u32 where "APSN_RESERVED_MASK = 0x7f000000"

record Bth =
  opcode :: Opcode
  solicited_event :: bool
  migration_request :: bool
  pad_count :: u8
  transport_version :: u8
  partition_key :: u16
  fecn :: bool
  becn :: bool
  destination_qpn :: u32
  ack_request :: bool
  psn :: u32

definition DEFAULT_PKEY :: u16 where
  "DEFAULT_PKEY = 0xffff"

definition bth_new :: "Opcode \<Rightarrow> u32 \<Rightarrow> u32 \<Rightarrow> Bth" where
  "bth_new opc qpn p =
     \<lparr>opcode = opc, solicited_event = False, migration_request = False, pad_count = 0,
      transport_version = 0, partition_key = DEFAULT_PKEY, fecn = False, becn = False,
      destination_qpn = qpn, ack_request = False, psn = p\<rparr>"

definition bth_decode :: "octets \<Rightarrow> WireError + Bth" where
  "bth_decode input =
     (if length input < BTH_LEN then Inl (BufferTooShort BTH_LEN (length input))
      else and_then (opcode_from_u8 (input ! 0)) (\<lambda>opc.
        let flags = input ! 1;
            version = flags AND TVER_MASK;
            qpn_word = u32_from_be_bytes (input ! 4) (input ! 5) (input ! 6) (input ! 7);
            qpn_reserved = qpn_word AND QPN_RESERVED_MASK;
            apsn_word = u32_from_be_bytes (input ! 8) (input ! 9) (input ! 10) (input ! 11);
            apsn_reserved = apsn_word AND APSN_RESERVED_MASK
        in if version \<noteq> 0 then Inl (InvalidTransportVersion version)
           else if qpn_reserved \<noteq> 0 then Inl (ReservedBitsSet ''BTH.qpn'' qpn_reserved)
           else if apsn_reserved \<noteq> 0 then Inl (ReservedBitsSet ''BTH.apsn'' apsn_reserved)
           else Inr \<lparr>opcode = opc,
                     solicited_event = (flags AND SE_MASK \<noteq> 0),
                     migration_request = (flags AND MIG_MASK \<noteq> 0),
                     pad_count = drop_bit 4 (flags AND PAD_MASK),
                     transport_version = version,
                     partition_key = u16_from_be_bytes (input ! 2) (input ! 3),
                     fecn = (qpn_word AND FECN_MASK \<noteq> 0),
                     becn = (qpn_word AND BECN_MASK \<noteq> 0),
                     destination_qpn = qpn_word AND QPN_MASK,
                     ack_request = (apsn_word AND ACK_MASK \<noteq> 0),
                     psn = apsn_word AND WIRE_PSN_MASK\<rparr>))"

definition bth_flags :: "Bth \<Rightarrow> u8" where
  "bth_flags b =
     (if solicited_event b then SE_MASK else 0)
     OR (if migration_request b then MIG_MASK else 0)
     OR (push_bit 4 (pad_count b) AND PAD_MASK)
     OR (transport_version b AND TVER_MASK)"

definition bth_qpn_word :: "Bth \<Rightarrow> u32" where
  "bth_qpn_word b =
     (if fecn b then FECN_MASK else 0) OR (if becn b then BECN_MASK else 0) OR destination_qpn b"

definition bth_apsn_word :: "Bth \<Rightarrow> u32" where
  "bth_apsn_word b = (if ack_request b then ACK_MASK else 0) OR psn b"

definition bth_encode :: "Bth \<Rightarrow> octets \<Rightarrow> WireError + octets" where
  "bth_encode b output =
     (if length output < BTH_LEN then Inl (BufferTooShort BTH_LEN (length output))
      else if destination_qpn b > QPN_MASK
      then Inl (ValueOutOfRange ''destination_qpn'' (ucast (destination_qpn b)))
      else if psn b > WIRE_PSN_MASK then Inl (ValueOutOfRange ''psn'' (ucast (psn b)))
      else if pad_count b > 3 then Inl (ValueOutOfRange ''pad_count'' (ucast (pad_count b)))
      else if transport_version b \<noteq> 0
      then Inl (InvalidTransportVersion (transport_version b))
      else let o1 = output[0 := as_u8 (opcode b)];
               o2 = o1[1 := bth_flags b];
               o3 = copy_at 2 (u16_to_be_bytes (partition_key b)) o2;
               o4 = copy_at 4 (u32_to_be_bytes (bth_qpn_word b)) o3
           in Inr (copy_at 8 (u32_to_be_bytes (bth_apsn_word b)) o4))"

section \<open>RDMA extended transport header\<close>

record Reth =
  virtual_address :: u64
  remote_key :: u32
  dma_length :: u32

definition reth_decode :: "octets \<Rightarrow> WireError + Reth" where
  "reth_decode input =
     (if length input < RETH_LEN then Inl (BufferTooShort RETH_LEN (length input))
      else Inr \<lparr>virtual_address =
                  u64_from_be_bytes (input ! 0) (input ! 1) (input ! 2) (input ! 3)
                    (input ! 4) (input ! 5) (input ! 6) (input ! 7),
                remote_key =
                  u32_from_be_bytes (input ! 8) (input ! 9) (input ! 10) (input ! 11),
                dma_length =
                  u32_from_be_bytes (input ! 12) (input ! 13) (input ! 14) (input ! 15)\<rparr>)"

definition reth_encode :: "Reth \<Rightarrow> octets \<Rightarrow> WireError + octets" where
  "reth_encode r output =
     (if length output < RETH_LEN then Inl (BufferTooShort RETH_LEN (length output))
      else let o1 = copy_at 0 (u64_to_be_bytes (virtual_address r)) output;
               o2 = copy_at 8 (u32_to_be_bytes (remote_key r)) o1
           in Inr (copy_at 12 (u32_to_be_bytes (dma_length r)) o2))"

section \<open>ACK extended transport header\<close>

datatype NakCode =
    PsnSequenceError | InvalidRequest | NakRemoteAccessError | RemoteOperationError | UnknownNak u8

datatype AethClass = AckClass (credit: u8) | RnrNak (rnr_timer: u8) | ReservedClass (code: u8) | Nak NakCode

record Aeth =
  syndrome :: u8
  message_sequence_number :: u32

definition ACK_UNLIMITED :: u8 where "ACK_UNLIMITED = 0x1f"
definition RNR_NAK :: u8 where "RNR_NAK = 0x20"
definition NAK_PSN_SEQUENCE_ERROR :: u8 where "NAK_PSN_SEQUENCE_ERROR = 0x60"
definition NAK_INVALID_REQUEST :: u8 where "NAK_INVALID_REQUEST = 0x61"
definition NAK_REMOTE_ACCESS_ERROR :: u8 where "NAK_REMOTE_ACCESS_ERROR = 0x62"
definition NAK_REMOTE_OPERATION_ERROR :: u8 where "NAK_REMOTE_OPERATION_ERROR = 0x63"

definition aeth_ack :: "u32 \<Rightarrow> Aeth" where
  "aeth_ack msn = \<lparr>syndrome = ACK_UNLIMITED, message_sequence_number = msn\<rparr>"

definition aeth_rnr_nak :: "u32 \<Rightarrow> u8 \<Rightarrow> Aeth" where
  "aeth_rnr_nak msn timer =
     \<lparr>syndrome = RNR_NAK OR (timer AND 0x1f), message_sequence_number = msn\<rparr>"

definition aeth_psn_nak :: "u32 \<Rightarrow> Aeth" where
  "aeth_psn_nak msn = \<lparr>syndrome = NAK_PSN_SEQUENCE_ERROR, message_sequence_number = msn\<rparr>"

definition aeth_decode :: "octets \<Rightarrow> WireError + Aeth" where
  "aeth_decode input =
     (if length input < AETH_LEN then Inl (BufferTooShort AETH_LEN (length input))
      else let raw = u32_from_be_bytes (input ! 0) (input ! 1) (input ! 2) (input ! 3)
           in Inr \<lparr>syndrome = ucast (drop_bit 24 raw),
                   message_sequence_number = raw AND WIRE_PSN_MASK\<rparr>)"

definition aeth_encode :: "Aeth \<Rightarrow> octets \<Rightarrow> WireError + octets" where
  "aeth_encode a output =
     (if length output < AETH_LEN then Inl (BufferTooShort AETH_LEN (length output))
      else if message_sequence_number a > WIRE_PSN_MASK
      then Inl (ValueOutOfRange ''message_sequence_number'' (ucast (message_sequence_number a)))
      else let raw = push_bit 24 (ucast (syndrome a)) OR message_sequence_number a
           in Inr (copy_at 0 (u32_to_be_bytes raw) output))"

definition aeth_class :: "Aeth \<Rightarrow> AethClass" where
  "aeth_class a =
     (let kind = syndrome a AND 0xe0; low = syndrome a AND 0x1f
      in if kind = 0x00 then AckClass low
         else if kind = 0x20 then RnrNak low
         else if kind = 0x40 then ReservedClass low
         else Nak (if low = 0 then PsnSequenceError
                   else if low = 1 then InvalidRequest
                   else if low = 2 then NakRemoteAccessError
                   else if low = 3 then RemoteOperationError
                   else UnknownNak low))"

section \<open>The codecs\<close>

definition bth_wire :: "Bth \<Rightarrow> octets" where
  "bth_wire b = [as_u8 (opcode b), bth_flags b] @ u16_to_be_bytes (partition_key b)
     @ u32_to_be_bytes (bth_qpn_word b) @ u32_to_be_bytes (bth_apsn_word b)"

definition bth_ok :: "Bth \<Rightarrow> bool" where
  "bth_ok b \<longleftrightarrow> destination_qpn b \<le> QPN_MASK \<and> psn b \<le> WIRE_PSN_MASK \<and> pad_count b \<le> 3 \<and>
     transport_version b = 0"

lemma bth_encode_eq:
  assumes "bth_ok b" and "BTH_LEN \<le> length out"
  shows "bth_encode b out = Inr (bth_wire b @ drop BTH_LEN out)"
proof -
  have "out \<noteq> []" using assms(2) by (auto simp: BTH_LEN_def)
  then show ?thesis
    using assms by (simp add: bth_encode_def bth_ok_def BTH_LEN_def list_update_copy_at
        copy_at_adjacent bth_wire_def not_less) (simp add: copy_at_0)
qed

lemma bth_encode_fail: "\<not> (bth_ok b \<and> BTH_LEN \<le> length out) \<Longrightarrow> \<exists>e. bth_encode b out = Inl e"
  by (auto simp: bth_encode_def bth_ok_def not_le)

lemma masks: "QPN_MASK = mask 24" "WIRE_PSN_MASK = mask 24"
  by (simp_all add: QPN_MASK_def WIRE_PSN_MASK_def mask_eq_exp_minus_1)

lemma qpn_fields:
  fixes q :: u32
  assumes "q \<le> mask 24"
  shows "q AND 0x80000000 = 0" "q AND 0x40000000 = 0" "q AND 0x3f000000 = 0" "q AND 0x7f000000 = 0"
    "q AND 0xffffff = q"
  using le_mask_and_0 [OF assms, of "0x80000000"] le_mask_and_0 [OF assms, of "0x40000000"]
    le_mask_and_0 [OF assms, of "0x3f000000"] le_mask_and_0 [OF assms, of "0x7f000000"]
    le_mask_and [OF assms] by (simp_all add: mask_eq_exp_minus_1)

lemma u8_le_3: "(w :: u8) \<le> 3 \<Longrightarrow> w = 0 \<or> w = 1 \<or> w = 2 \<or> w = 3"
proof -
  assume "w \<le> 3"
  then have "unat w \<le> 3" by (simp add: word_le_nat_alt)
  then have "unat w = 0 \<or> unat w = 1 \<or> unat w = 2 \<or> unat w = 3" by linarith
  then show ?thesis by (auto simp: word_unat_eq_iff)
qed

lemma bth_decode_fields:
  assumes "opcode_from_u8 v0 = Inr opc"
  shows "bth_decode (v0 # flags # p0 # p1 # q0 # q1 # q2 # q3 # a0 # a1 # a2 # a3 # rest) =
    (let qpn_word = u32_from_be_bytes q0 q1 q2 q3; apsn_word = u32_from_be_bytes a0 a1 a2 a3 in
     if flags AND TVER_MASK \<noteq> 0 then Inl (InvalidTransportVersion (flags AND TVER_MASK))
     else if qpn_word AND QPN_RESERVED_MASK \<noteq> 0
     then Inl (ReservedBitsSet ''BTH.qpn'' (qpn_word AND QPN_RESERVED_MASK))
     else if apsn_word AND APSN_RESERVED_MASK \<noteq> 0
     then Inl (ReservedBitsSet ''BTH.apsn'' (apsn_word AND APSN_RESERVED_MASK))
     else Inr \<lparr>opcode = opc, solicited_event = (flags AND SE_MASK \<noteq> 0),
       migration_request = (flags AND MIG_MASK \<noteq> 0), pad_count = drop_bit 4 (flags AND PAD_MASK),
       transport_version = 0, partition_key = u16_from_be_bytes p0 p1,
       fecn = (qpn_word AND FECN_MASK \<noteq> 0), becn = (qpn_word AND BECN_MASK \<noteq> 0),
       destination_qpn = qpn_word AND QPN_MASK, ack_request = (apsn_word AND ACK_MASK \<noteq> 0),
       psn = apsn_word AND WIRE_PSN_MASK\<rparr>)"
  using assms by (simp add: bth_decode_def BTH_LEN_def Let_def)

lemmas bth_masks = SE_MASK_def MIG_MASK_def PAD_MASK_def TVER_MASK_def FECN_MASK_def BECN_MASK_def
  QPN_RESERVED_MASK_def ACK_MASK_def APSN_RESERVED_MASK_def QPN_MASK_def WIRE_PSN_MASK_def

lemma bth_flags_fields:
  assumes "bth_ok b"
  shows "bth_flags b AND TVER_MASK = 0" "(bth_flags b AND SE_MASK \<noteq> 0) = solicited_event b"
    "(bth_flags b AND MIG_MASK \<noteq> 0) = migration_request b"
    "drop_bit 4 (bth_flags b AND PAD_MASK) = pad_count b"
  using assms u8_le_3 [of "pad_count b"]
  by (cases "solicited_event b"; cases "migration_request b"; auto simp: bth_ok_def bth_flags_def bth_masks)+

lemma bth_qpn_fields:
  assumes "bth_ok b"
  shows "bth_qpn_word b AND QPN_RESERVED_MASK = 0" "(bth_qpn_word b AND FECN_MASK \<noteq> 0) = fecn b"
    "(bth_qpn_word b AND BECN_MASK \<noteq> 0) = becn b" "bth_qpn_word b AND QPN_MASK = destination_qpn b"
  using assms qpn_fields [of "destination_qpn b"]
  by (cases "fecn b"; cases "becn b"; auto simp: bth_ok_def bth_qpn_word_def masks(1) bth_masks
      mask_eq_exp_minus_1 bit.conj_disj_distrib2)+

lemma bth_apsn_fields:
  assumes "bth_ok b"
  shows "bth_apsn_word b AND APSN_RESERVED_MASK = 0" "(bth_apsn_word b AND ACK_MASK \<noteq> 0) = ack_request b"
    "bth_apsn_word b AND WIRE_PSN_MASK = psn b"
  using assms qpn_fields [of "psn b"]
  by (cases "ack_request b"; auto simp: bth_ok_def bth_apsn_word_def bth_masks
      mask_eq_exp_minus_1 bit.conj_disj_distrib2)+

lemma bth_decode_wire:
  assumes "bth_ok b"
  shows "bth_decode (bth_wire b @ rest) = Inr b"
  unfolding bth_wire_def u16_to_be_bytes_def u32_to_be_bytes_def append.simps
    bth_decode_fields [OF opcode_roundtrip] u32_be_expand u16_be_expand Let_def
  using assms bth_flags_fields [OF assms] bth_qpn_fields [OF assms] bth_apsn_fields [OF assms]
  by (simp add: bth_ok_def)

text \<open>Every accepted input is the canonical encoding of what it decodes to.\<close>

lemma u32_split:
  fixes w :: u32
  assumes "w AND r = 0" and "f OR g OR m OR r = - 1"
  shows "w AND f OR w AND g OR w AND m = w"
proof -
  have "w = w AND (f OR g OR m OR r)" by (simp add: assms(2))
  also have "\<dots> = w AND f OR w AND g OR w AND m"
    by (simp add: bit.conj_disj_distrib assms(1) or.assoc)
  finally show ?thesis by simp
qed

lemma flag_masks:
  "(if w AND FECN_MASK \<noteq> 0 then FECN_MASK else 0) = w AND FECN_MASK"
  "(if w AND BECN_MASK \<noteq> 0 then BECN_MASK else 0) = w AND BECN_MASK"
  "(if w AND ACK_MASK \<noteq> 0 then ACK_MASK else 0) = w AND ACK_MASK"
  "(if v AND SE_MASK \<noteq> 0 then SE_MASK else 0) = v AND SE_MASK"
  "(if v AND MIG_MASK \<noteq> 0 then MIG_MASK else 0) = v AND MIG_MASK"
  by (rule and_single_bit [of _ 31] and_single_bit [of _ 30] and_single_bit [of _ 7]
      and_single_bit [of _ 6]; simp add: bth_masks)+

lemma qpn_word_canonical:
  assumes "w AND QPN_RESERVED_MASK = 0"
  shows "(if w AND FECN_MASK \<noteq> 0 then FECN_MASK else 0) OR (if w AND BECN_MASK \<noteq> 0 then BECN_MASK else 0)
    OR (w AND QPN_MASK) = w"
  unfolding flag_masks by (rule u32_split [OF assms]) (simp add: bth_masks)

lemma apsn_word_canonical:
  assumes "w AND APSN_RESERVED_MASK = 0"
  shows "(if w AND ACK_MASK \<noteq> 0 then ACK_MASK else 0) OR (w AND WIRE_PSN_MASK) = w"
  unfolding flag_masks using u32_split [OF assms, of ACK_MASK 0 WIRE_PSN_MASK]
  by (simp add: bth_masks)

lemma flags_canonical:
  assumes "w AND TVER_MASK = 0"
  shows "(if w AND SE_MASK \<noteq> 0 then SE_MASK else 0) OR (if w AND MIG_MASK \<noteq> 0 then MIG_MASK else 0)
    OR (push_bit 4 (drop_bit 4 (w AND PAD_MASK)) AND PAD_MASK) = w"
proof -
  have w: "\<not> bit w n" if "n < 4" for n
  proof -
    have "bit (w AND TVER_MASK) n = bit w n"
      using that by (simp add: TVER_MASK_def bit_and_iff) (auto simp: bit_iff_odd less_Suc_eq numeral_eq_Suc)
    then show ?thesis by (simp add: assms)
  qed
  show ?thesis
    unfolding flag_masks using w [of 0] w [of 1] w [of 2] w [of 3]
    by (intro u8_eqI) (simp_all add: bth_masks bit_simps)
qed

lemma pad_le_3: "drop_bit 4 (w AND PAD_MASK) \<le> (3 :: u8)"
  by (simp add: PAD_MASK_def word_and_le1)

lemma length_ge_12:
  assumes "12 \<le> length xs"
  obtains a b c d e f g h i j k l rest where "xs = a # b # c # d # e # f # g # h # i # j # k # l # rest"
  using assms by (auto simp: numeral_eq_Suc Suc_le_length_iff)

lemma bth_decode_sound:
  assumes "bth_decode input = Inr b"
  shows "bth_ok b \<and> BTH_LEN \<le> length input \<and> take BTH_LEN input = bth_wire b"
proof -
  have len: "12 \<le> length input"
    using assms by (auto simp: bth_decode_def BTH_LEN_def not_less split: if_splits)
  obtain v0 fl p0 p1 q0 q1 q2 q3 a0 a1 a2 a3 rest
    where input: "input = v0 # fl # p0 # p1 # q0 # q1 # q2 # q3 # a0 # a1 # a2 # a3 # rest"
    using len by (rule length_ge_12)
  obtain opc where opc: "opcode_from_u8 v0 = Inr opc"
    using assms len by (auto simp: bth_decode_def input BTH_LEN_def result_simps)
  then have v0: "v0 = as_u8 opc" by (simp add: opcode_from_u8_Inr)
  let ?q = "u32_from_be_bytes q0 q1 q2 q3" and ?a = "u32_from_be_bytes a0 a1 a2 a3"
  have dec: "fl AND TVER_MASK = 0" "?q AND QPN_RESERVED_MASK = 0" "?a AND APSN_RESERVED_MASK = 0"
    and b: "b = \<lparr>opcode = opc, solicited_event = (fl AND SE_MASK \<noteq> 0),
       migration_request = (fl AND MIG_MASK \<noteq> 0), pad_count = drop_bit 4 (fl AND PAD_MASK),
       transport_version = 0, partition_key = u16_from_be_bytes p0 p1,
       fecn = (?q AND FECN_MASK \<noteq> 0), becn = (?q AND BECN_MASK \<noteq> 0),
       destination_qpn = ?q AND QPN_MASK, ack_request = (?a AND ACK_MASK \<noteq> 0),
       psn = ?a AND WIRE_PSN_MASK\<rparr>"
    using assms unfolding input bth_decode_fields [OF opc] Let_def by (simp_all split: if_splits)
  have "bth_ok b"
    using pad_le_3 [of fl] by (simp add: bth_ok_def b word_and_le1)
  moreover have "bth_flags b = fl" "bth_qpn_word b = ?q" "bth_apsn_word b = ?a"
    using flags_canonical [OF dec(1)] qpn_word_canonical [OF dec(2)] apsn_word_canonical [OF dec(3)]
    by (simp_all add: b bth_flags_def bth_qpn_word_def bth_apsn_word_def)
  then have "take 12 input = bth_wire b"
    by (simp add: bth_wire_def input b v0 u16_be_bytes_roundtrip' u32_be_bytes_roundtrip')
  ultimately show ?thesis using len by (simp add: BTH_LEN_def)
qed

interpretation bth: header_codec bth_encode bth_decode BTH_LEN bth_ok bth_wire
proof (unfold_locales, goal_cases)
  case (1 h)
  then show ?case by (simp add: bth_wire_def BTH_LEN_def)
qed (use bth_encode_eq bth_encode_fail bth_decode_wire bth_decode_sound in auto)

definition reth_wire :: "Reth \<Rightarrow> octets" where
  "reth_wire r =
     u64_to_be_bytes (virtual_address r) @ u32_to_be_bytes (remote_key r) @ u32_to_be_bytes (dma_length r)"

lemma length_ge_16:
  assumes "16 \<le> length xs"
  obtains a b c d e f g h i j k l m n p q rest
  where "xs = a # b # c # d # e # f # g # h # i # j # k # l # m # n # p # q # rest"
  using assms by (auto simp: numeral_eq_Suc Suc_le_length_iff)

interpretation reth: header_codec reth_encode reth_decode RETH_LEN "\<lambda>_. True" reth_wire
proof (unfold_locales, goal_cases)
  case (1 h)
  then show ?case by (simp add: reth_wire_def RETH_LEN_def)
next
  case (2 h out)
  then show ?case
    by (simp add: reth_encode_def RETH_LEN_def copy_at_adjacent reth_wire_def not_less)
      (simp add: copy_at_0)
next
  case (3 h out)
  then show ?case by (auto simp: reth_encode_def not_le)
next
  case (4 h rest)
  show ?case
    by (simp add: reth_decode_def RETH_LEN_def reth_wire_def nth_append bytes_simps)
next
  case (5 input h)
  then have "16 \<le> length input" by (auto simp: reth_decode_def RETH_LEN_def split: if_splits)
  then show ?case using 5
    by (elim length_ge_16)
      (auto simp: reth_decode_def RETH_LEN_def reth_wire_def u64_be_bytes_roundtrip' u32_be_bytes_roundtrip')
qed

definition aeth_ok :: "Aeth \<Rightarrow> bool" where
  "aeth_ok a \<longleftrightarrow> message_sequence_number a \<le> WIRE_PSN_MASK"

definition aeth_wire :: "Aeth \<Rightarrow> octets" where
  "aeth_wire a = u32_to_be_bytes (push_bit 24 (ucast (syndrome a)) OR message_sequence_number a)"

lemma aeth_word_fields:
  assumes "m \<le> WIRE_PSN_MASK"
  shows "ucast (drop_bit 24 (push_bit 24 (ucast s) OR m :: u32)) = (s :: u8)"
    and "(push_bit 24 (ucast s) OR m) AND WIRE_PSN_MASK = m"
proof -
  have m: "m = m AND mask 24" using le_mask_and [of m 24] assms by (simp add: masks)
  show "ucast (drop_bit 24 (push_bit 24 (ucast s) OR m :: u32)) = s"
    by (subst m, rule bit_word_eqI) (auto simp: bit_simps)
  show "(push_bit 24 (ucast s) OR m) AND WIRE_PSN_MASK = m"
    by (subst (1 2) m, rule bit_word_eqI) (auto simp: masks bit_simps)
qed

lemma aeth_word_canonical:
  "push_bit 24 (ucast (ucast (drop_bit 24 w) :: u8)) OR (w AND WIRE_PSN_MASK) = (w :: u32)"
  by (rule bit_word_eqI) (auto simp: masks bit_simps)

interpretation aeth: header_codec aeth_encode aeth_decode AETH_LEN aeth_ok aeth_wire
proof (unfold_locales, goal_cases)
  case (1 h)
  then show ?case by (simp add: aeth_wire_def AETH_LEN_def)
next
  case (2 h out)
  then show ?case
    by (simp add: aeth_encode_def aeth_ok_def aeth_wire_def AETH_LEN_def not_less copy_at_0)
next
  case (3 h out)
  then show ?case by (auto simp: aeth_encode_def aeth_ok_def not_le)
next
  case (4 h rest)
  then show ?case
    using aeth_word_fields [of "message_sequence_number h" "syndrome h"]
    by (simp add: aeth_decode_def AETH_LEN_def aeth_wire_def aeth_ok_def nth_append bytes_simps)
next
  case (5 input h)
  then have "Suc (Suc (Suc (Suc 0))) \<le> length input"
    by (auto simp: aeth_decode_def AETH_LEN_def split: if_splits)
  then obtain a b c d rest where input: "input = a # b # c # d # rest"
    by (auto simp: Suc_le_length_iff)
  with 5 have "h = \<lparr>syndrome = ucast (drop_bit 24 (u32_from_be_bytes a b c d)),
      message_sequence_number = u32_from_be_bytes a b c d AND WIRE_PSN_MASK\<rparr>"
    by (simp add: aeth_decode_def AETH_LEN_def Let_def)
  then show ?case
    by (simp add: aeth_ok_def aeth_wire_def AETH_LEN_def input word_and_le1 aeth_word_canonical
        u32_be_bytes_roundtrip')
qed

section \<open>Properties\<close>

text \<open>C25: The base transport header codec is a bijection between well-formed headers and
  accepted octets.  Encoding succeeds exactly for 24-bit QPN and PSN, two-bit pad count,
  transport version zero and a large enough buffer, touches only the first 12 octets, and
  decoding returns the header; conversely whatever decodes re-encodes to the same octets, so
  no two accepted headers share a meaning (reserved bits included).\<close>

theorem bth_codec_bijective:
  "(bth_encode b out = Inr out' \<longrightarrow>
      bth_ok b \<and> BTH_LEN \<le> length out \<and> bth_decode out' = Inr b \<and>
      drop BTH_LEN out' = drop BTH_LEN out \<and> length out' = length out) \<and>
   (bth_ok b \<and> BTH_LEN \<le> length out \<longrightarrow> (\<exists>o'. bth_encode b out = Inr o')) \<and>
   (bth_decode input = Inr b \<longrightarrow> bth_encode b input = Inr input)"
  using bth.decode_encode [of b out out'] bth.encode_decode [of input b]
  by (auto simp: bth.enc_ok_iff bth.wire_length)

theorem bth_codec_bijective_witness:
  "bth_decode [0x0a, 0xa0, 0xff, 0xff, 0x80, 0x12, 0x34, 0x56, 0x80, 0xab, 0xcd, 0xef] =
     Inr \<lparr>opcode = RdmaWriteOnly, solicited_event = True, migration_request = False, pad_count = 2,
       transport_version = 0, partition_key = 0xffff, fecn = True, becn = False,
       destination_qpn = 0x123456, ack_request = True, psn = 0xabcdef\<rparr>"
proof -
  let ?b = "\<lparr>opcode = RdmaWriteOnly, solicited_event = True, migration_request = False, pad_count = 2,
       transport_version = 0, partition_key = 0xffff, fecn = True, becn = False,
       destination_qpn = 0x123456, ack_request = True, psn = 0xabcdef\<rparr>"
  have "bth_encode ?b (replicate 12 0) =
    Inr [0x0a, 0xa0, 0xff, 0xff, 0x80, 0x12, 0x34, 0x56, 0x80, 0xab, 0xcd, 0xef]"
    by code_simp
  then show ?thesis
    using bth_codec_bijective by blast
qed

end
