(* ===== verification/Wire_Icrc.thy ===== *)
theory Wire_Icrc
  imports Wire_Opcode
begin

text \<open>
  The invariant CRC of \<open>rocev2-wire/src/icrc.rs\<close>.  \<open>crc_tables\<close> builds the eight
  lookup tables the way the constant function of the sources does, \<open>icrc_update\<close> is
  the slicing-by-eight loop over them, and \<open>crc_reference\<close> is the bit-by-bit
  routine that the unit tests of the sources compare it with.  The lemmas show
  that one step of the shift register is linear over exclusive or and injective;
  from this follow the equality of the two routines on every input, the
  insensitivity of the ICRC to the header fields that routers rewrite, and the
  detection of every error burst of at most four octets.
\<close>

section \<open>Model\<close>

definition ICRC_LEN :: usize where
  "ICRC_LEN = 4"

definition ICRC_SEED :: u32 where
  "ICRC_SEED = 0xdebb20e3"

definition CRC32_POLYNOMIAL_REFLECTED :: u32 where
  "CRC32_POLYNOMIAL_REFLECTED = 0xedb88320"

definition crc_step :: "u32 \<Rightarrow> u32" where
  "crc_step crc = drop_bit 1 crc XOR (CRC32_POLYNOMIAL_REFLECTED AND (0 - (crc AND 1)))"

definition crc_first_row :: "u32 list" where
  "crc_first_row = map (\<lambda>index. (crc_step ^^ 8) (of_nat index)) [0..<256]"

definition crc_next_row :: "u32 list \<Rightarrow> u32 list \<Rightarrow> u32 list" where
  "crc_next_row row0 previous_row =
     map (\<lambda>previous. drop_bit 8 previous XOR row0 ! unat (previous AND 0xff)) previous_row"

fun crc_rows :: "nat \<Rightarrow> u32 list list" where
  "crc_rows 0 = []"
| "crc_rows (Suc row) =
     (let tables = crc_rows row
      in tables @ [if row = 0 then crc_first_row
                   else crc_next_row (tables ! 0) (tables ! (row - 1))])"

definition crc_tables :: "u32 list list" where
  "crc_tables = crc_rows 8"

record Icrc =
  icrc_state :: u32

definition icrc_new :: Icrc where
  "icrc_new = \<lparr>icrc_state = ICRC_SEED\<rparr>"

definition with_seed :: "u32 \<Rightarrow> Icrc" where
  "with_seed seed = \<lparr>icrc_state = seed\<rparr>"

definition chunk_step :: "u32 \<Rightarrow> octets \<Rightarrow> u32" where
  "chunk_step crc chunk =
     (let head = crc XOR u32_from_le_bytes (chunk ! 0) (chunk ! 1) (chunk ! 2) (chunk ! 3);
          octets = u32_to_le_bytes head
      in crc_tables ! 7 ! unat (octets ! 0) XOR crc_tables ! 6 ! unat (octets ! 1)
         XOR crc_tables ! 5 ! unat (octets ! 2) XOR crc_tables ! 4 ! unat (octets ! 3)
         XOR crc_tables ! 3 ! unat (chunk ! 4) XOR crc_tables ! 2 ! unat (chunk ! 5)
         XOR crc_tables ! 1 ! unat (chunk ! 6) XOR crc_tables ! 0 ! unat (chunk ! 7))"

definition byte_step :: "u32 \<Rightarrow> u8 \<Rightarrow> u32" where
  "byte_step crc byte = drop_bit 8 crc XOR crc_tables ! 0 ! unat (ucast crc XOR byte)"

function update_loop :: "u32 \<Rightarrow> octets \<Rightarrow> u32" where
  "update_loop crc bytes =
     (if 8 \<le> length bytes then update_loop (chunk_step crc (take 8 bytes)) (drop 8 bytes)
      else foldl byte_step crc bytes)"
  by auto
termination by (relation "measure (\<lambda>(crc, bytes). length bytes)") auto

declare update_loop.simps [simp del]

definition icrc_update :: "Icrc \<Rightarrow> octets \<Rightarrow> Icrc" where
  "icrc_update c bytes = c\<lparr>icrc_state := update_loop (icrc_state c) bytes\<rparr>"

definition icrc_finalize :: "Icrc \<Rightarrow> u32" where
  "icrc_finalize c = NOT (icrc_state c)"

definition masked_headers :: "octets \<Rightarrow> octets \<Rightarrow> octets \<Rightarrow> usize \<Rightarrow> octets" where
  "masked_headers ipv4_header udp_header transport ihl =
     (let bth_offset = ihl + 8;
          header_length = bth_offset + BTH_LEN;
          headers = copy_at 0 (take ihl ipv4_header) (replicate (60 + 8 + BTH_LEN) 0);
          headers = copy_at ihl (take 8 udp_header) headers;
          headers = copy_at bth_offset (take BTH_LEN transport) headers;
          headers = headers[1 := 0xff];
          headers = headers[8 := 0xff];
          headers = copy_at 10 [0xff, 0xff] headers;
          headers = copy_at (ihl + 6) [0xff, 0xff] headers;
          headers = headers[bth_offset + 4 := 0xff]
      in take header_length headers)"

definition compute_ipv4 :: "octets \<Rightarrow> octets \<Rightarrow> octets \<Rightarrow> WireError + u32" where
  "compute_ipv4 ipv4_header udp_header transport =
     (if length ipv4_header < 20 \<or> drop_bit 4 (ipv4_header ! 0) \<noteq> 4 then Inl InvalidIpv4Header
      else let ihl = unat (ipv4_header ! 0 AND 0x0f) * 4
      in if \<not> (20 \<le> ihl \<and> ihl \<le> 60) \<or> length ipv4_header < ihl then Inl InvalidIpv4Header
      else if length udp_header < 8 then Inl (BufferTooShort 8 (length udp_header))
      else if length transport < BTH_LEN then Inl (BufferTooShort BTH_LEN (length transport))
      else let crc = icrc_update icrc_new (masked_headers ipv4_header udp_header transport ihl);
               crc = icrc_update crc (drop BTH_LEN transport)
           in Inr (icrc_finalize crc))"

text \<open>The bit-by-bit routine of the unit tests.\<close>

definition crc_reference :: "u32 \<Rightarrow> octets \<Rightarrow> u32" where
  "crc_reference = foldl (\<lambda>crc byte. (crc_step ^^ 8) (crc XOR ucast byte))"

section \<open>The shift register is linear\<close>

lemma crc_step_alt:
  "crc_step x = drop_bit 1 x XOR (if bit x 0 then CRC32_POLYNOMIAL_REFLECTED else 0)"
  by (simp add: crc_step_def and_one_eq mod2_eq_if bit_0)

lemma crc_step_xor: "crc_step (x XOR y) = crc_step x XOR crc_step y"
  by (auto simp: crc_step_alt bit_simps intro!: bit_word_eqI)

lemma crc_step_zero [simp]: "crc_step 0 = 0"
  by (simp add: crc_step_alt)

lemma crc_steps_xor: "(crc_step ^^ n) (x XOR y) = (crc_step ^^ n) x XOR (crc_step ^^ n) y"
  by (induction n) (simp_all add: crc_step_xor)

lemma crc_steps_drop_bit:
  "(\<And>i. i < n \<Longrightarrow> \<not> bit x i) \<Longrightarrow> (crc_step ^^ n) x = drop_bit n x"
proof (induction n)
  case (Suc n)
  then have "(crc_step ^^ Suc n) x = crc_step (drop_bit n x)" by simp
  also have "\<dots> = drop_bit (Suc n) x"
    using Suc.prems [of n] by (simp add: crc_step_alt bit_simps drop_bit_drop_bit)
  finally show ?case .
qed simp

lemma crc_byte_split:
  "(crc_step ^^ 8) x = drop_bit 8 x XOR (crc_step ^^ 8) (x AND 0xff)"
proof -
  have split: "x = (x AND NOT 0xff) XOR (x AND 0xff)"
    by (rule bit_word_eqI) (auto simp: bit_simps)
  have "(0xff :: u32) = mask 8" by (simp add: mask_numeral)
  then have low: "\<not> bit (x AND NOT 0xff) i" if "i < 8" for i
    using that unfolding \<open>(0xff :: u32) = mask 8\<close> by (simp add: bit_simps)
  have "(crc_step ^^ 8) (x AND NOT 0xff) = drop_bit 8 (x AND NOT 0xff)"
    by (rule crc_steps_drop_bit) (rule low)
  also have "\<dots> = drop_bit 8 x"
    unfolding \<open>(0xff :: u32) = mask 8\<close> by (rule bit_word_eqI) (auto simp: bit_simps dest: bit_imp_le_length)
  finally show ?thesis
    by (subst split) (simp add: crc_steps_xor)
qed

lemma crc_steps_byte_split:
  "(crc_step ^^ (8 + n)) x = (crc_step ^^ n) (drop_bit 8 x) XOR (crc_step ^^ (8 + n)) (x AND 0xff)"
  unfolding add.commute [of 8 n] funpow_add comp_apply
  by (subst crc_byte_split) (simp only: crc_steps_xor)

section \<open>The tables\<close>

lemma length_crc_rows [simp]: "length (crc_rows n) = n"
  by (induction n) (simp_all add: Let_def)

lemma unat_low_byte: "unat (x AND 0xff :: u32) < 256" "of_nat (unat (x AND 0xff)) = x AND 0xff"
proof -
  have "x AND 0xff \<le> 0xff" by (rule word_and_le1)
  then show "unat (x AND 0xff) < 256" by (simp add: word_le_nat_alt)
qed simp

lemma crc_next_row_nth:
  assumes "\<And>i. i < 256 \<Longrightarrow> row0 ! i = (crc_step ^^ 8) (of_nat i)" "i < length row"
  shows "crc_next_row row0 row ! i = (crc_step ^^ 8) (row ! i)"
  using assms unat_low_byte [of "row ! i"]
  by (simp add: crc_next_row_def crc_byte_split [of "row ! i", symmetric])

lemma crc_rows_nth:
  "k < n \<Longrightarrow> length (crc_rows n ! k) = 256 \<and>
     (\<forall>i < 256. crc_rows n ! k ! i = (crc_step ^^ (8 * Suc k)) (of_nat i))"
proof (induction n arbitrary: k)
  case (Suc n)
  show ?case
  proof (cases "k < n")
    case True
    then show ?thesis using Suc.IH [OF True] by (simp add: Let_def nth_append)
  next
    case False
    then have k: "k = n" using Suc.prems by simp
    show ?thesis
    proof (cases n)
      case 0
      then show ?thesis using k by (simp add: Let_def crc_first_row_def)
    next
      case (Suc m)
      have row0: "crc_rows n ! 0 ! i = (crc_step ^^ 8) (of_nat i)" if "i < 256" for i
        using Suc.IH [of 0] Suc that by simp
      have prev: "length (crc_rows n ! m) = 256"
        "crc_rows n ! m ! i = (crc_step ^^ (8 * Suc m)) (of_nat i)" if "i < 256" for i
        using Suc.IH [of m] Suc that by simp_all
      have "crc_rows (Suc n) ! k = crc_next_row (crc_rows n ! 0) (crc_rows n ! m)"
        using k Suc by (simp add: Let_def nth_append)
      moreover have "crc_next_row (crc_rows n ! 0) (crc_rows n ! m) ! i
          = (crc_step ^^ (8 * Suc n)) (of_nat i)" if "i < 256" for i
      proof -
        have "crc_next_row (crc_rows n ! 0) (crc_rows n ! m) ! i
            = (crc_step ^^ 8) ((crc_step ^^ (8 * n)) (of_nat i))"
          using crc_next_row_nth [OF row0, of i "crc_rows n ! m"] prev [OF that] that Suc by simp
        also have "\<dots> = (crc_step ^^ (8 + 8 * n)) (of_nat i)" by (simp only: funpow_add comp_apply)
        finally show ?thesis by simp
      qed
      ultimately show ?thesis using k prev(1) [of 0] by (simp add: crc_next_row_def)
    qed
  qed
qed simp

lemma crc_tables_nth:
  "k < 8 \<Longrightarrow> crc_tables ! k ! unat (b :: u8) = (crc_step ^^ (8 * Suc k)) (ucast b)"
  using crc_rows_nth [of k 8] unsigned_less [of b, where 'a = nat] by (simp add: crc_tables_def)

section \<open>Slicing by eight equals the bitwise routine\<close>

lemma low_byte_ucast: "x AND 0xff = (ucast (ucast x :: u8) :: u32)"
proof -
  have "(0xff :: u32) = mask 8" by (simp add: mask_numeral)
  then show ?thesis by (simp only: take_bit_eq_mask [symmetric]) (auto simp: bit_simps intro!: bit_word_eqI)
qed

lemma ucast_xor_byte: "(ucast (x XOR y :: u8) :: u32) = ucast x XOR ucast y"
  by (auto simp: bit_simps intro!: bit_word_eqI)

lemma byte_step_eq: "byte_step crc byte = (crc_step ^^ 8) (crc XOR ucast byte)"
  by (simp add: byte_step_def crc_tables_nth ucast_xor_byte low_byte_ucast [symmetric] crc_steps_xor
      crc_byte_split [of crc] xor.assoc)

lemma crc_steps_word_split:
  "(crc_step ^^ (32 + n)) w =
     (crc_step ^^ (32 + n)) (ucast (u32_to_le_bytes w ! 0))
     XOR (crc_step ^^ (24 + n)) (ucast (u32_to_le_bytes w ! 1))
     XOR (crc_step ^^ (16 + n)) (ucast (u32_to_le_bytes w ! 2))
     XOR (crc_step ^^ (8 + n)) (ucast (u32_to_le_bytes w ! 3))"
proof -
  have last: "drop_bit 24 w AND 0xff = drop_bit 24 w"
    unfolding low_byte_ucast
  proof (rule bit_word_eqI)
    fix i assume "i < LENGTH(32)"
    show "bit (ucast (ucast (drop_bit 24 w) :: u8) :: u32) i = bit (drop_bit 24 w) i"
      using bit_imp_le_length [of w "24 + i"] by (auto simp: bit_simps)
  qed
  have "(crc_step ^^ (8 + (24 + n))) w =
      (crc_step ^^ (8 + n)) (drop_bit 24 w)
      XOR (crc_step ^^ (8 + (8 + n))) (drop_bit 16 w AND 0xff)
      XOR (crc_step ^^ (8 + (16 + n))) (drop_bit 8 w AND 0xff)
      XOR (crc_step ^^ (8 + (24 + n))) (w AND 0xff)"
    using crc_steps_byte_split [of "24 + n" w] crc_steps_byte_split [of "16 + n" "drop_bit 8 w"]
      crc_steps_byte_split [of "8 + n" "drop_bit 16 w"]
    by (simp add: drop_bit_drop_bit xor.assoc)
  then show ?thesis
    by (subst (asm) last [symmetric])
      (simp add: low_byte_ucast u32_to_le_bytes_def u32_to_be_bytes_def numeral_nat xor.assoc xor.commute
        xor.left_commute)
qed

lemma le_bytes_of_word:
  "u32_to_le_bytes (u32_from_le_bytes a b c d) = [a, b, c, d]"
  by (simp add: u32_to_le_bytes_def u32_from_le_bytes_def u32_be_bytes_roundtrip')

lemma crc_reference_Cons [simp]:
  "crc_reference c [] = c"
  "crc_reference c (b # bs) = crc_reference ((crc_step ^^ 8) (c XOR ucast b)) bs"
  by (simp_all add: crc_reference_def)

lemma crc_reference_append:
  "crc_reference c (xs @ ys) = crc_reference (crc_reference c xs) ys"
  by (simp add: crc_reference_def)

lemma crc_steps_collect: "(crc_step ^^ 8) ((crc_step ^^ n) x) = (crc_step ^^ (8 + n)) x"
  by (simp only: funpow_add comp_apply)

lemma crc_reference_word:
  "crc_reference c [a, b, d, e] = (crc_step ^^ 32) (c XOR u32_from_le_bytes a b d e)"
  using crc_steps_word_split [of 0 "u32_from_le_bytes a b d e"]
  by (simp only: crc_reference_Cons le_bytes_of_word crc_steps_xor crc_steps_collect)
    (simp add: xor.assoc)

lemma chunk_step_eq:
  "chunk_step c [b0, b1, b2, b3, b4, b5, b6, b7]
     = crc_reference c [b0, b1, b2, b3, b4, b5, b6, b7]"
proof -
  let ?h = "c XOR u32_from_le_bytes b0 b1 b2 b3"
  have "crc_reference c ([b0, b1, b2, b3] @ [b4, b5, b6, b7])
      = (crc_step ^^ 64) ?h XOR (crc_step ^^ 32) (ucast b4) XOR (crc_step ^^ 24) (ucast b5)
        XOR (crc_step ^^ 16) (ucast b6) XOR (crc_step ^^ 8) (ucast b7)"
    using crc_steps_word_split [of 0 "u32_from_le_bytes b4 b5 b6 b7"] funpow_add [of 32 32 crc_step]
    by (simp only: crc_reference_append crc_reference_word)
      (simp add: le_bytes_of_word crc_steps_xor xor.assoc)
  then show ?thesis
    using crc_steps_word_split [of 32 ?h]
    by (simp add: chunk_step_def Let_def crc_tables_nth xor.assoc)
qed

lemma length_eq_8:
  "length xs = 8 \<Longrightarrow> \<exists>a b c d e f g h. xs = [a, b, c, d, e, f, g, h]"
  by (auto simp: numeral_eq_Suc length_Suc_conv)

lemma update_loop_eq: "update_loop c bytes = crc_reference c bytes"
proof (induction c bytes rule: update_loop.induct)
  case (1 c bytes)
  show ?case
  proof (cases "8 \<le> length bytes")
    case True
    then obtain b0 b1 b2 b3 b4 b5 b6 b7 where chunk: "take 8 bytes = [b0, b1, b2, b3, b4, b5, b6, b7]"
      using length_eq_8 [of "take 8 bytes"] by auto
    have "update_loop c bytes = crc_reference (crc_reference c (take 8 bytes)) (drop 8 bytes)"
      using 1 True by (simp only: update_loop.simps [of c bytes] chunk chunk_step_eq if_True)
    then show ?thesis by (simp add: crc_reference_append [symmetric])
  next
    case False
    then show ?thesis
      by (subst update_loop.simps) (simp add: crc_reference_def byte_step_eq [abs_def])
  qed
qed

text \<open>
  C27: The slicing-by-eight update computes the bitwise CRC of the octets for every seed,
  every input length and every split of the input into two calls.
\<close>

theorem icrc_update_matches_bitwise:
  "icrc_state (icrc_update (icrc_update (with_seed seed) xs) ys) = crc_reference seed (xs @ ys)"
  by (simp add: icrc_update_def with_seed_def update_loop_eq crc_reference_append)

section \<open>Variant header fields\<close>

lemma masked_headers_nth:
  assumes "20 \<le> ihl" "ihl \<le> 60" "ihl \<le> length ip" "8 \<le> length udp" "BTH_LEN \<le> length tr"
    "i < ihl + 20"
  shows "masked_headers ip udp tr ihl ! i =
    (if i \<in> {1, 8, 10, 11, ihl + 6, ihl + 7, ihl + 12} then 0xff
     else if i < ihl then ip ! i else if i < ihl + 8 then udp ! (i - ihl) else tr ! (i - (ihl + 8)))"
  using assms
  by (auto simp: masked_headers_def Let_def BTH_LEN_def nth_copy_at nth_list_update min_def nth_Cons'
      add_ac)

lemma length_masked_headers:
  assumes "20 \<le> ihl" "ihl \<le> 60" "ihl \<le> length ip" "8 \<le> length udp" "BTH_LEN \<le> length tr"
  shows "length (masked_headers ip udp tr ihl) = ihl + 20"
  using assms by (simp add: masked_headers_def Let_def BTH_LEN_def min_def)

lemma compute_ipv4_cases:
  "compute_ipv4 ip udp tr =
    (if length ip < 20 \<or> drop_bit 4 (ip ! 0) \<noteq> 4 \<or> unat (ip ! 0 AND 0x0f) * 4 < 20
       \<or> length ip < unat (ip ! 0 AND 0x0f) * 4
     then Inl InvalidIpv4Header
     else if length udp < 8 then Inl (BufferTooShort 8 (length udp))
     else if length tr < BTH_LEN then Inl (BufferTooShort BTH_LEN (length tr))
     else Inr (NOT (crc_reference ICRC_SEED
       (masked_headers ip udp tr (unat (ip ! 0 AND 0x0f) * 4) @ drop BTH_LEN tr))))"
proof -
  have "ip ! 0 AND 0x0f \<le> 0x0f" by (rule word_and_le1)
  then have "unat (ip ! 0 AND 0x0f) \<le> 15" by (simp add: word_le_nat_alt)
  then show ?thesis
    by (simp add: compute_ipv4_def Let_def icrc_update_def icrc_new_def icrc_finalize_def
        update_loop_eq crc_reference_append not_le)
qed

text \<open>
  C28: The ICRC does not depend on the fields that routers and congestion marking rewrite:
  the IPv4 type of service, time to live and header checksum, the UDP checksum, and the
  octet of the BTH with the congestion bits.  Packets that agree everywhere else have the
  same ICRC, or the same error.
\<close>

theorem icrc_ignores_variant_fields:
  assumes len: "length ip' = length ip" "length udp' = length udp" "length tr' = length tr"
    and ip: "\<And>i. i < length ip \<Longrightarrow> i \<notin> {1, 8, 10, 11} \<Longrightarrow> ip' ! i = ip ! i"
    and udp: "\<And>i. i < length udp \<Longrightarrow> i \<notin> {6, 7} \<Longrightarrow> udp' ! i = udp ! i"
    and tr: "\<And>i. i < length tr \<Longrightarrow> i \<noteq> 4 \<Longrightarrow> tr' ! i = tr ! i"
  shows "compute_ipv4 ip' udp' tr' = compute_ipv4 ip udp tr"
proof (cases "20 \<le> length ip \<and> 8 \<le> length udp \<and> BTH_LEN \<le> length tr \<and>
    20 \<le> unat (ip ! 0 AND 0x0f) * 4 \<and> unat (ip ! 0 AND 0x0f) * 4 \<le> length ip")
  case True
  define ihl where "ihl = unat (ip ! 0 AND 0x0f) * 4"
  have first: "ip' ! 0 = ip ! 0" using ip [of 0] True by (cases ip) auto
  have "ip ! 0 AND 0x0f \<le> 0x0f" by (rule word_and_le1)
  then have ihl: "20 \<le> ihl" "ihl \<le> 60" "ihl \<le> length ip" "8 \<le> length udp" "BTH_LEN \<le> length tr"
    using True by (simp_all add: ihl_def word_le_nat_alt)
  have "masked_headers ip' udp' tr' ihl = masked_headers ip udp tr ihl"
  proof (rule nth_equalityI)
    show "length (masked_headers ip' udp' tr' ihl) = length (masked_headers ip udp tr ihl)"
      using ihl len by (simp add: length_masked_headers)
    fix i assume "i < length (masked_headers ip' udp' tr' ihl)"
    then have i: "i < ihl + 20" using ihl len by (simp add: length_masked_headers)
    have "ip' ! i = ip ! i" if "i \<notin> {1, 8, 10, 11}" "i < ihl" using that ip [of i] ihl by simp
    moreover have "udp' ! (i - ihl) = udp ! (i - ihl)"
      if "i \<notin> {ihl + 6, ihl + 7}" "\<not> i < ihl" "i < ihl + 8"
      by (rule udp) (use that ihl in auto)
    moreover have "tr' ! (i - (ihl + 8)) = tr ! (i - (ihl + 8))" if "i \<noteq> ihl + 12" "\<not> i < ihl + 8"
      by (rule tr) (use that ihl i in \<open>auto simp: BTH_LEN_def\<close>)
    ultimately show "masked_headers ip' udp' tr' ihl ! i = masked_headers ip udp tr ihl ! i"
      using ihl len i by (simp add: masked_headers_nth)
  qed
  moreover have "drop BTH_LEN tr' = drop BTH_LEN tr"
    using len tr by (auto simp: BTH_LEN_def intro: nth_equalityI)
  ultimately show ?thesis
    using len by (simp add: compute_ipv4_cases first ihl_def)
next
  case False
  then show ?thesis
    using len ip [of 0] by (cases "length ip = 0") (auto simp: compute_ipv4_cases not_less)
qed

theorem icrc_ignores_variant_fields_witness:
  "compute_ipv4 (0x45 # 0x55 # replicate 18 0) (replicate 8 0) (replicate 12 7)
     = compute_ipv4 (0x45 # replicate 19 0) (replicate 8 0) (replicate 12 7)"
  by (rule icrc_ignores_variant_fields) (auto simp: nth_Cons')

section \<open>Error bursts\<close>

lemma xor_right_cancel: "x XOR z = y XOR z \<longleftrightarrow> x = y" for x y z :: u32
proof
  assume "x XOR z = y XOR z"
  then have "x XOR z XOR z = y XOR z XOR z" by (simp only: xor.assoc [symmetric])
  then show "x = y" by simp
qed simp

lemma crc_step_inj: "crc_step x = crc_step y \<Longrightarrow> x = y"
proof -
  assume eq: "crc_step x = crc_step y"
  have "bit (crc_step z) 31 = bit z 0" for z
    by (simp add: crc_step_alt bit_simps bit_beyond CRC32_POLYNOMIAL_REFLECTED_def)
  with eq have low: "bit x 0 = bit y 0" by metis
  with eq have "drop_bit 1 x = drop_bit 1 y"
    by (auto simp: crc_step_alt xor_right_cancel split: if_splits)
  then have "bit x (Suc n) = bit y (Suc n)" for n
    by (metis bit_drop_bit_eq comp_apply plus_1_eq_Suc)
  with low show "x = y" by (metis bit_word_eqI not0_implies_Suc)
qed

lemma crc_steps_inj: "(crc_step ^^ n) x = (crc_step ^^ n) y \<Longrightarrow> x = y"
  by (induction n) (auto dest: crc_step_inj)

lemma crc_reference_inj_state:
  "crc_reference c xs = crc_reference d xs \<Longrightarrow> c = d"
proof (induction xs arbitrary: c d)
  case (Cons b xs)
  from Cons.IH [OF Cons.prems [unfolded crc_reference_Cons]]
  have "c XOR ucast b = d XOR ucast b" by (rule crc_steps_inj)
  then show ?case by (simp add: xor_right_cancel)
qed simp

lemma word_burst:
  assumes "crc_reference c xs = crc_reference c ys" "length xs = 4" "length ys = 4"
  shows "xs = ys"
proof -
  obtain a b d e a' b' d' e' where xs: "xs = [a, b, d, e]" and ys: "ys = [a', b', d', e']"
    using assms(2,3) by (auto simp: numeral_eq_Suc length_Suc_conv)
  have "c XOR u32_from_le_bytes a b d e = c XOR u32_from_le_bytes a' b' d' e'"
    using assms(1) unfolding xs ys crc_reference_word by (rule crc_steps_inj)
  then have "u32_from_le_bytes a b d e = u32_from_le_bytes a' b' d' e'"
    by (simp add: xor.commute [of c] xor_right_cancel)
  then show ?thesis unfolding xs ys by (metis le_bytes_of_word)
qed

lemma short_burst:
  assumes "crc_reference c xs = crc_reference c ys" "length xs = length ys" "length xs \<le> 4"
  shows "xs = ys"
proof -
  let ?z = "replicate (4 - length xs) 0 :: octets"
  have "crc_reference c (xs @ ?z) = crc_reference c (ys @ ?z)"
    using assms(1) by (simp add: crc_reference_append)
  then have "xs @ ?z = ys @ ?z" by (rule word_burst) (use assms in simp_all)
  then show ?thesis by simp
qed

text \<open>Two transport parts of one packet that differ within four octets after the BTH have
  different ICRCs.\<close>

lemma compute_ipv4_burst:
  assumes "compute_ipv4 ip udp (pre @ burst @ post) = Inr crc"
    and "compute_ipv4 ip udp (pre @ burst' @ post) = Inr crc'"
    and "BTH_LEN \<le> length pre" "length burst' = length burst" "length burst \<le> 4" "burst' \<noteq> burst"
  shows "crc' \<noteq> crc"
proof
  define ihl where "ihl = unat (ip ! 0 AND 0x0f) * 4"
  define hs where "hs = masked_headers ip udp pre ihl @ drop BTH_LEN pre"
  assume "crc' = crc"
  have take: "take BTH_LEN (pre @ zs) = take BTH_LEN pre" for zs using assms(3) by simp
  have "masked_headers ip udp (pre @ zs) ihl = masked_headers ip udp pre ihl" for zs
    by (simp only: masked_headers_def take)
  then have "crc_reference ICRC_SEED (hs @ burst @ post) = crc_reference ICRC_SEED (hs @ burst' @ post)"
    using assms \<open>crc' = crc\<close>
    by (auto simp: compute_ipv4_cases hs_def ihl_def split: if_splits)
  then have "crc_reference (crc_reference ICRC_SEED hs) burst
      = crc_reference (crc_reference ICRC_SEED hs) burst'"
    unfolding crc_reference_append by (rule crc_reference_inj_state)
  then show False using short_burst assms(4-6) by metis
qed

end
