(* ===== verification/Wire_Packet.thy ===== *)
theory Wire_Packet
  imports Wire_Header Wire_Icrc
begin

text \<open>
  Transport packets, \<open>rocev2-wire/src/packet.rs\<close>: the parser of a UDP payload
  and the encoder that writes BTH, extended headers, payload, padding and ICRC
  into a caller's buffer.  The three optional headers are read by one helper,
  \<open>read_extended\<close>.  An encoder returns the updated buffer with the length it
  reports; the buffer after an error is not modelled.  The lemmas show that the
  parser accepts exactly the wire forms of well-formed packets and that what the
  encoder writes is such a form.
\<close>

section \<open>Model\<close>

record ParseOptions =
  require_zero_padding :: bool
  reject_unexpected_payload :: bool

definition STRICT :: ParseOptions where
  "STRICT = \<lparr>require_zero_padding = True, reject_unexpected_payload = True\<rparr>"

record PacketRef =
  pr_bth :: Bth
  pr_reth :: "Reth option"
  pr_aeth :: "Aeth option"
  pr_immediate :: "u32 option"
  pr_payload :: octets
  pr_padding :: octets
  pr_icrc :: u32

definition read_extended ::
  "bool \<Rightarrow> usize \<Rightarrow> (octets \<Rightarrow> WireError + 'h) \<Rightarrow> octets \<Rightarrow> usize \<Rightarrow> WireError + ('h option \<times> usize)" where
  "read_extended present len dec input cursor =
     (if present
      then and_then (ok_or (usize_checked_add cursor len) ArithmeticOverflow) (\<lambda>stop.
        if stop > length input then Inl (BufferTooShort stop (length input))
        else and_then (dec (slice cursor stop input)) (\<lambda>h. Inr (Some h, stop)))
      else Inr (None, cursor))"

definition immediate_decode :: "octets \<Rightarrow> WireError + u32" where
  "immediate_decode bs = Inr (u32_from_be_bytes (bs ! 0) (bs ! 1) (bs ! 2) (bs ! 3))"

definition packet_parse :: "octets \<Rightarrow> ParseOptions \<Rightarrow> WireError + PacketRef" where
  "packet_parse input options =
     (if length input < BTH_LEN + ICRC_LEN
      then Inl (BufferTooShort (BTH_LEN + ICRC_LEN) (length input))
      else and_then (bth_decode input) (\<lambda>bth.
        let opc = opcode bth in
        and_then (read_extended (has_reth opc) RETH_LEN reth_decode input BTH_LEN) (\<lambda>(reth, cursor).
        and_then (read_extended (has_aeth opc) AETH_LEN aeth_decode input cursor) (\<lambda>(aeth, cursor).
        and_then (read_extended (has_immediate opc) 4 immediate_decode input cursor) (\<lambda>(imm, cursor).
        and_then (ok_or (usize_checked_add (unat (pad_count bth)) ICRC_LEN) ArithmeticOverflow) (\<lambda>trailer.
        if length input < cursor + trailer
        then Inl (LengthMismatch (cursor + trailer) (length input))
        else
          let payload_end = length input - trailer;
              padding_end = length input - ICRC_LEN;
              payload = slice cursor payload_end input;
              padding = slice payload_end padding_end input
          in if reject_unexpected_payload options \<and> \<not> allows_payload opc \<and> payload \<noteq> []
          then Inl (HeaderMismatch (as_u8 opc) ''no payload'')
          else if require_zero_padding options \<and> list_ex (\<lambda>b. b \<noteq> 0) padding
          then Inl NonZeroPadding
          else Inr \<lparr>pr_bth = bth, pr_reth = reth, pr_aeth = aeth, pr_immediate = imm,
                     pr_payload = payload, pr_padding = padding,
                     pr_icrc = u32_from_le_bytes (input ! padding_end) (input ! (padding_end + 1))
                       (input ! (padding_end + 2)) (input ! (padding_end + 3))\<rparr>))))))"

definition verify_icrc :: "PacketRef \<Rightarrow> octets \<Rightarrow> octets \<Rightarrow> octets \<Rightarrow> WireError + unit" where
  "verify_icrc p full_transport ipv4_header udp_header =
     (if length full_transport < ICRC_LEN
      then Inl (BufferTooShort ICRC_LEN (length full_transport))
      else and_then (compute_ipv4 ipv4_header udp_header
          (take (length full_transport - ICRC_LEN) full_transport)) (\<lambda>computed.
        if computed \<noteq> pr_icrc p then Inl (IcrcMismatch (pr_icrc p) computed) else Inr ()))"

record PacketSpec =
  ps_bth :: Bth
  ps_reth :: "Reth option"
  ps_aeth :: "Aeth option"
  ps_immediate :: "u32 option"
  ps_payload :: octets

definition spec_pad_count :: "PacketSpec \<Rightarrow> usize" where
  "spec_pad_count s = (4 - (length (ps_payload s) AND 3)) AND 3"

definition encoded_len :: "PacketSpec \<Rightarrow> WireError + usize" where
  "encoded_len s =
     (let opc = opcode (ps_bth s);
          add = (\<lambda>present n len. if present then ok_or (usize_checked_add len n) ArithmeticOverflow
                 else Inr len)
      in and_then (add (has_reth opc) RETH_LEN BTH_LEN) (\<lambda>len.
         and_then (add (has_aeth opc) AETH_LEN len) (\<lambda>len.
         and_then (add (has_immediate opc) 4 len) (\<lambda>len.
         ok_or (Option.bind (usize_checked_add len (length (ps_payload s))) (\<lambda>value.
           Option.bind (usize_checked_add value (spec_pad_count s)) (\<lambda>value.
           usize_checked_add value ICRC_LEN))) ArithmeticOverflow))))"

definition validate_headers :: "PacketSpec \<Rightarrow> WireError + unit" where
  "validate_headers s =
     (let opc = opcode (ps_bth s)
      in if has_reth opc \<noteq> (ps_reth s \<noteq> None)
      then Inl (HeaderMismatch (as_u8 opc) (if has_reth opc then ''RETH'' else ''no RETH''))
      else if has_aeth opc \<noteq> (ps_aeth s \<noteq> None)
      then Inl (HeaderMismatch (as_u8 opc) (if has_aeth opc then ''AETH'' else ''no AETH''))
      else if has_immediate opc \<noteq> (ps_immediate s \<noteq> None)
      then Inl (HeaderMismatch (as_u8 opc)
        (if has_immediate opc then ''immediate data'' else ''no immediate data''))
      else if \<not> allows_payload opc \<and> ps_payload s \<noteq> []
      then Inl (HeaderMismatch (as_u8 opc) ''no payload'')
      else Inr ())"

definition write_extended ::
  "('h \<Rightarrow> octets \<Rightarrow> WireError + octets) \<Rightarrow> usize \<Rightarrow> 'h option \<Rightarrow> octets \<times> usize
    \<Rightarrow> WireError + (octets \<times> usize)" where
  "write_extended enc len h state =
     (case (h, state) of
        (None, _) \<Rightarrow> Inr state
      | (Some v, (out, cursor)) \<Rightarrow>
          and_then (enc v (slice cursor (cursor + len) out)) (\<lambda>part.
            Inr (copy_at cursor part out, cursor + len)))"

definition immediate_encode :: "u32 \<Rightarrow> octets \<Rightarrow> WireError + octets" where
  "immediate_encode v out = Inr (copy_at 0 (u32_to_be_bytes v) out)"

definition encode_without_icrc :: "PacketSpec \<Rightarrow> octets \<Rightarrow> WireError + (octets \<times> usize)" where
  "encode_without_icrc s out =
     and_then (validate_headers s) (\<lambda>_.
     and_then (encoded_len s) (\<lambda>total.
     if length out < total then Inl (BufferTooShort total (length out))
     else and_then (bth_encode ((ps_bth s)\<lparr>pad_count := of_nat (spec_pad_count s)\<rparr>) (take BTH_LEN out))
       (\<lambda>part.
       and_then (write_extended reth_encode RETH_LEN (ps_reth s) (copy_at 0 part out, BTH_LEN)) (\<lambda>st.
       and_then (write_extended aeth_encode AETH_LEN (ps_aeth s) st) (\<lambda>st.
       and_then (write_extended immediate_encode 4 (ps_immediate s) st) (\<lambda>(out, cursor).
       let out = copy_at cursor (ps_payload s) out;
           cursor = cursor + length (ps_payload s);
           out = copy_at cursor (replicate (spec_pad_count s) 0) out;
           cursor = cursor + spec_pad_count s
       in Inr (copy_at cursor (replicate ICRC_LEN 0) out, cursor)))))))"

definition encode_with_icrc ::
  "PacketSpec \<Rightarrow> octets \<Rightarrow> octets \<Rightarrow> octets \<Rightarrow> WireError + (octets \<times> usize)" where
  "encode_with_icrc s ipv4_header udp_header out =
     and_then (encode_without_icrc s out) (\<lambda>(out, icrc_offset).
     and_then (compute_ipv4 ipv4_header udp_header (take icrc_offset out)) (\<lambda>icrc.
     Inr (copy_at icrc_offset (u32_to_le_bytes icrc) out, icrc_offset + ICRC_LEN)))"

section \<open>The parser\<close>

fun opt_wire :: "('h \<Rightarrow> octets) \<Rightarrow> 'h option \<Rightarrow> octets" where
  "opt_wire wire None = []"
| "opt_wire wire (Some h) = wire h"

definition packet_wire :: "PacketRef \<Rightarrow> octets" where
  "packet_wire p = bth_wire (pr_bth p) @ opt_wire reth_wire (pr_reth p) @ opt_wire aeth_wire (pr_aeth p)
     @ opt_wire u32_to_be_bytes (pr_immediate p) @ pr_payload p @ pr_padding p @ u32_to_le_bytes (pr_icrc p)"

definition headers_match ::
  "Opcode \<Rightarrow> Reth option \<Rightarrow> Aeth option \<Rightarrow> u32 option \<Rightarrow> bool" where
  "headers_match opc reth aeth imm \<longleftrightarrow>
     (reth \<noteq> None) = has_reth opc \<and> (aeth \<noteq> None) = has_aeth opc \<and> (imm \<noteq> None) = has_immediate opc \<and>
     pred_option aeth_ok aeth"

definition packet_ok :: "ParseOptions \<Rightarrow> PacketRef \<Rightarrow> bool" where
  "packet_ok options p \<longleftrightarrow>
     bth_ok (pr_bth p) \<and>
     headers_match (opcode (pr_bth p)) (pr_reth p) (pr_aeth p) (pr_immediate p) \<and>
     length (pr_padding p) = unat (pad_count (pr_bth p)) \<and>
     (reject_unexpected_payload options \<longrightarrow> allows_payload (opcode (pr_bth p)) \<or> pr_payload p = []) \<and>
     (require_zero_padding options \<longrightarrow> (\<forall>b \<in> set (pr_padding p). b = 0))"

lemma small_checked_add [simp]: "a + b \<le> 1000 \<Longrightarrow> usize_checked_add a b = Some (a + b)"
  by (simp add: usize_checked_add_def usize_max_def)

lemma read_extended_iff:
  assumes dec: "\<And>bs h. length bs = len \<Longrightarrow> dec bs = Inr h \<longleftrightarrow> ok h \<and> bs = wire h"
    and len: "\<And>h. length (wire h) = len" and small: "length pre + len \<le> 1000"
  shows "read_extended present len dec (pre @ rest) (length pre) = Inr (r, c) \<longleftrightarrow>
    (r \<noteq> None) = present \<and> pred_option ok r \<and>
    (\<exists>rest'. rest = opt_wire wire r @ rest' \<and> c = length (pre @ opt_wire wire r))"
proof (cases present)
  case True
  have slice: "slice (length pre) (length pre + len) (pre @ rest) = take len rest"
    by (simp add: slice_def)
  show ?thesis
  proof (cases "len \<le> length rest")
    case enough: True
    have "read_extended present len dec (pre @ rest) (length pre)
        = and_then (dec (take len rest)) (\<lambda>h. Inr (Some h, length pre + len))"
      using True small enough by (simp add: read_extended_def slice)
    moreover have "dec (take len rest) = Inr h \<longleftrightarrow> ok h \<and> (\<exists>rest'. rest = wire h @ rest')" for h
      using enough dec [of "take len rest" h] len [of h]
      by (auto simp: append_eq_conv_conj) (metis append_take_drop_id)
    ultimately show ?thesis
      using True len by (cases r) (auto simp: result_simps)
  next
    case False
    then show ?thesis using True small len by (cases r) (auto simp: read_extended_def)
  qed
next
  case False
  then show ?thesis by (cases r) (auto simp: read_extended_def)
qed

lemmas read_reth_iff = read_extended_iff [where dec = reth_decode and len = RETH_LEN and wire = reth_wire
    and ok = "\<lambda>_. True"]
lemmas read_aeth_iff = read_extended_iff [where dec = aeth_decode and len = AETH_LEN and wire = aeth_wire
    and ok = aeth_ok]
lemmas read_immediate_iff = read_extended_iff [where dec = immediate_decode and len = 4
    and wire = u32_to_be_bytes and ok = "\<lambda>_. True"]

lemma immediate_decode_iff:
  assumes "length bs = 4"
  shows "immediate_decode bs = Inr v \<longleftrightarrow> True \<and> bs = u32_to_be_bytes v"
proof -
  obtain a b c d where bs: "bs = [a, b, c, d]"
    using assms by (auto simp: numeral_eq_Suc length_Suc_conv)
  have "u32_from_be_bytes a b c d = v \<longleftrightarrow> [a, b, c, d] = u32_to_be_bytes v"
    using u32_be_bytes_roundtrip' [of a b c d] u32_be_expand [of v]
    by (auto simp: u32_to_be_bytes_def)
  then show ?thesis by (simp add: immediate_decode_def bs numeral_2_eq_2 numeral_3_eq_3)
qed

lemma codec_exact:
  assumes "header_codec enc dec len ok wire" "length bs = len"
  shows "dec bs = Inr h \<longleftrightarrow> ok h \<and> bs = wire h"
  using header_codec.dec_iff [OF assms(1), of bs h] assms(2) by simp

lemmas read_reth = read_reth_iff [OF codec_exact [OF reth.header_codec_axioms] reth.wire_length]
lemmas read_aeth = read_aeth_iff [OF codec_exact [OF aeth.header_codec_axioms] aeth.wire_length]
lemmas read_immediate = read_immediate_iff [OF immediate_decode_iff length_to_bytes(2)]

lemma header_lengths [simp]: "length (bth_wire b) = 12" "length (reth_wire r) = 16" "length (aeth_wire a) = 4"
  using bth.wire_length reth.wire_length aeth.wire_length
  by (simp_all add: BTH_LEN_def RETH_LEN_def AETH_LEN_def)

lemma opt_wire_lengths:
  "length (opt_wire reth_wire r) \<le> 16" "length (opt_wire aeth_wire a) \<le> 4"
  "length (opt_wire u32_to_be_bytes i) \<le> 4"
  by (cases r; cases a; cases i; simp)+

text \<open>What remains after the headers: payload, padding and ICRC.\<close>

lemma length_eq_4: "length xs = 4 \<Longrightarrow> \<exists>a b c d. xs = [a, b, c, d]"
  by (auto simp: numeral_eq_Suc length_Suc_conv)

lemma trailer_split:
  assumes "pad + 4 \<le> length rest"
  obtains payload padding icrc where
    "rest = payload @ padding @ u32_to_le_bytes icrc" "length padding = pad"
proof -
  let ?n = "length rest - (pad + 4)"
  have "length (drop pad (drop ?n rest)) = 4" using assms by simp
  then obtain a b c d where "drop pad (drop ?n rest) = [a, b, c, d]"
    using length_eq_4 by blast
  then have "rest = take ?n rest @ take pad (drop ?n rest) @ u32_to_le_bytes (u32_from_le_bytes a b c d)"
    by (metis append_take_drop_id le_bytes_of_word)
  moreover have "length (take pad (drop ?n rest)) = pad" using assms by simp
  ultimately show thesis by (rule that)
qed

lemma le_expand:
  "u32_from_le_bytes (u32_to_le_bytes w ! 0) (u32_to_le_bytes w ! Suc 0) (u32_to_le_bytes w ! 2)
     (u32_to_le_bytes w ! 3) = w"
  using u32_be_expand [of w]
  by (simp add: u32_from_le_bytes_def u32_to_le_bytes_def u32_to_be_bytes_def numeral_2_eq_2 numeral_3_eq_3)

definition parse_tail :: "ParseOptions \<Rightarrow> Bth \<Rightarrow> Reth option \<Rightarrow> Aeth option \<Rightarrow> u32 option \<Rightarrow>
    octets \<Rightarrow> usize \<Rightarrow> WireError + PacketRef" where
  "parse_tail options bth reth aeth imm input cursor =
     (let trailer = unat (pad_count bth) + ICRC_LEN in
      if length input < cursor + trailer then Inl (LengthMismatch (cursor + trailer) (length input))
      else
        let payload_end = length input - trailer;
            padding_end = length input - ICRC_LEN;
            payload = slice cursor payload_end input;
            padding = slice payload_end padding_end input
        in if reject_unexpected_payload options \<and> \<not> allows_payload (opcode bth) \<and> payload \<noteq> []
        then Inl (HeaderMismatch (as_u8 (opcode bth)) ''no payload'')
        else if require_zero_padding options \<and> list_ex (\<lambda>b. b \<noteq> 0) padding
        then Inl NonZeroPadding
        else Inr \<lparr>pr_bth = bth, pr_reth = reth, pr_aeth = aeth, pr_immediate = imm,
                   pr_payload = payload, pr_padding = padding,
                   pr_icrc = u32_from_le_bytes (input ! padding_end) (input ! (padding_end + 1))
                     (input ! (padding_end + 2)) (input ! (padding_end + 3))\<rparr>)"

lemma parse_tail_eval:
  assumes "length padding = unat (pad_count bth)"
  shows "parse_tail options bth reth aeth imm (pre @ payload @ padding @ u32_to_le_bytes icrc) (length pre) =
    (if reject_unexpected_payload options \<and> \<not> allows_payload (opcode bth) \<and> payload \<noteq> []
     then Inl (HeaderMismatch (as_u8 (opcode bth)) ''no payload'')
     else if require_zero_padding options \<and> list_ex (\<lambda>b. b \<noteq> 0) padding then Inl NonZeroPadding
     else Inr \<lparr>pr_bth = bth, pr_reth = reth, pr_aeth = aeth, pr_immediate = imm,
       pr_payload = payload, pr_padding = padding, pr_icrc = icrc\<rparr>)"
proof -
  let ?input = "pre @ payload @ padding @ u32_to_le_bytes icrc"
  have "?input ! (length ?input - 4 + i) = u32_to_le_bytes icrc ! i" if "i < 4" for i
  proof -
    have "?input = (pre @ payload @ padding) @ u32_to_le_bytes icrc" by simp
    moreover have "length ?input - 4 + i = length (pre @ payload @ padding) + i" by simp
    ultimately show ?thesis by (metis nth_append_length_plus)
  qed
  from this [of 0] this [of 1] this [of 2] this [of 3] show ?thesis
    using assms le_expand [of icrc]
    by (simp add: parse_tail_def Let_def slice_def ICRC_LEN_def)
qed

lemma parse_tail_iff:
  "parse_tail options bth reth aeth imm (pre @ rest) (length pre) = Inr p \<longleftrightarrow>
    p = \<lparr>pr_bth = bth, pr_reth = reth, pr_aeth = aeth, pr_immediate = imm, pr_payload = pr_payload p,
         pr_padding = pr_padding p, pr_icrc = pr_icrc p\<rparr> \<and>
    rest = pr_payload p @ pr_padding p @ u32_to_le_bytes (pr_icrc p) \<and>
    length (pr_padding p) = unat (pad_count bth) \<and>
    (reject_unexpected_payload options \<longrightarrow> allows_payload (opcode bth) \<or> pr_payload p = []) \<and>
    (require_zero_padding options \<longrightarrow> (\<forall>b \<in> set (pr_padding p). b = 0))" (is "?l \<longleftrightarrow> ?r")
proof
  assume l: ?l
  then have "unat (pad_count bth) + 4 \<le> length rest"
    by (auto simp: parse_tail_def Let_def ICRC_LEN_def not_less split: if_splits)
  then obtain payload padding icrc where
    "rest = payload @ padding @ u32_to_le_bytes icrc" "length padding = unat (pad_count bth)"
    by (rule trailer_split)
  with l show ?r by (auto simp: parse_tail_eval list_ex_iff split: if_splits)
next
  assume r: ?r
  show ?l
    using r parse_tail_eval [of "pr_padding p" bth options reth aeth imm pre "pr_payload p" "pr_icrc p"]
    by (auto simp: list_ex_iff)
qed

lemma packet_parse_alt:
  "packet_parse input options =
    (if length input < 16 then Inl (BufferTooShort 16 (length input))
     else and_then (bth_decode input) (\<lambda>bth.
       and_then (read_extended (has_reth (opcode bth)) RETH_LEN reth_decode input BTH_LEN) (\<lambda>(reth, cursor).
       and_then (read_extended (has_aeth (opcode bth)) AETH_LEN aeth_decode input cursor) (\<lambda>(aeth, cursor).
       and_then (read_extended (has_immediate (opcode bth)) 4 immediate_decode input cursor) (\<lambda>(imm, cursor).
       parse_tail options bth reth aeth imm input cursor)))))"
proof -
  have pad: "usize_checked_add (unat (pad_count b)) ICRC_LEN = Some (unat (pad_count b) + ICRC_LEN)" for b
    using unsigned_less [of "pad_count b", where 'a = nat] by (simp add: ICRC_LEN_def)
  show ?thesis
    unfolding packet_parse_def parse_tail_def Let_def pad ok_or.simps and_then.simps
    by (simp add: BTH_LEN_def ICRC_LEN_def)
qed

lemma parse_sound:
  assumes "packet_parse input options = Inr p"
  shows "packet_ok options p \<and> input = packet_wire p"
proof -
  obtain b r c1 a c2 i c3 where
    b: "bth_decode input = Inr b" and
    r: "read_extended (has_reth (opcode b)) RETH_LEN reth_decode input BTH_LEN = Inr (r, c1)" and
    a: "read_extended (has_aeth (opcode b)) AETH_LEN aeth_decode input c1 = Inr (a, c2)" and
    i: "read_extended (has_immediate (opcode b)) 4 immediate_decode input c2 = Inr (i, c3)" and
    t: "parse_tail options b r a i input c3 = Inr p"
    using assms unfolding packet_parse_alt
    by (simp add: result_simps split: if_splits prod.splits) blast
  have ok: "bth_ok b" and input: "input = bth_wire b @ drop 12 input"
    using b unfolding bth.dec_iff by (simp_all add: BTH_LEN_def) (metis append_take_drop_id)
  define rest where "rest = drop 12 input"
  have input: "input = bth_wire b @ rest" using input by (simp add: rest_def)
  obtain rest1 where r': "(r \<noteq> None) = has_reth (opcode b)" "rest = opt_wire reth_wire r @ rest1"
    "c1 = length (bth_wire b @ opt_wire reth_wire r)"
    using r unfolding input using read_reth [of "bth_wire b" _ rest r c1]
    by (auto simp: BTH_LEN_def RETH_LEN_def)
  let ?p1 = "bth_wire b @ opt_wire reth_wire r"
  have input1: "input = ?p1 @ rest1" using input r' by simp
  obtain rest2 where a': "(a \<noteq> None) = has_aeth (opcode b)" "pred_option aeth_ok a"
    "rest1 = opt_wire aeth_wire a @ rest2" "c2 = length (?p1 @ opt_wire aeth_wire a)"
    using a unfolding input1 r'(3) using read_aeth [of ?p1 _ rest1 a c2] opt_wire_lengths(1) [of r]
    by (auto simp: AETH_LEN_def)
  let ?p2 = "?p1 @ opt_wire aeth_wire a"
  have input2: "input = ?p2 @ rest2" using input1 a' by simp
  obtain rest3 where i': "(i \<noteq> None) = has_immediate (opcode b)"
    "rest2 = opt_wire u32_to_be_bytes i @ rest3" "c3 = length (?p2 @ opt_wire u32_to_be_bytes i)"
    using i unfolding input2 a'(4) using read_immediate [of ?p2 _ rest2 i c3] opt_wire_lengths(1) [of r]
      opt_wire_lengths(2) [of a] by auto
  let ?p3 = "?p2 @ opt_wire u32_to_be_bytes i"
  have input3: "input = ?p3 @ rest3" using input2 i' by simp
  note tail = t [unfolded input3 i'(3) parse_tail_iff]
  have fields: "pr_bth p = b" "pr_reth p = r" "pr_aeth p = a" "pr_immediate p = i"
    using tail by (metis PacketRef.select_convs(1-4))+
  show ?thesis
    using tail ok r'(1) a'(1,2) i'(1) unfolding input3
    by (simp add: packet_ok_def packet_wire_def headers_match_def fields)
qed

lemma parse_complete:
  assumes "packet_ok options p"
  shows "packet_parse (packet_wire p) options = Inr p"
proof -
  define b where "b = pr_bth p"
  let ?r = "pr_reth p" and ?a = "pr_aeth p" and ?i = "pr_immediate p"
  let ?rest = "pr_payload p @ pr_padding p @ u32_to_le_bytes (pr_icrc p)"
  let ?p1 = "bth_wire b @ opt_wire reth_wire ?r"
  let ?p2 = "?p1 @ opt_wire aeth_wire ?a"
  let ?p3 = "?p2 @ opt_wire u32_to_be_bytes ?i"
  have ok: "bth_ok b" "(?r \<noteq> None) = has_reth (opcode b)" "(?a \<noteq> None) = has_aeth (opcode b)"
    "(?i \<noteq> None) = has_immediate (opcode b)" "pred_option aeth_ok ?a"
    using assms by (simp_all add: packet_ok_def headers_match_def b_def)
  have input: "packet_wire p = bth_wire b @ opt_wire reth_wire ?r @ opt_wire aeth_wire ?a
      @ opt_wire u32_to_be_bytes ?i @ ?rest" by (simp add: packet_wire_def b_def)
  have b: "bth_decode (packet_wire p) = Inr b" unfolding input using ok(1) by (rule bth.dec_wire)
  have r: "read_extended (has_reth (opcode b)) RETH_LEN reth_decode (packet_wire p) BTH_LEN = Inr (?r, length ?p1)"
    unfolding input using read_reth [of "bth_wire b" "has_reth (opcode b)"] ok
    by (simp add: BTH_LEN_def RETH_LEN_def pred_option_def)
  have a: "read_extended (has_aeth (opcode b)) AETH_LEN aeth_decode (packet_wire p) (length ?p1) = Inr (?a, length ?p2)"
    unfolding input using read_aeth [of ?p1 "has_aeth (opcode b)"] ok opt_wire_lengths(1) [of ?r]
    by (simp add: AETH_LEN_def)
  have i: "read_extended (has_immediate (opcode b)) 4 immediate_decode (packet_wire p) (length ?p2) = Inr (?i, length ?p3)"
    unfolding input using read_immediate [of ?p2 "has_immediate (opcode b)"] ok
      opt_wire_lengths(1) [of ?r] opt_wire_lengths(2) [of ?a]
    by (simp add: pred_option_def)
  have t: "parse_tail options b ?r ?a ?i (?p3 @ ?rest) (length ?p3) = Inr p"
    using assms unfolding parse_tail_iff by (simp add: packet_ok_def b_def)
  have "packet_wire p = ?p3 @ ?rest" unfolding input by simp
  then have tail: "parse_tail options b ?r ?a ?i (packet_wire p) (length ?p3) = Inr p" using t by metis
  have "\<not> length (packet_wire p) < 16" unfolding input by simp
  then show ?thesis
    by (simp only: packet_parse_alt b r a i tail and_then.simps prod.case if_False)
qed

text \<open>
  C26: The packet parser accepts exactly the wire forms of well-formed packets and returns
  the packet: headers as the opcode requires, payload, padding of the announced length
  (zero in strict mode), and the ICRC.  Nothing of the input is ignored.
\<close>

theorem packet_parse_exact:
  "packet_parse input options = Inr p \<longleftrightarrow> packet_ok options p \<and> input = packet_wire p"
  using parse_sound parse_complete by blast

section \<open>The encoder\<close>

definition spec_packet :: "PacketSpec \<Rightarrow> u32 \<Rightarrow> PacketRef" where
  "spec_packet s icrc =
     \<lparr>pr_bth = (ps_bth s)\<lparr>pad_count := of_nat (spec_pad_count s)\<rparr>, pr_reth = ps_reth s, pr_aeth = ps_aeth s,
      pr_immediate = ps_immediate s, pr_payload = ps_payload s,
      pr_padding = replicate (spec_pad_count s) 0, pr_icrc = icrc\<rparr>"

definition spec_body :: "PacketSpec \<Rightarrow> octets" where
  "spec_body s = bth_wire ((ps_bth s)\<lparr>pad_count := of_nat (spec_pad_count s)\<rparr>)
     @ opt_wire reth_wire (ps_reth s) @ opt_wire aeth_wire (ps_aeth s)
     @ opt_wire u32_to_be_bytes (ps_immediate s) @ ps_payload s @ replicate (spec_pad_count s) 0"

definition spec_ok :: "PacketSpec \<Rightarrow> bool" where
  "spec_ok s \<longleftrightarrow>
     bth_ok ((ps_bth s)\<lparr>pad_count := 0\<rparr>) \<and>
     headers_match (opcode (ps_bth s)) (ps_reth s) (ps_aeth s) (ps_immediate s) \<and>
     (allows_payload (opcode (ps_bth s)) \<or> ps_payload s = [])"

lemma spec_pad_mod: "spec_pad_count s = (4 - length (ps_payload s) mod 4) mod 4"
proof -
  have "n AND 3 = n mod 4" for n :: nat
    using take_bit_eq_mask [of 2 n] by (simp add: take_bit_eq_mod mask_eq_exp_minus_1)
  then show ?thesis by (simp add: spec_pad_count_def)
qed

lemma spec_pad_less: "spec_pad_count s < 4"
  by (simp add: spec_pad_mod)

lemma unat_spec_pad [simp]: "unat (of_nat (spec_pad_count s) :: u8) = spec_pad_count s"
  using spec_pad_less [of s] by (simp add: unat_of_nat)

lemma packet_wire_spec: "packet_wire (spec_packet s icrc) = spec_body s @ u32_to_le_bytes icrc"
  by (simp add: packet_wire_def spec_packet_def spec_body_def)

lemma bth_ok_pad: "bth_ok (b\<lparr>pad_count := of_nat (spec_pad_count s)\<rparr>) = bth_ok (b\<lparr>pad_count := 0\<rparr>)"
  using spec_pad_less [of s] by (simp add: bth_ok_def word_le_nat_alt)

lemma spec_packet_ok: "packet_ok STRICT (spec_packet s icrc) = spec_ok s"
  by (auto simp: packet_ok_def spec_packet_def spec_ok_def STRICT_def bth_ok_pad)

lemma copy_at_append: "copy_at (length pre) part (pre @ rest) = pre @ part @ drop (length part) rest"
  by (simp add: copy_at_def)

lemma write_extended_iff:
  assumes "header_codec enc dec len ok wire" "h \<noteq> None \<Longrightarrow> len \<le> length rest"
  shows "write_extended enc len h (pre @ rest, length pre) = Inr st \<longleftrightarrow>
    pred_option ok h \<and>
    st = ((pre @ opt_wire wire h) @ drop (length (opt_wire wire h)) rest, length (pre @ opt_wire wire h))"
proof (cases h)
  case None
  then show ?thesis by (auto simp: write_extended_def)
next
  case (Some v)
  note enc = header_encoder.enc_ok_iff [OF header_codec.axioms(1) [OF assms(1)]]
    and len = header_encoder.wire_length [OF header_codec.axioms(1) [OF assms(1)]]
  have "slice (length pre) (length pre + len) (pre @ rest) = take len rest" by (simp add: slice_def)
  then show ?thesis
    using Some assms(2) len [of v]
    by (auto simp: write_extended_def result_simps enc copy_at_append)
qed

lemma write_immediate_iff:
  assumes "h \<noteq> None \<Longrightarrow> 4 \<le> length rest"
  shows "write_extended immediate_encode 4 h (pre @ rest, length pre) = Inr st \<longleftrightarrow>
    st = ((pre @ opt_wire u32_to_be_bytes h) @ drop (length (opt_wire u32_to_be_bytes h)) rest,
          length (pre @ opt_wire u32_to_be_bytes h))"
proof (cases h)
  case (Some v)
  have "slice (length pre) (length pre + 4) (pre @ rest) = take 4 rest" by (simp add: slice_def)
  then show ?thesis
    using Some assms by (auto simp: write_extended_def immediate_encode_def copy_at_append copy_at_0)
qed (auto simp: write_extended_def)

lemma validate_headers_iff:
  "validate_headers s = Inr () \<longleftrightarrow>
    (ps_reth s \<noteq> None) = has_reth (opcode (ps_bth s)) \<and> (ps_aeth s \<noteq> None) = has_aeth (opcode (ps_bth s)) \<and>
    (ps_immediate s \<noteq> None) = has_immediate (opcode (ps_bth s)) \<and>
    (allows_payload (opcode (ps_bth s)) \<or> ps_payload s = [])"
  by (auto simp: validate_headers_def Let_def)

lemma header_sizes:
  "length (opt_wire reth_wire r) = (if r \<noteq> None then 16 else 0)"
  "length (opt_wire aeth_wire a) = (if a \<noteq> None then 4 else 0)"
  "length (opt_wire u32_to_be_bytes i) = (if i \<noteq> None then 4 else 0)"
  by (cases r; cases a; cases i; simp)+

lemma encoded_len_eq:
  assumes "validate_headers s = Inr ()"
  shows "encoded_len s = (if length (spec_body s) + 4 \<le> usize_max then Inr (length (spec_body s) + 4)
    else Inl ArithmeticOverflow)"
proof -
  have hdr: "BTH_LEN + (if has_reth opc then RETH_LEN else 0) + (if has_aeth opc then AETH_LEN else 0) +
      (if has_immediate opc then 4 else 0) \<le> 1000" for opc
    by (simp add: BTH_LEN_def RETH_LEN_def AETH_LEN_def)
  have match: "(ps_reth s \<noteq> None) = has_reth (opcode (ps_bth s))"
    "(ps_aeth s \<noteq> None) = has_aeth (opcode (ps_bth s))"
    "(ps_immediate s \<noteq> None) = has_immediate (opcode (ps_bth s))"
    using assms unfolding validate_headers_iff by simp_all
  define n where "n = BTH_LEN + (if has_reth (opcode (ps_bth s)) then RETH_LEN else 0)
    + (if has_aeth (opcode (ps_bth s)) then AETH_LEN else 0) + (if has_immediate (opcode (ps_bth s)) then 4 else 0)"
  have "encoded_len s = ok_or (Option.bind (usize_checked_add n (length (ps_payload s))) (\<lambda>value.
      Option.bind (usize_checked_add value (spec_pad_count s)) (\<lambda>value.
      usize_checked_add value ICRC_LEN))) ArithmeticOverflow"
    by (simp add: encoded_len_def Let_def n_def BTH_LEN_def RETH_LEN_def AETH_LEN_def)
  also have "\<dots> = (if n + length (ps_payload s) + spec_pad_count s + 4 \<le> usize_max
      then Inr (n + length (ps_payload s) + spec_pad_count s + 4) else Inl ArithmeticOverflow)"
    by (simp add: usize_checked_add_def ICRC_LEN_def)
  also have "n + length (ps_payload s) + spec_pad_count s = length (spec_body s)"
    using match by (simp add: spec_body_def header_sizes n_def BTH_LEN_def RETH_LEN_def AETH_LEN_def)
  finally show ?thesis .
qed

lemma copy_at_chain:
  "copy_at (length pre + length xs + length ys) zs
     (copy_at (length pre + length xs) ys (copy_at (length pre) xs (pre @ rest)))
   = pre @ xs @ ys @ zs @ drop (length xs + length ys + length zs) rest"
  using copy_at_append [of "pre @ xs" ys] copy_at_append [of "pre @ xs @ ys" zs]
  by (simp add: copy_at_append add.assoc) (simp add: ac_simps)

lemma encode_without_icrc_iff:
  "encode_without_icrc s out = Inr (out', n) \<longleftrightarrow>
    spec_ok s \<and> length (spec_body s) + 4 \<le> usize_max \<and> length (spec_body s) + 4 \<le> length out \<and>
    n = length (spec_body s) \<and> out' = spec_body s @ replicate 4 0 @ drop (length (spec_body s) + 4) out"
proof (cases "validate_headers s = Inr () \<and> length (spec_body s) + 4 \<le> usize_max \<and>
    length (spec_body s) + 4 \<le> length out")
  case True
  define b where "b = (ps_bth s)\<lparr>pad_count := of_nat (spec_pad_count s)\<rparr>"
  let ?b = "bth_wire b" and ?r = "opt_wire reth_wire (ps_reth s)" and ?a = "opt_wire aeth_wire (ps_aeth s)"
    and ?i = "opt_wire u32_to_be_bytes (ps_immediate s)"
  have body: "spec_body s = ?b @ ?r @ ?a @ ?i @ ps_payload s @ replicate (spec_pad_count s) 0"
    by (simp add: spec_body_def b_def)
  have len: "12 + length ?r + length ?a + length ?i + length (ps_payload s) + spec_pad_count s + 4 \<le> length out"
    using True by (simp add: body)
  have sizes: "ps_reth s \<noteq> None \<Longrightarrow> length ?r = 16" "ps_aeth s \<noteq> None \<Longrightarrow> length ?a = 4"
    "ps_immediate s \<noteq> None \<Longrightarrow> length ?i = 4" by (simp_all add: header_sizes)
  have room: "ps_reth s \<noteq> None \<Longrightarrow> RETH_LEN \<le> length (drop 12 out)"
    "ps_aeth s \<noteq> None \<Longrightarrow> AETH_LEN \<le> length (drop (length ?r) (drop 12 out))"
    "ps_immediate s \<noteq> None \<Longrightarrow> 4 \<le> length (drop (length ?a) (drop (length ?r) (drop 12 out)))"
    using len sizes by (simp_all add: RETH_LEN_def AETH_LEN_def)
  have r: "write_extended reth_encode RETH_LEN (ps_reth s) (?b @ drop 12 out, 12)
      = Inr ((?b @ ?r) @ drop (length ?r) (drop 12 out), length (?b @ ?r))"
    using write_extended_iff [OF reth.header_codec_axioms room(1), where pre = ?b] by (simp add: pred_option_def)
  have a: "write_extended aeth_encode AETH_LEN (ps_aeth s)
        ((?b @ ?r) @ drop (length ?r) (drop 12 out), length (?b @ ?r)) = Inr st \<longleftrightarrow>
      pred_option aeth_ok (ps_aeth s) \<and>
      st = ((?b @ ?r @ ?a) @ drop (length ?a) (drop (length ?r) (drop 12 out)), length (?b @ ?r @ ?a))" for st
    using write_extended_iff [OF aeth.header_codec_axioms room(2), where pre = "?b @ ?r" and st = st] by simp
  have i: "write_extended immediate_encode 4 (ps_immediate s)
        ((?b @ ?r @ ?a) @ drop (length ?a) (drop (length ?r) (drop 12 out)), length (?b @ ?r @ ?a)) =
      Inr ((?b @ ?r @ ?a @ ?i) @ drop (length ?i) (drop (length ?a) (drop (length ?r) (drop 12 out))),
        length (?b @ ?r @ ?a @ ?i))"
    using write_immediate_iff [OF room(3), where pre = "?b @ ?r @ ?a"] by simp
  have b: "bth_encode b (take BTH_LEN out) = Inr part \<longleftrightarrow> bth_ok b \<and> part = ?b" for part
    using len by (simp add: bth.enc_ok_iff BTH_LEN_def)
  have start: "copy_at 0 ?b out = ?b @ drop 12 out" by (simp add: copy_at_0)
  have ok: "spec_ok s \<longleftrightarrow> bth_ok b \<and> pred_option aeth_ok (ps_aeth s)"
    using True unfolding validate_headers_iff by (simp add: spec_ok_def headers_match_def b_def bth_ok_pad)
  have val: "validate_headers s = Inr ()" and el: "encoded_len s = Inr (length (spec_body s) + 4)"
    and room: "\<not> length out < length (spec_body s) + 4"
    using True by (simp_all add: encoded_len_eq)
  have r': "write_extended reth_encode RETH_LEN (ps_reth s) (?b @ drop 12 out, BTH_LEN)
    = Inr ((?b @ ?r) @ drop (length ?r) (drop 12 out), length (?b @ ?r))"
    using r by (simp add: BTH_LEN_def)
  show ?thesis
  proof (cases "spec_ok s")
    case spec: True
    have enc: "bth_encode b (take BTH_LEN out) = Inr ?b" using b spec ok by simp
    have a': "write_extended aeth_encode AETH_LEN (ps_aeth s)
        ((?b @ ?r) @ drop (length ?r) (drop 12 out), length (?b @ ?r)) =
        Inr ((?b @ ?r @ ?a) @ drop (length ?a) (drop (length ?r) (drop 12 out)), length (?b @ ?r @ ?a))"
      using a spec ok by simp
    have "encode_without_icrc s out = (let out = copy_at (length (?b @ ?r @ ?a @ ?i)) (ps_payload s)
          ((?b @ ?r @ ?a @ ?i) @ drop (length ?i) (drop (length ?a) (drop (length ?r) (drop 12 out))));
        cursor = length (?b @ ?r @ ?a @ ?i) + length (ps_payload s);
        out = copy_at cursor (replicate (spec_pad_count s) 0) out;
        cursor = cursor + spec_pad_count s
      in Inr (copy_at cursor (replicate ICRC_LEN 0) out, cursor))"
      unfolding encode_without_icrc_def b_def [symmetric]
      by (simp only: val el enc start r' a' i room and_then.simps prod.case if_False)
    also have "\<dots> = Inr (spec_body s @ replicate 4 0 @ drop (length (spec_body s) + 4) out, length (spec_body s))"
      using copy_at_chain [of "?b @ ?r @ ?a @ ?i" "ps_payload s" "replicate (spec_pad_count s) 0" "replicate 4 0"]
      by (simp add: Let_def ICRC_LEN_def body ac_simps)
    finally show ?thesis using True spec by auto
  next
    case False
    have "encode_without_icrc s out \<noteq> Inr st" for st
    proof
      assume "encode_without_icrc s out = Inr st"
      then obtain part st1 st2 where steps: "bth_encode b (take BTH_LEN out) = Inr part"
        "write_extended reth_encode RETH_LEN (ps_reth s) (copy_at 0 part out, BTH_LEN) = Inr st1"
        "write_extended aeth_encode AETH_LEN (ps_aeth s) st1 = Inr st2"
        unfolding encode_without_icrc_def b_def [symmetric] val el and_then.simps
        by (auto simp: room result_simps)
      have part: "bth_ok b" "part = ?b" using steps(1) b by simp_all
      have "st1 = ((?b @ ?r) @ drop (length ?r) (drop 12 out), length (?b @ ?r))"
        using steps(2) unfolding part(2) start r' by simp
      then have "pred_option aeth_ok (ps_aeth s)" using steps(3) a by blast
      with ok part(1) False show False by simp
    qed
    then show ?thesis using False by simp
  qed
next
  case False
  have spec: "spec_ok s \<Longrightarrow> validate_headers s = Inr ()"
    by (simp add: spec_ok_def headers_match_def validate_headers_iff)
  show ?thesis
  proof (cases "validate_headers s")
    case (Inl e)
    then show ?thesis using spec by (auto simp: encode_without_icrc_def)
  next
    case (Inr u)
    then have val: "validate_headers s = Inr ()" by simp
    show ?thesis
    proof (cases "length (spec_body s) + 4 \<le> usize_max")
      case True
      then have "length out < length (spec_body s) + 4" using False val by simp
      then show ?thesis using True by (simp add: encode_without_icrc_def val encoded_len_eq [OF val])
    qed (simp add: encode_without_icrc_def val encoded_len_eq [OF val])
  qed
qed

lemma encode_with_icrc_iff:
  "encode_with_icrc s ip udp out = Inr (out', n) \<longleftrightarrow>
    spec_ok s \<and> n = length (spec_body s) + 4 \<and> n \<le> usize_max \<and> n \<le> length out \<and>
    (\<exists>icrc. compute_ipv4 ip udp (spec_body s) = Inr icrc \<and>
      out' = packet_wire (spec_packet s icrc) @ drop n out)" (is "?l \<longleftrightarrow> ?r")
proof -
  have "?l \<longleftrightarrow> (\<exists>mid m icrc. encode_without_icrc s out = Inr (mid, m) \<and>
      compute_ipv4 ip udp (take m mid) = Inr icrc \<and>
      out' = copy_at m (u32_to_le_bytes icrc) mid \<and> n = m + 4)"
    unfolding encode_with_icrc_def ICRC_LEN_def and_then_Inr_iff by (auto simp: and_then_Inr_iff)
  moreover have "copy_at (length (spec_body s)) (u32_to_le_bytes icrc)
      (spec_body s @ replicate 4 0 @ drop (length (spec_body s) + 4) out)
      = packet_wire (spec_packet s icrc) @ drop (length (spec_body s) + 4) out" for icrc
    by (simp add: copy_at_append packet_wire_spec)
  moreover have "take (length (spec_body s)) (spec_body s @ rest) = spec_body s" for rest by simp
  ultimately show ?thesis unfolding encode_without_icrc_iff by metis
qed

lemma encode_parse:
  assumes "encode_with_icrc s ip udp out = Inr (out', n)"
  obtains icrc where "packet_parse (take n out') STRICT = Inr (spec_packet s icrc)"
    "verify_icrc (spec_packet s icrc) (take n out') ip udp = Inr ()" "drop n out' = drop n out"
    "length out' = length out" "n = length (packet_wire (spec_packet s icrc))"
proof -
  obtain icrc where ok: "spec_ok s" and n: "n = length (spec_body s) + 4" "n \<le> length out"
    and icrc: "compute_ipv4 ip udp (spec_body s) = Inr icrc"
    and out': "out' = packet_wire (spec_packet s icrc) @ drop n out"
    using assms unfolding encode_with_icrc_iff by blast
  have len: "length (packet_wire (spec_packet s icrc)) = n" by (simp add: packet_wire_spec n)
  then have take: "take n out' = packet_wire (spec_packet s icrc)" by (simp add: out')
  have body: "take (n - 4) (packet_wire (spec_packet s icrc)) = spec_body s"
    by (simp add: packet_wire_spec n)
  show thesis
  proof (rule that)
    show "packet_parse (take n out') STRICT = Inr (spec_packet s icrc)"
      unfolding take by (rule parse_complete) (simp add: spec_packet_ok ok)
    show "verify_icrc (spec_packet s icrc) (take n out') ip udp = Inr ()"
      using body icrc n unfolding take by (simp add: verify_icrc_def len ICRC_LEN_def) (simp add: spec_packet_def)
    show "drop n out' = drop n out" "length out' = length out" using len n(2) by (simp_all add: out')
    show "n = length (packet_wire (spec_packet s icrc))" by (simp add: len)
  qed
qed

end
