(* ===== verification/Wire_Ipv4.thy ===== *)
theory Wire_Ipv4
  imports Wire_Opcode Contracts
begin

text \<open>
  The IPv4 and UDP headers of \<open>rocev2-wire/src/ipv4.rs\<close>.  A four-octet address
  array is a tuple.  The checksum adds its 16-bit words in a 32-bit register and
  folds the carries in a loop; \<open>fold_carry\<close> is that loop, with its termination
  proof.  The lemmas characterise the folded sum modulo 65535, which makes every
  encoded header pass the checksum test of the decoder, and establish the header
  contracts of both codecs.
\<close>

section \<open>Model\<close>

definition IPV4_HEADER_LEN :: usize where
  "IPV4_HEADER_LEN = 20"

definition UDP_HEADER_LEN :: usize where
  "UDP_HEADER_LEN = 8"

definition IP_PROTOCOL_UDP :: u8 where
  "IP_PROTOCOL_UDP = 17"

type_synonym ipv4_address = "u8 \<times> u8 \<times> u8 \<times> u8"

record Ipv4Header =
  dscp_ecn :: u8
  total_length :: u16
  identification :: u16
  dont_fragment :: bool
  more_fragments :: bool
  fragment_offset :: u16
  ttl :: u8
  protocol :: u8
  ip_source :: ipv4_address
  ip_destination :: ipv4_address

definition ipv4_udp :: "ipv4_address \<Rightarrow> ipv4_address \<Rightarrow> u16 \<Rightarrow> Ipv4Header" where
  "ipv4_udp src dst len =
     \<lparr>dscp_ecn = 0, total_length = len, identification = 0, dont_fragment = True,
      more_fragments = False, fragment_offset = 0, ttl = 64, protocol = IP_PROTOCOL_UDP,
      ip_source = src, ip_destination = dst\<rparr>"

fun checksum_sum :: "u32 \<Rightarrow> octets \<Rightarrow> u32" where
  "checksum_sum acc (a # b # rest) = checksum_sum (acc + ucast (u16_from_be_bytes a b)) rest"
| "checksum_sum acc [b] = acc + push_bit 8 (ucast b)"
| "checksum_sum acc [] = acc"

lemma unat_high_half: "unat (drop_bit 16 (w :: u32)) = unat w div 65536"
  by (simp add: drop_bit_eq_div unat_div)

lemma fold_decreases:
  assumes "drop_bit 16 (acc :: u32) \<noteq> 0"
  shows "unat ((acc AND 0xffff) + drop_bit 16 acc) = unat acc mod 65536 + unat acc div 65536"
    and "unat ((acc AND 0xffff) + drop_bit 16 acc) < unat acc"
proof -
  have mask: "(0xffff :: u32) = mask 16" by (simp add: mask_numeral)
  have low: "unat (acc AND 0xffff) = unat acc mod 65536"
    unfolding mask take_bit_eq_mask [symmetric] unsigned_take_bit_eq by (simp add: take_bit_eq_mod)
  note high = unat_high_half [of acc]
  have pos: "0 < unat acc div 65536" using assms high by (metis gr0I unat_eq_zero)
  have "unat acc < 2 ^ 32" using unsigned_less [of acc] by simp
  then have "unat acc div 65536 < 65536" by (simp add: less_mult_imp_div_less)
  then show eq: "unat ((acc AND 0xffff) + drop_bit 16 acc) = unat acc mod 65536 + unat acc div 65536"
    by (simp add: unat_word_ariths low high)
  show "unat ((acc AND 0xffff) + drop_bit 16 acc) < unat acc"
    unfolding eq using pos div_mult_mod_eq [of "unat acc" 65536] by linarith
qed

function fold_carry :: "u32 \<Rightarrow> u32" where
  "fold_carry acc =
     (if drop_bit 16 acc \<noteq> 0 then fold_carry ((acc AND 0xffff) + drop_bit 16 acc) else acc)"
  by auto
termination
  by (relation "measure unat") (auto simp only: in_measure intro: fold_decreases(2))

declare fold_carry.simps [simp del]

definition internet_checksum :: "octets \<Rightarrow> u16" where
  "internet_checksum bytes = NOT (ucast (fold_carry (checksum_sum 0 bytes)))"

definition ipv4_decode :: "octets \<Rightarrow> WireError + Ipv4Header" where
  "ipv4_decode input =
     (if length input < IPV4_HEADER_LEN then Inl (BufferTooShort IPV4_HEADER_LEN (length input))
      else if drop_bit 4 (input ! 0) \<noteq> 4 then Inl InvalidIpv4Header
      else if input ! 0 AND 0x0f \<noteq> 5 then Inl UnsupportedIpv4Options
      else if internet_checksum (take IPV4_HEADER_LEN input) \<noteq> 0 then Inl InvalidIpv4Header
      else let flags_fragment = u16_from_be_bytes (input ! 6) (input ! 7)
      in Inr \<lparr>dscp_ecn = input ! 1,
              total_length = u16_from_be_bytes (input ! 2) (input ! 3),
              identification = u16_from_be_bytes (input ! 4) (input ! 5),
              dont_fragment = flags_fragment AND 0x4000 \<noteq> 0,
              more_fragments = flags_fragment AND 0x2000 \<noteq> 0,
              fragment_offset = flags_fragment AND 0x1fff,
              ttl = input ! 8, protocol = input ! 9,
              ip_source = (input ! 12, input ! 13, input ! 14, input ! 15),
              ip_destination = (input ! 16, input ! 17, input ! 18, input ! 19)\<rparr>)"

fun address_bytes :: "ipv4_address \<Rightarrow> octets" where
  "address_bytes (a, b, c, d) = [a, b, c, d]"

definition ipv4_encode :: "Ipv4Header \<Rightarrow> octets \<Rightarrow> WireError + octets" where
  "ipv4_encode h out =
     (if length out < IPV4_HEADER_LEN then Inl (BufferTooShort IPV4_HEADER_LEN (length out))
      else if fragment_offset h > 0x1fff
      then Inl (ValueOutOfRange ''fragment_offset'' (ucast (fragment_offset h)))
      else let out = copy_at 0 (replicate IPV4_HEADER_LEN 0) out;
               out = out[0 := 0x45];
               out = out[1 := dscp_ecn h];
               out = copy_at 2 (u16_to_be_bytes (total_length h)) out;
               out = copy_at 4 (u16_to_be_bytes (identification h)) out;
               flags_fragment = (if dont_fragment h then 0x4000 else 0)
                 OR (if more_fragments h then 0x2000 else 0) OR fragment_offset h;
               out = copy_at 6 (u16_to_be_bytes flags_fragment) out;
               out = out[8 := ttl h];
               out = out[9 := protocol h];
               out = copy_at 12 (address_bytes (ip_source h)) out;
               out = copy_at 16 (address_bytes (ip_destination h)) out;
               checksum = internet_checksum (take IPV4_HEADER_LEN out)
           in Inr (copy_at 10 (u16_to_be_bytes checksum) out))"

record UdpHeader =
  source_port :: u16
  destination_port :: u16
  udp_length :: u16
  udp_checksum :: u16

definition udp_decode :: "octets \<Rightarrow> WireError + UdpHeader" where
  "udp_decode input =
     (if length input < UDP_HEADER_LEN then Inl (BufferTooShort UDP_HEADER_LEN (length input))
      else Inr \<lparr>source_port = u16_from_be_bytes (input ! 0) (input ! 1),
                destination_port = u16_from_be_bytes (input ! 2) (input ! 3),
                udp_length = u16_from_be_bytes (input ! 4) (input ! 5),
                udp_checksum = u16_from_be_bytes (input ! 6) (input ! 7)\<rparr>)"

definition udp_encode :: "UdpHeader \<Rightarrow> octets \<Rightarrow> WireError + octets" where
  "udp_encode h out =
     (if length out < UDP_HEADER_LEN then Inl (BufferTooShort UDP_HEADER_LEN (length out))
      else Inr (copy_at 6 (u16_to_be_bytes (udp_checksum h))
             (copy_at 4 (u16_to_be_bytes (udp_length h))
               (copy_at 2 (u16_to_be_bytes (destination_port h))
                 (copy_at 0 (u16_to_be_bytes (source_port h)) out)))))"

section \<open>The folded sum\<close>

lemma fold_carry_unat:
  "unat (fold_carry acc) = (if unat acc = 0 then 0 else (unat acc - 1) mod 65535 + 1)"
proof (induction acc rule: fold_carry.induct)
  case (1 acc)
  show ?case
  proof (cases "drop_bit 16 acc \<noteq> 0")
    case True
    let ?n = "unat acc" and ?m = "unat ((acc AND 0xffff) + drop_bit 16 acc)"
    have m: "?m = ?n mod 65536 + ?n div 65536" by (rule fold_decreases(1) [OF True])
    have pos: "0 < ?n div 65536" using True unat_high_half [of acc] by (metis gr0I unat_eq_zero)
    then have eq: "?n - 1 = ?m - 1 + 65535 * (?n div 65536)"
      unfolding m using div_mult_mod_eq [of ?n 65536] by linarith
    have "fold_carry acc = fold_carry ((acc AND 0xffff) + drop_bit 16 acc)"
      using True by (simp add: fold_carry.simps [of acc])
    then have "unat (fold_carry acc) = (?m - 1) mod 65535 + 1"
      using 1 [OF True] m pos by simp
    also have "\<dots> = (?n - 1) mod 65535 + 1" unfolding eq by simp
    finally show ?thesis using m pos by (auto simp: div_eq_0_iff)
  next
    case False
    then have eq: "fold_carry acc = acc" by (simp add: fold_carry.simps [of acc])
    have "unat acc < 65536" using False unat_high_half [of acc] by (simp add: div_eq_0_iff)
    then show ?thesis unfolding eq by simp
  qed
qed

section \<open>The checksum of a checksummed header\<close>

text \<open>The sum of the words of a slice without the 32-bit limit.\<close>

fun word_sum :: "octets \<Rightarrow> nat" where
  "word_sum (a # b # rest) = unat (u16_from_be_bytes a b) + word_sum rest"
| "word_sum [b] = 256 * unat b"
| "word_sum [] = 0"

lemma unat_u16_less: "unat (w :: u16) < 65536"
  using unsigned_less [of w, where 'a = nat] by simp

lemma word_sum_bound: "word_sum xs \<le> 65536 * length xs"
proof (induction xs rule: word_sum.induct)
  case (1 a b rest)
  then show ?case using unat_u16_less [of "u16_from_be_bytes a b"] by simp
next
  case (2 b)
  then show ?case using unsigned_less [of b, where 'a = nat] by simp
qed simp

lemma word_sum_append: "even (length xs) \<Longrightarrow> word_sum (xs @ ys) = word_sum xs + word_sum ys"
  by (induction xs rule: word_sum.induct) auto

lemma checksum_sum_unat:
  "unat acc + word_sum xs < 2 ^ 32 \<Longrightarrow> unat (checksum_sum acc xs) = unat acc + word_sum xs"
proof (induction acc xs rule: checksum_sum.induct)
  case (1 acc a b rest)
  let ?w = "u16_from_be_bytes a b"
  have "unat (acc + ucast ?w) = unat acc + unat ?w"
    using 1(2) by (simp add: unat_word_ariths unsigned_ucast_eq take_bit_eq_mod)
  then show ?case using 1 by simp
next
  case (2 acc b)
  have "unat (push_bit 8 (ucast b :: u32)) = 256 * unat b"
    using unsigned_less [of b, where 'a = nat]
    by (simp add: push_bit_eq_mult unat_word_ariths unsigned_ucast_eq take_bit_eq_mod)
  then show ?case using 2 by (simp add: unat_word_ariths)
qed simp

lemma internet_checksum_unat:
  assumes "length xs < 65536"
  shows "unat (internet_checksum xs) = 65535 - (if word_sum xs = 0 then 0 else (word_sum xs - 1) mod 65535 + 1)"
proof -
  have "word_sum xs < 2 ^ 32" using word_sum_bound [of xs] assms by simp
  then have "unat (checksum_sum 0 xs) = word_sum xs" using checksum_sum_unat [of 0 xs] by simp
  then have f: "unat (fold_carry (checksum_sum 0 xs))
      = (if word_sum xs = 0 then 0 else (word_sum xs - 1) mod 65535 + 1)"
    by (simp add: fold_carry_unat)
  have "(word_sum xs - 1) mod 65535 < 65535" by simp
  with f have "unat (ucast (fold_carry (checksum_sum 0 xs)) :: u16)
      = (if word_sum xs = 0 then 0 else (word_sum xs - 1) mod 65535 + 1)"
    by (auto simp: unsigned_ucast_eq take_bit_eq_mod)
  moreover have "unat (NOT w) = 65535 - unat w" for w :: u16
  proof -
    have "NOT w = - 1 - w" by (simp add: not_eq_complement)
    then show ?thesis by (simp only: unat_sub word_n1_ge) (simp add: unsigned_minus_1_eq_mask mask_eq_exp_minus_1)
  qed
  ultimately show ?thesis by (simp add: internet_checksum_def)
qed

lemma checksum_inserted:
  assumes "even (length xs)" "length xs + length ys < 65000"
  shows "internet_checksum (xs @ u16_to_be_bytes (internet_checksum (xs @ [0, 0] @ ys)) @ ys) = 0"
proof -
  define c where "c = internet_checksum (xs @ [0, 0] @ ys)"
  define n where "n = word_sum xs + word_sum ys"
  have zero: "u16_from_be_bytes 0 0 = 0" by (simp add: u16_from_be_bytes_def)
  have c: "unat c = 65535 - (if n = 0 then 0 else (n - 1) mod 65535 + 1)"
    unfolding c_def using assms by (simp add: internet_checksum_unat word_sum_append zero n_def)
  have total: "word_sum (xs @ u16_to_be_bytes c @ ys) = n + unat c"
    using assms(1) by (simp add: word_sum_append u16_to_be_bytes_def u16_be_expand n_def)
  have "n + unat c \<noteq> 0 \<and> (n + unat c - 1) mod 65535 = 65534"
  proof (cases "n = 0")
    case False
    define q r where "q = (n - 1) div 65535" and "r = (n - 1) mod 65535"
    have "unat c = 65535 - (r + 1)" using c False by (simp add: r_def)
    moreover have "r < 65535" "n - 1 = q * 65535 + r" by (simp_all add: q_def r_def)
    ultimately have "n + unat c - 1 = 65534 + q * 65535" using False by linarith
    then show ?thesis using False by simp
  qed (simp add: c)
  then have "unat (internet_checksum (xs @ u16_to_be_bytes c @ ys)) = 0"
    using assms(2) total by (subst internet_checksum_unat) auto
  then show ?thesis unfolding c_def [symmetric] by (simp only: unat_eq_zero)
qed

section \<open>The codecs\<close>

definition ipv4_ok :: "Ipv4Header \<Rightarrow> bool" where
  "ipv4_ok h \<longleftrightarrow> fragment_offset h \<le> 0x1fff"

definition ipv4_flags :: "Ipv4Header \<Rightarrow> u16" where
  "ipv4_flags h = (if dont_fragment h then 0x4000 else 0) OR (if more_fragments h then 0x2000 else 0)
     OR fragment_offset h"

definition ipv4_front :: "Ipv4Header \<Rightarrow> octets" where
  "ipv4_front h = [0x45, dscp_ecn h] @ u16_to_be_bytes (total_length h)
     @ u16_to_be_bytes (identification h) @ u16_to_be_bytes (ipv4_flags h) @ [ttl h, protocol h]"

definition ipv4_addresses :: "Ipv4Header \<Rightarrow> octets" where
  "ipv4_addresses h = address_bytes (ip_source h) @ address_bytes (ip_destination h)"

definition ipv4_wire :: "Ipv4Header \<Rightarrow> octets" where
  "ipv4_wire h = ipv4_front h
     @ u16_to_be_bytes (internet_checksum (ipv4_front h @ [0, 0] @ ipv4_addresses h)) @ ipv4_addresses h"

lemma length_address_bytes [simp]: "length (address_bytes a) = 4"
  by (cases a) simp

lemma length_ipv4_parts [simp]: "length (ipv4_front h) = 10" "length (ipv4_addresses h) = 8"
  by (simp_all add: ipv4_front_def ipv4_addresses_def)

lemma ipv4_wire_checksum: "internet_checksum (ipv4_wire h) = 0"
  unfolding ipv4_wire_def by (rule checksum_inserted) simp_all

lemma flags_fields:
  assumes "ipv4_ok h"
  shows "(ipv4_flags h AND 0x4000 \<noteq> 0) = dont_fragment h" "(ipv4_flags h AND 0x2000 \<noteq> 0) = more_fragments h"
    "ipv4_flags h AND 0x1fff = fragment_offset h"
proof -
  have le: "fragment_offset h \<le> mask 13" using assms by (simp add: ipv4_ok_def mask_eq_exp_minus_1)
  have fs: "fragment_offset h AND 0x4000 = 0" "fragment_offset h AND 0x2000 = 0"
    "fragment_offset h AND 0x1fff = fragment_offset h"
    using le_mask_and_0 [OF le, of "0x4000"] le_mask_and_0 [OF le, of "0x2000"] le_mask_and [OF le]
    by (simp_all add: mask_eq_exp_minus_1)
  show "(ipv4_flags h AND 0x4000 \<noteq> 0) = dont_fragment h"
    "(ipv4_flags h AND 0x2000 \<noteq> 0) = more_fragments h" "ipv4_flags h AND 0x1fff = fragment_offset h"
    by (cases "dont_fragment h"; cases "more_fragments h";
        simp add: ipv4_flags_def bit.conj_disj_distrib2 fs)+
qed

lemma ipv4_decode_wire:
  assumes "ipv4_ok h"
  shows "ipv4_decode (ipv4_wire h @ rest) = Inr h"
proof -
  obtain s0 s1 s2 s3 d0 d1 d2 d3 where addr: "ip_source h = (s0, s1, s2, s3)"
    "ip_destination h = (d0, d1, d2, d3)" by (metis prod_cases4)
  have "length (ipv4_wire h) = 20" by (simp add: ipv4_wire_def)
  then have "take 20 (ipv4_wire h @ rest) = ipv4_wire h" by simp
  then have sum: "internet_checksum (take IPV4_HEADER_LEN (ipv4_wire h @ rest)) = 0"
    by (simp add: IPV4_HEADER_LEN_def ipv4_wire_checksum)
  obtain c0 c1 where wire: "ipv4_wire h = [0x45, dscp_ecn h, ucast (drop_bit 8 (total_length h)),
      ucast (total_length h), ucast (drop_bit 8 (identification h)), ucast (identification h),
      ucast (drop_bit 8 (ipv4_flags h)), ucast (ipv4_flags h), ttl h, protocol h, c0, c1,
      s0, s1, s2, s3, d0, d1, d2, d3]"
    by (simp add: ipv4_wire_def ipv4_front_def ipv4_addresses_def u16_to_be_bytes_def addr)
  show ?thesis
    using sum flags_fields [OF assms] unfolding ipv4_decode_def
    by (simp add: wire IPV4_HEADER_LEN_def Let_def u16_be_expand addr)
qed

lemma ipv4_encode_eq:
  assumes "ipv4_ok h" "IPV4_HEADER_LEN \<le> length out"
  shows "ipv4_encode h out = Inr (ipv4_wire h @ drop IPV4_HEADER_LEN out)"
proof -
  obtain s0 s1 s2 s3 d0 d1 d2 d3 where addr: "ip_source h = (s0, s1, s2, s3)"
    "ip_destination h = (d0, d1, d2, d3)" by (metis prod_cases4)
  have zeros: "copy_at 0 (replicate IPV4_HEADER_LEN 0) out = 0 # 0 # 0 # 0 # 0 # 0 # 0 # 0 # 0 # 0
      # 0 # 0 # 0 # 0 # 0 # 0 # 0 # 0 # 0 # 0 # drop 20 out"
    by (simp add: copy_at_0 IPV4_HEADER_LEN_def eval_nat_numeral)
  have fields: "copy_at 16 (address_bytes (ip_destination h)) (copy_at 12 (address_bytes (ip_source h))
      ((copy_at 6 (u16_to_be_bytes (ipv4_flags h)) (copy_at 4 (u16_to_be_bytes (identification h))
        (copy_at 2 (u16_to_be_bytes (total_length h))
          ((copy_at 0 (replicate IPV4_HEADER_LEN 0) out)[0 := 0x45, 1 := dscp_ecn h]))))
        [8 := ttl h, 9 := protocol h]))
      = (ipv4_front h @ [0, 0] @ ipv4_addresses h) @ drop 20 out"
    unfolding zeros by (simp add: copy_at_def u16_to_be_bytes_def addr ipv4_front_def ipv4_addresses_def)
  show ?thesis
    using assms unfolding ipv4_encode_def ipv4_flags_def [symmetric] Let_def fields
    by (simp add: ipv4_ok_def not_less IPV4_HEADER_LEN_def ipv4_wire_def copy_at_def)
qed

interpretation ipv4: header_encoder ipv4_encode ipv4_decode IPV4_HEADER_LEN ipv4_ok ipv4_wire
proof (unfold_locales, goal_cases)
  case (1 h)
  then show ?case by (simp add: ipv4_wire_def IPV4_HEADER_LEN_def)
next
  case (3 h out)
  then show ?case by (auto simp: ipv4_encode_def ipv4_ok_def Let_def not_le)
qed (use ipv4_encode_eq ipv4_decode_wire in auto)

definition udp_wire :: "UdpHeader \<Rightarrow> octets" where
  "udp_wire h = u16_to_be_bytes (source_port h) @ u16_to_be_bytes (destination_port h)
     @ u16_to_be_bytes (udp_length h) @ u16_to_be_bytes (udp_checksum h)"

lemma length_ge_8:
  assumes "8 \<le> length xs"
  obtains a b c d e f g h rest where "xs = a # b # c # d # e # f # g # h # rest"
  using assms by (auto simp: numeral_eq_Suc Suc_le_length_iff)

interpretation udp: header_codec udp_encode udp_decode UDP_HEADER_LEN "\<lambda>_. True" udp_wire
proof (unfold_locales, goal_cases)
  case (1 h)
  then show ?case by (simp add: udp_wire_def UDP_HEADER_LEN_def)
next
  case (2 h out)
  then show ?case
    by (simp add: udp_encode_def UDP_HEADER_LEN_def copy_at_adjacent udp_wire_def not_less)
      (simp add: copy_at_0)
next
  case (3 h out)
  then show ?case by (auto simp: udp_encode_def not_le)
next
  case (4 h rest)
  then show ?case
    by (simp add: udp_decode_def udp_wire_def UDP_HEADER_LEN_def u16_to_be_bytes_def u16_be_expand)
next
  case (5 input h)
  then have "8 \<le> length input" by (auto simp: udp_decode_def UDP_HEADER_LEN_def not_less split: if_splits)
  then obtain a b c d e f g k rest where "input = a # b # c # d # e # f # g # k # rest"
    by (rule length_ge_8)
  with 5 show ?case
    by (auto simp: udp_decode_def udp_wire_def UDP_HEADER_LEN_def u16_be_bytes_roundtrip')
qed

text \<open>
  C29: Every IPv4 header that encodes is decoded to itself, with a checksum the decoder
  accepts, and encoding writes nothing beyond the twenty octets of the header.
\<close>

theorem ipv4_encode_decodes:
  assumes "ipv4_encode h out = Inr out'"
  shows "ipv4_decode out' = Inr h \<and> internet_checksum (take IPV4_HEADER_LEN out') = 0 \<and>
    length out' = length out \<and> drop IPV4_HEADER_LEN out' = drop IPV4_HEADER_LEN out"
  using assms ipv4.decode_encode [OF assms] ipv4.wire_length [of h]
  by (auto simp: ipv4.enc_ok_iff ipv4_wire_checksum)

theorem ipv4_encode_decodes_witness:
  "ipv4_decode (ipv4_wire (ipv4_udp (192, 0, 2, 1) (198, 51, 100, 2) 40) @ [7])
     = Inr (ipv4_udp (192, 0, 2, 1) (198, 51, 100, 2) 40)"
proof -
  have "ipv4_encode (ipv4_udp (192, 0, 2, 1) (198, 51, 100, 2) 40) (replicate 20 0 @ [7])
      = Inr (ipv4_wire (ipv4_udp (192, 0, 2, 1) (198, 51, 100, 2) 40) @ [7])"
    by (subst ipv4_encode_eq) (simp_all add: ipv4_ok_def ipv4_udp_def IPV4_HEADER_LEN_def)
  from ipv4_encode_decodes [OF this] show ?thesis by simp
qed

end
