(* ===== verification/Api_Packet.thy ===== *)
theory Api_Packet
  imports Api_Base Wire_Packet Wire_Ipv4
begin

text \<open>
  Complete IPv4/UDP/RoCEv2 packets, \<open>rocev2/src/packet.rs\<close>: the decoder every
  received datagram passes and the encoder of every transmitted one.  The encoder
  returns the updated caller buffer with the encoded length.  The lemmas show
  that encoding and decoding agree and that a corrupted packet is not accepted.
\<close>

definition MIN_ROCE_IPV4_PACKET :: usize where
  "MIN_ROCE_IPV4_PACKET = IPV4_HEADER_LEN + UDP_HEADER_LEN + 12 + 4"

record Ipv4Path =
  path_source :: ipv4_address
  path_destination :: ipv4_address
  path_source_port :: u16
  path_ttl :: u8
  path_dscp_ecn :: u8

definition path_new :: "ipv4_address \<Rightarrow> ipv4_address \<Rightarrow> u16 \<Rightarrow> Ipv4Path" where
  "path_new src dst port = \<lparr>path_source = src, path_destination = dst, path_source_port = port,
     path_ttl = 64, path_dscp_ecn = 0\<rparr>"

record DecodedPacket =
  dp_ipv4 :: Ipv4Header
  dp_udp :: UdpHeader
  dp_transport :: PacketRef

definition decode_ipv4_packet :: "octets \<Rightarrow> ApiError + DecodedPacket" where
  "decode_ipv4_packet input =
     (if length input < MIN_ROCE_IPV4_PACKET
      then Inl (BufferTooShort MIN_ROCE_IPV4_PACKET (length input))
      else let ipv4_bytes = take IPV4_HEADER_LEN input in
      and_then (map_err Wire (ipv4_decode ipv4_bytes)) (\<lambda>ipv4.
      if protocol ipv4 \<noteq> IP_PROTOCOL_UDP then Inl (InvalidIpv4Protocol (protocol ipv4))
      else if more_fragments ipv4 \<or> fragment_offset ipv4 \<noteq> 0 then Inl FragmentedIpv4
      else let ipv4_length = unat (total_length ipv4) in
      if ipv4_length \<noteq> length input then Inl (Wire (LengthMismatch ipv4_length (length input)))
      else let udp_start = IPV4_HEADER_LEN;
               transport_start = udp_start + UDP_HEADER_LEN;
               udp_bytes = slice udp_start transport_start input in
      and_then (map_err Wire (udp_decode udp_bytes)) (\<lambda>udp.
      if destination_port udp \<noteq> ROCE_V2_UDP_PORT
      then Inl (InvalidRoceDestinationPort (destination_port udp))
      else and_then (ok_or (usize_checked_sub ipv4_length IPV4_HEADER_LEN) ArithmeticOverflow) (\<lambda>actual_udp_length.
      let declared_udp_length = unat (udp_length udp) in
      if declared_udp_length < UDP_HEADER_LEN \<or> declared_udp_length \<noteq> actual_udp_length
      then Inl (InvalidUdpLength declared_udp_length actual_udp_length)
      else let transport_bytes = slice transport_start ipv4_length input in
      and_then (map_err Wire (packet_parse transport_bytes STRICT)) (\<lambda>transport.
      and_then (map_err Wire (verify_icrc transport transport_bytes ipv4_bytes udp_bytes)) (\<lambda>_.
      Inr \<lparr>dp_ipv4 = ipv4, dp_udp = udp, dp_transport = transport\<rparr>))))))"

definition encode_ipv4_packet :: "Ipv4Path \<Rightarrow> PacketSpec \<Rightarrow> octets \<Rightarrow> ApiError + (octets \<times> usize)" where
  "encode_ipv4_packet path transport out =
     and_then (map_err Wire (encoded_len transport)) (\<lambda>transport_length.
     and_then (ok_or (usize_checked_add UDP_HEADER_LEN transport_length) ArithmeticOverflow) (\<lambda>udp_len.
     and_then (ok_or (usize_checked_add IPV4_HEADER_LEN udp_len) ArithmeticOverflow) (\<lambda>total.
     and_then (ok_or (u16_try_from udp_len) (PacketTooLarge total 65535)) (\<lambda>udp_length_u16.
     and_then (ok_or (u16_try_from total) (PacketTooLarge total 65535)) (\<lambda>total_length_u16.
     if length out < total then Inl (BufferTooShort total (length out))
     else
       let ipv4 = (ipv4_udp (path_source path) (path_destination path) total_length_u16)
             \<lparr>ttl := path_ttl path, dscp_ecn := path_dscp_ecn path\<rparr>;
           udp = \<lparr>source_port = path_source_port path, destination_port = ROCE_V2_UDP_PORT,
             udp_length = udp_length_u16, udp_checksum = 0\<rparr> in
       and_then (map_err Wire (ipv4_encode ipv4 (replicate IPV4_HEADER_LEN 0))) (\<lambda>ipv4_bytes.
       and_then (map_err Wire (udp_encode udp (replicate UDP_HEADER_LEN 0))) (\<lambda>udp_bytes.
       let out = copy_at 0 ipv4_bytes out;
           out = copy_at IPV4_HEADER_LEN udp_bytes out in
       and_then (map_err Wire (encode_with_icrc transport ipv4_bytes udp_bytes
           (slice (IPV4_HEADER_LEN + UDP_HEADER_LEN) total out))) (\<lambda>(part, _).
       Inr (copy_at (IPV4_HEADER_LEN + UDP_HEADER_LEN) part out, total)))))))))"

section \<open>Accepted packets\<close>

definition path_ipv4 :: "Ipv4Path \<Rightarrow> usize \<Rightarrow> Ipv4Header" where
  "path_ipv4 path len = (ipv4_udp (path_source path) (path_destination path) (of_nat len))
     \<lparr>ttl := path_ttl path, dscp_ecn := path_dscp_ecn path\<rparr>"

definition path_udp :: "Ipv4Path \<Rightarrow> usize \<Rightarrow> UdpHeader" where
  "path_udp path len = \<lparr>source_port = path_source_port path, destination_port = ROCE_V2_UDP_PORT,
     udp_length = of_nat len, udp_checksum = 0\<rparr>"

lemma decode_ipv4_packet_iff:
  "decode_ipv4_packet input = Inr d \<longleftrightarrow>
    44 \<le> length input \<and> ipv4_decode (take 20 input) = Inr (dp_ipv4 d) \<and>
    protocol (dp_ipv4 d) = IP_PROTOCOL_UDP \<and> \<not> more_fragments (dp_ipv4 d) \<and> fragment_offset (dp_ipv4 d) = 0 \<and>
    unat (total_length (dp_ipv4 d)) = length input \<and>
    udp_decode (slice 20 28 input) = Inr (dp_udp d) \<and> destination_port (dp_udp d) = ROCE_V2_UDP_PORT \<and>
    unat (udp_length (dp_udp d)) = length input - 20 \<and>
    packet_parse (drop 28 input) STRICT = Inr (dp_transport d) \<and>
    verify_icrc (dp_transport d) (drop 28 input) (take 20 input) (slice 20 28 input) = Inr ()" (is "?l \<longleftrightarrow> ?r")
proof -
  have slice: "slice 28 (length input) input = drop 28 input" by (simp add: slice_def)
  have split: "\<lparr>dp_ipv4 = i, dp_udp = u, dp_transport = t\<rparr> = d \<longleftrightarrow>
      i = dp_ipv4 d \<and> u = dp_udp d \<and> t = dp_transport d" for i u t by auto
  note defs = decode_ipv4_packet_def MIN_ROCE_IPV4_PACKET_def IPV4_HEADER_LEN_def UDP_HEADER_LEN_def Let_def
  show ?thesis
  proof
    show "?l \<Longrightarrow> ?r"
      unfolding defs by (auto simp: result_simps slice usize_checked_sub_def split split: if_splits)
    show "?r \<Longrightarrow> ?l"
      unfolding defs by (simp add: slice usize_checked_sub_def not_less) linarith
  qed
qed


lemma encode_ipv4_packet_eval:
  assumes "encoded_len spec = Inr len" and n: "n = 28 + len" "n < 65536" "n \<le> length out"
  shows "encode_ipv4_packet path spec out =
    and_then (map_err Wire (encode_with_icrc spec (ipv4_wire (path_ipv4 path n)) (udp_wire (path_udp path (n - 20)))
        (slice 28 n out)))
      (\<lambda>(part, _). Inr (copy_at 28 part
        (ipv4_wire (path_ipv4 path n) @ udp_wire (path_udp path (n - 20)) @ drop 28 out), n))"
proof -
  have enc: "ipv4_encode (path_ipv4 path n) (replicate 20 0) = Inr (ipv4_wire (path_ipv4 path n))"
    "udp_encode (path_udp path (n - 20)) (replicate 8 0) = Inr (udp_wire (path_udp path (n - 20)))"
    using ipv4.enc_ok_iff udp.enc_ok_iff
    by (auto simp: IPV4_HEADER_LEN_def UDP_HEADER_LEN_def ipv4_ok_def path_ipv4_def ipv4_udp_def)
  have len: "length (ipv4_wire h) = 20" "length (udp_wire u) = 8" for h u
    using ipv4.wire_length udp.wire_length by (simp_all add: IPV4_HEADER_LEN_def UDP_HEADER_LEN_def)
  have buf: "copy_at 20 (udp_wire u) (copy_at 0 (ipv4_wire h) out) = ipv4_wire h @ udp_wire u @ drop 28 out" for h u
    by (simp add: copy_at_def len)
  have "slice 28 n (ipv4_wire h @ udp_wire u @ drop 28 out) = slice 28 n out" for h u
    by (simp add: slice_def len)
  then show ?thesis
    using assms enc
    unfolding encode_ipv4_packet_def Let_def UDP_HEADER_LEN_def IPV4_HEADER_LEN_def path_ipv4_def path_udp_def
    by (simp add: usize_checked_add_def usize_max_def u16_try_from_def buf)
qed

lemma encode_ipv4_packet_cases:
  assumes "encode_ipv4_packet path spec out = Inr (out', n)"
  obtains icrc where "spec_ok spec" "n = length (spec_body spec) + 32" "n < 65536" "n \<le> length out"
    "compute_ipv4 (ipv4_wire (path_ipv4 path n)) (udp_wire (path_udp path (n - 20))) (spec_body spec) = Inr icrc"
    "out' = ipv4_wire (path_ipv4 path n) @ udp_wire (path_udp path (n - 20)) @ packet_wire (spec_packet spec icrc)
       @ drop n out"
proof -
  obtain len where len: "encoded_len spec = Inr len" using assms by (auto simp: encode_ipv4_packet_def result_simps)
  have n: "n = 28 + len" "n < 65536" "n \<le> length out"
    using assms len unfolding encode_ipv4_packet_def UDP_HEADER_LEN_def IPV4_HEADER_LEN_def
    by (auto simp: result_simps usize_checked_add_def u16_try_from_def Let_def split: if_splits)
  let ?ip = "ipv4_wire (path_ipv4 path n)" and ?udp = "udp_wire (path_udp path (n - 20))"
  obtain part m where enc: "encode_with_icrc spec ?ip ?udp (slice 28 n out) = Inr (part, m)"
    and out': "out' = copy_at 28 part (?ip @ ?udp @ drop 28 out)"
    using assms unfolding encode_ipv4_packet_eval [OF len n] by (auto simp: result_simps)
  obtain icrc where ok: "spec_ok spec" and m: "m = length (spec_body spec) + 4"
    and icrc: "compute_ipv4 ?ip ?udp (spec_body spec) = Inr icrc"
    and part: "part = packet_wire (spec_packet spec icrc) @ drop m (slice 28 n out)" "m \<le> n - 28"
    using enc n(3) unfolding encode_with_icrc_iff by auto
  have "validate_headers spec = Inr ()"
    using ok by (auto simp: validate_headers_iff spec_ok_def headers_match_def)
  from encoded_len_eq [OF this] have lenm: "len = m" using len m by (simp split: if_splits)
  have lens: "length ?ip = 20" "length ?udp = 8" "length (packet_wire (spec_packet spec icrc)) = m"
    using ipv4.wire_length udp.wire_length m
    by (simp_all add: IPV4_HEADER_LEN_def UDP_HEADER_LEN_def packet_wire_spec)
  have "part = packet_wire (spec_packet spec icrc)" using part(1) n lenm by simp
  then have "out' = ?ip @ ?udp @ packet_wire (spec_packet spec icrc) @ drop n out"
    using n(1) lenm lens by (simp add: out' copy_at_def add.commute)
  then show thesis using that [OF ok _ n(2,3) icrc] n(1) lenm m by simp
qed

lemma path_fields:
  assumes "n < 65536"
  shows "protocol (path_ipv4 path n) = IP_PROTOCOL_UDP" "\<not> more_fragments (path_ipv4 path n)"
    "fragment_offset (path_ipv4 path n) = 0" "ipv4_ok (path_ipv4 path n)"
    "destination_port (path_udp path m) = ROCE_V2_UDP_PORT"
    "unat (total_length (path_ipv4 path n)) = n" "unat (udp_length (path_udp path (n - 20))) = n - 20"
  using assms by (simp_all add: path_ipv4_def path_udp_def ipv4_udp_def ipv4_ok_def unat_of_nat)

lemma spec_packet_icrc [simp]: "pr_icrc (spec_packet s icrc) = icrc"
  by (simp add: spec_packet_def)

lemma encode_decodes:
  assumes "encode_ipv4_packet path spec out = Inr (out', n)"
  shows "\<exists>icrc. decode_ipv4_packet (take n out') =
      Inr \<lparr>dp_ipv4 = path_ipv4 path n, dp_udp = path_udp path (n - 20), dp_transport = spec_packet spec icrc\<rparr> \<and>
    length out' = length out \<and> drop n out' = drop n out"
proof -
  obtain icrc where ok: "spec_ok spec" and n: "n = length (spec_body spec) + 32" "n < 65536" "n \<le> length out"
    and icrc: "compute_ipv4 (ipv4_wire (path_ipv4 path n)) (udp_wire (path_udp path (n - 20))) (spec_body spec) = Inr icrc"
    and out': "out' = ipv4_wire (path_ipv4 path n) @ udp_wire (path_udp path (n - 20))
      @ packet_wire (spec_packet spec icrc) @ drop n out"
    by (rule encode_ipv4_packet_cases [OF assms])
  let ?ip = "ipv4_wire (path_ipv4 path n)" and ?udp = "udp_wire (path_udp path (n - 20))"
  let ?tr = "packet_wire (spec_packet spec icrc)"
  have lens: "length ?ip = 20" "length ?udp = 8" "length ?tr = length (spec_body spec) + 4"
    using ipv4.wire_length udp.wire_length
    by (simp_all add: IPV4_HEADER_LEN_def UDP_HEADER_LEN_def packet_wire_spec)
  have parts: "take n out' = ?ip @ ?udp @ ?tr" "length out' = length out" "drop n out' = drop n out"
    using n lens by (simp_all add: out')
  have body: "take (length ?tr - 4) ?tr = spec_body spec" by (simp add: packet_wire_spec)
  have min: "12 \<le> length (spec_body spec)" by (simp add: spec_body_def)
  have total: "length (?ip @ ?udp @ ?tr) = n" using n(1) lens by simp
  have cuts: "take 20 (?ip @ ?udp @ ?tr) = ?ip" "slice 20 28 (?ip @ ?udp @ ?tr) = ?udp"
    "drop 28 (?ip @ ?udp @ ?tr) = ?tr" using lens by (simp_all add: slice_def)
  have dec: "ipv4_decode ?ip = Inr (path_ipv4 path n)" "udp_decode ?udp = Inr (path_udp path (n - 20))"
    "packet_parse ?tr STRICT = Inr (spec_packet spec icrc)"
    using ipv4.dec_wire [of "path_ipv4 path n" "[]"] udp.dec_wire [of "path_udp path (n - 20)" "[]"]
      parse_complete [of STRICT "spec_packet spec icrc"] spec_packet_ok [of spec icrc] ok path_fields(4) [OF n(2)]
    by simp_all
  have "verify_icrc (spec_packet spec icrc) ?tr ?ip ?udp = Inr ()"
    using icrc body lens(3) by (simp add: verify_icrc_def ICRC_LEN_def)
  then have "decode_ipv4_packet (?ip @ ?udp @ ?tr) =
      Inr \<lparr>dp_ipv4 = path_ipv4 path n, dp_udp = path_udp path (n - 20), dp_transport = spec_packet spec icrc\<rparr>"
    unfolding decode_ipv4_packet_iff total cuts using dec path_fields [OF n(2), of path] n(1) min by simp
  then show ?thesis using parts by auto
qed


lemma encode_ipv4_packet_ok:
  assumes "spec_ok spec" "length (spec_body spec) + 32 < 65536" "length (spec_body spec) + 32 \<le> length out"
  shows "\<exists>out'. encode_ipv4_packet path spec out = Inr (out', length (spec_body spec) + 32)"
proof -
  define n where "n = 28 + (length (spec_body spec) + 4)"
  let ?ip = "ipv4_wire (path_ipv4 path n)" and ?udp = "udp_wire (path_udp path (n - 20))"
  have "validate_headers spec = Inr ()"
    using assms(1) by (auto simp: validate_headers_iff spec_ok_def headers_match_def)
  from encoded_len_eq [OF this] have len: "encoded_len spec = Inr (length (spec_body spec) + 4)"
    using assms(2) by (simp add: usize_max_def)
  have lens: "length ?ip = 20" "length ?udp = 8" "12 \<le> length (spec_body spec)"
    using ipv4.wire_length udp.wire_length by (simp_all add: IPV4_HEADER_LEN_def UDP_HEADER_LEN_def spec_body_def)
  have "?ip ! 0 = 0x45" by (simp add: ipv4_wire_def ipv4_front_def)
  then obtain icrc where "compute_ipv4 ?ip ?udp (spec_body spec) = Inr icrc"
    using lens by (simp add: compute_ipv4_cases BTH_LEN_def)
  then have "\<exists>part. encode_with_icrc spec ?ip ?udp (slice 28 n out) = Inr (part, length (spec_body spec) + 4)"
    using assms unfolding encode_with_icrc_iff by (simp add: n_def usize_max_def)
  then obtain part where "encode_with_icrc spec ?ip ?udp (slice 28 n out) = Inr (part, length (spec_body spec) + 4)"
    by blast
  then have "encode_ipv4_packet path spec out = Inr (copy_at 28 part (?ip @ ?udp @ drop 28 out), n)"
    using encode_ipv4_packet_eval [OF len n_def, of out path] assms by (simp add: n_def)
  then show ?thesis by (auto simp: n_def)
qed

text \<open>
  C34: Complete packets.  Encoding succeeds exactly for a specification whose headers match
  its opcode and whose packet fits 65535 octets and the buffer.  Whatever the encoder writes
  the decoder accepts, lengths, checksums and ICRC included, and returns the addresses, port,
  TTL and DSCP/ECN octet of the path and the headers and payload that were asked for; octets
  of the buffer after the packet are left alone.
\<close>

theorem packet_encode_decodes:
  "is_ok (encode_ipv4_packet path spec out) =
     (spec_ok spec \<and> length (spec_body spec) + 32 < 65536 \<and> length (spec_body spec) + 32 \<le> length out) \<and>
   (\<forall>out' n. encode_ipv4_packet path spec out = Inr (out', n) \<longrightarrow>
      (\<exists>icrc. decode_ipv4_packet (take n out') =
        Inr \<lparr>dp_ipv4 = path_ipv4 path n, dp_udp = path_udp path (n - 20), dp_transport = spec_packet spec icrc\<rparr>) \<and>
      length out' = length out \<and> drop n out' = drop n out)"
proof -
  have "spec_ok spec \<and> length (spec_body spec) + 32 < 65536 \<and> length (spec_body spec) + 32 \<le> length out"
    if "encode_ipv4_packet path spec out = Inr (out', n)" for out' n
    by (rule encode_ipv4_packet_cases [OF that]) auto
  then show ?thesis
    using encode_ipv4_packet_ok [of spec out path] encode_decodes [of path spec out] by (auto simp: is_ok_iff)
qed

definition sample_path :: Ipv4Path where
  "sample_path = path_new (192, 0, 2, 1) (198, 51, 100, 2) 49152"

definition sample_spec :: PacketSpec where
  "sample_spec = \<lparr>ps_bth = bth_new SendOnly 17 5, ps_reth = None, ps_aeth = None, ps_immediate = None,
     ps_payload = [1, 2, 3, 4]\<rparr>"

lemma sample_spec_ok: "spec_ok sample_spec" "length (spec_body sample_spec) = 16"
  by (simp_all add: spec_ok_def sample_spec_def bth_new_def bth_ok_def headers_match_def spec_body_def
      has_reth_def has_aeth_def has_immediate_def allows_payload_def QPN_MASK_def WIRE_PSN_MASK_def spec_pad_mod)

lemma packet_encode_decodes_witness:
  "\<exists>out' icrc. encode_ipv4_packet sample_path sample_spec (replicate 60 0) = Inr (out', 48) \<and>
     decode_ipv4_packet (take 48 out') = Inr \<lparr>dp_ipv4 = path_ipv4 sample_path 48,
       dp_udp = path_udp sample_path 28, dp_transport = spec_packet sample_spec icrc\<rparr> \<and> drop 48 out' = replicate 12 0"
proof -
  have "length (spec_body sample_spec) + 32 < 65536" "length (spec_body sample_spec) + 32 \<le> length (replicate 60 (0 :: u8))"
    by (simp_all add: sample_spec_ok)
  from encode_ipv4_packet_ok [OF sample_spec_ok(1) this, of sample_path]
  obtain out' where "encode_ipv4_packet sample_path sample_spec (replicate 60 0) = Inr (out', 48)"
    by (auto simp: sample_spec_ok)
  moreover from this packet_encode_decodes [of sample_path sample_spec "replicate 60 0"]
  have "\<exists>icrc. decode_ipv4_packet (take 48 out') = Inr \<lparr>dp_ipv4 = path_ipv4 sample_path 48,
       dp_udp = path_udp sample_path (48 - 20), dp_transport = spec_packet sample_spec icrc\<rparr>"
    "drop 48 out' = drop 48 (replicate 60 0)" by blast+
  ultimately show ?thesis by simp
qed

section \<open>Corrupted packets\<close>

text \<open>
  C35: A packet damaged in transit is not delivered.  If the decoder accepts a packet, then it
  rejects every packet obtained by changing up to four consecutive octets between the BTH
  and the ICRC.
\<close>

theorem corrupted_packet_rejected:
  assumes "decode_ipv4_packet (pre @ burst @ post) = Inr d"
    and "40 \<le> length pre" "4 \<le> length post" "length burst' = length burst" "length burst \<le> 4" "burst' \<noteq> burst"
  shows "\<exists>e. decode_ipv4_packet (pre @ burst' @ post) = Inl e"
proof (rule ccontr)
  assume "\<nexists>e. decode_ipv4_packet (pre @ burst' @ post) = Inl e"
  then obtain d' where d': "decode_ipv4_packet (pre @ burst' @ post) = Inr d'" by (metis sum.exhaust)
  let ?tr = "\<lambda>b. drop 28 pre @ b @ post" and ?body = "\<lambda>b. drop 28 pre @ b @ take (length post - 4) post"
  let ?ip = "take 20 pre" and ?udp = "slice 20 28 pre"
  have cuts: "take 20 (pre @ zs) = ?ip" "slice 20 28 (pre @ zs) = ?udp" "drop 28 (pre @ zs) = drop 28 pre @ zs" for zs
    using assms(2) by (simp_all add: slice_def)
  have crc: "compute_ipv4 ?ip ?udp (?body b) = Inr (pr_icrc (dp_transport x)) \<and>
      u32_to_le_bytes (pr_icrc (dp_transport x)) = drop (length post - 4) post"
    if "decode_ipv4_packet (pre @ b @ post) = Inr x" "length b = length burst" for b x
  proof -
    have v: "verify_icrc (dp_transport x) (?tr b) ?ip ?udp = Inr ()" "packet_parse (?tr b) STRICT = Inr (dp_transport x)"
      using that(1) unfolding decode_ipv4_packet_iff cuts by simp_all
    have "take (length (?tr b) - 4) (?tr b) = ?body b" using assms(3) by simp
    then have "compute_ipv4 ?ip ?udp (?body b) = Inr (pr_icrc (dp_transport x))"
      using v(1) assms(3) by (auto simp: verify_icrc_def ICRC_LEN_def result_simps split: if_splits)
    moreover have "?tr b = packet_wire (dp_transport x)" using parse_sound [OF v(2)] by blast
    then have "drop (length (?tr b) - 4) (?tr b) = u32_to_le_bytes (pr_icrc (dp_transport x))"
      by (simp add: packet_wire_def)
    ultimately show ?thesis using assms(3) by simp
  qed
  have "u32_to_le_bytes (pr_icrc (dp_transport d')) = u32_to_le_bytes (pr_icrc (dp_transport d))"
    using crc [OF assms(1)] crc [OF d'] assms(4) by simp
  then have "pr_icrc (dp_transport d') = pr_icrc (dp_transport d)" by (metis le_expand)
  moreover have "pr_icrc (dp_transport d') \<noteq> pr_icrc (dp_transport d)"
    using compute_ipv4_burst [OF conjunct1 [OF crc [OF assms(1) refl]] conjunct1 [OF crc [OF d' assms(4)]]] assms
    by (simp add: BTH_LEN_def)
  ultimately show False by simp
qed


lemma corrupted_packet_rejected_witness:
  "\<exists>input d e. decode_ipv4_packet input = Inr d \<and> length input = 48 \<and>
     decode_ipv4_packet (input[40 := input ! 40 + 1]) = Inl e"
proof -
  have "length (spec_body sample_spec) + 32 < 65536" "length (spec_body sample_spec) + 32 \<le> length (replicate 60 (0 :: u8))"
    by (simp_all add: sample_spec_ok)
  from encode_ipv4_packet_ok [OF sample_spec_ok(1) this, of sample_path]
  obtain out' where "encode_ipv4_packet sample_path sample_spec (replicate 60 0) = Inr (out', 48)"
    by (auto simp: sample_spec_ok)
  from encode_decodes [OF this] obtain d where d: "decode_ipv4_packet (take 48 out') = Inr d" "length out' = 60"
    by auto
  define input where "input = take 48 out'"
  have len: "length input = 48" using d(2) by (simp add: input_def)
  have split: "input = take 40 input @ [input ! 40] @ drop 41 input"
    "input[40 := input ! 40 + 1] = take 40 input @ [input ! 40 + 1] @ drop 41 input"
    using len id_take_nth_drop [of 40 input] by (simp_all add: upd_conv_take_nth_drop)
  have "\<exists>e. decode_ipv4_packet (take 40 input @ [input ! 40 + 1] @ drop 41 input) = Inl e"
    using corrupted_packet_rejected [of "take 40 input" "[input ! 40]" "drop 41 input" d "[input ! 40 + 1]"]
      d(1) split(1) len by (simp add: input_def)
  then show ?thesis using d(1) len split(2) unfolding input_def by metis
qed

end
