(* ===== verification/Rc_Base.thy ===== *)
theory Rc_Base
  imports Core_Ack Core_Ring Core_Retry Core_Ready Core_Timer Mem_Lease Api_Packet
begin

text \<open>
  Data of the Reliable Connected engine, \<open>rocev2/src/rc.rs\<close>: configuration, counters,
  the requester's active request, the responder's inbound message and read state, one
  queue pair (\<open>RcQpSlot\<close>) and the packet arithmetic shared by requester and responder.
  The const generics \<open>SQ\<close>, \<open>RQ\<close> and \<open>CQ\<close> are the capacities of the three rings.
  A region lease is the linear token of \<open>Mem_Registry\<close>; the process memory behind the
  registry is the explicit store \<open>memory\<close>.
\<close>

section \<open>Configuration and counters\<close>

definition MAX_MTU_BYTES :: usize where "MAX_MTU_BYTES = 4096"
definition MAX_RNR_TIMER :: u8 where "MAX_RNR_TIMER = 31"
definition MAX_BATCH_PACKETS :: usize where "MAX_BATCH_PACKETS = 64"

record RcEndpointConfig =
  maximum_packet_size :: usize
  ticks_per_second :: u64
  memory_key_seed :: u32

record RcQpConfig =
  transport :: QpConfig
  qc_path :: Ipv4Path
  qc_rnr_nak_timer :: u8

record RcEndpointStats =
  st_receive_packets :: u64
  st_receive_bytes :: u64
  st_transmit_packets :: u64
  st_transmit_bytes :: u64
  st_invalid_packets :: u64
  st_dropped_packets :: u64
  st_unknown_qp_packets :: u64
  st_peer_mismatch_packets :: u64
  st_qp_not_ready_packets :: u64
  st_io_errors :: u64
  st_posted_work_requests :: u64
  st_posted_receive_requests :: u64
  st_completions :: u64
  st_acknowledgements :: u64
  st_negative_acknowledgements :: u64
  st_rnr_naks :: u64
  st_retransmissions :: u64
  st_timeout_events :: u64
  st_sequence_errors :: u64
  st_duplicate_requests :: u64

definition stats_default :: RcEndpointStats where
  "stats_default = \<lparr>st_receive_packets = 0, st_receive_bytes = 0, st_transmit_packets = 0,
     st_transmit_bytes = 0, st_invalid_packets = 0, st_dropped_packets = 0, st_unknown_qp_packets = 0,
     st_peer_mismatch_packets = 0, st_qp_not_ready_packets = 0, st_io_errors = 0,
     st_posted_work_requests = 0, st_posted_receive_requests = 0, st_completions = 0,
     st_acknowledgements = 0, st_negative_acknowledgements = 0, st_rnr_naks = 0,
     st_retransmissions = 0, st_timeout_events = 0, st_sequence_errors = 0, st_duplicate_requests = 0\<rparr>"

text \<open>\<open>counter.saturating_add(n)\<close>, with a \<open>usize\<close> amount clamped to 64 bits.\<close>

definition bump :: "u64 \<Rightarrow> u64" where
  "bump n = u64_saturating_add n 1"

definition bump_by :: "usize \<Rightarrow> u64 \<Rightarrow> u64" where
  "bump_by k n = u64_saturating_add n (case u64_try_from k of Some w \<Rightarrow> w | None \<Rightarrow> - 1)"

section \<open>Requests and messages\<close>

datatype RequestPhase = Sending | Waiting | RnrWait

datatype RequestPacketError = PacketOverflow | LocalProtection

record ActiveRequest =
  ar_work :: WorkRequest
  first_psn :: psn
  last_psn :: psn
  packet_count_of :: u32
  next_packet :: u32
  transmitted_packets :: u32
  read_packets_received :: u32
  bytes_received :: u32
  retry_budget :: RetryBudget
  ar_timer :: Timer
  phase :: RequestPhase

definition reset_for_retry :: "ActiveRequest \<Rightarrow> ActiveRequest" where
  "reset_for_retry a = a\<lparr>next_packet := 0, read_packets_received := 0, bytes_received := 0,
     phase := Sending, ar_timer := timer_cancel (ar_timer a)\<rparr>"

fun kind_opcode :: "WorkRequestKind \<Rightarrow> CompletionOpcode" where
  "kind_opcode WrSend = CqSend"
| "kind_opcode (WrRdmaWrite _ _) = CqRdmaWrite"
| "kind_opcode (WrRdmaRead _ _) = CqRdmaRead"

definition completion_opcode :: "ActiveRequest \<Rightarrow> CompletionOpcode" where
  "completion_opcode a = kind_opcode (wr_kind (ar_work a))"

datatype InboundMessage =
    InboundSend (in_work: RecvWorkRequest) (in_bytes: u32)
  | InboundWrite (in_address: u64) (in_rkey: u32) (in_total: u32) (in_written: u32)

record ReadResponseState =
  rr_request_psn :: psn
  rr_address :: u64
  rr_rkey :: u32
  rr_length :: u32
  rr_packet_count :: u32
  rr_next_packet :: u32

record 'w PostedWork =
  posted_work :: 'w
  posted_lease :: "RegionLease option"

record RcQpSlot =
  qs_generation :: u32
  machine :: QpStateMachine
  qs_path :: Ipv4Path
  qs_rnr_nak_timer :: u8
  send_window :: SendWindow
  qs_receive_psn :: ReceivePsn
  send_queue :: "WorkRequest PostedWork Ring"
  receive_queue :: "RecvWorkRequest PostedWork Ring"
  completion_queue :: "Completion Ring"
  completion_reservations :: usize
  active_request :: "ActiveRequest option"
  active_memory :: "RegionLease option"
  inbound_memory :: "RegionLease option"
  read_memory :: "RegionLease option"
  inbound_message :: "InboundMessage option"
  read_response :: "ReadResponseState option"
  read_replay :: "ReadResponseState option"
  message_sequence_number :: psn
  requester_scheduled :: bool
  responder_scheduled :: bool
  timer_sequence :: u32

record ControlReply =
  cr_path :: Ipv4Path
  cr_destination_qpn :: u32
  cr_psn :: psn
  cr_aeth :: Aeth

record HandlerResult =
  hr_reply :: "ControlReply option"
  hr_completions :: usize
  hr_retransmissions :: usize

definition handler_default :: HandlerResult where
  "handler_default = \<lparr>hr_reply = None, hr_completions = 0, hr_retransmissions = 0\<rparr>"

definition slot_new :: "usize \<Rightarrow> usize \<Rightarrow> usize \<Rightarrow> u32 \<Rightarrow> RcQpConfig \<Rightarrow> ApiError + RcQpSlot" where
  "slot_new sq rq cq gen config =
     and_then (map_err QpState (qp_new (transport config))) (\<lambda>m. Inr
       \<lparr>qs_generation = gen, machine = m, qs_path = qc_path config,
        qs_rnr_nak_timer = qc_rnr_nak_timer config,
        send_window = send_window_new (send_psn (transport config)),
        qs_receive_psn = receive_psn_new (receive_psn (transport config)),
        send_queue = ring_new sq, receive_queue = ring_new rq, completion_queue = ring_new cq,
        completion_reservations = 0, active_request = None, active_memory = None,
        inbound_memory = None, read_memory = None, inbound_message = None, read_response = None,
        read_replay = None, message_sequence_number = psn_zero, requester_scheduled = False,
        responder_scheduled = False, timer_sequence = 0\<rparr>)"

definition slot_config :: "RcQpSlot \<Rightarrow> RcQpConfig" where
  "slot_config s = \<lparr>transport = qp_config (machine s), qc_path = qs_path s, qc_rnr_nak_timer = qs_rnr_nak_timer s\<rparr>"

section \<open>Packet arithmetic\<close>

datatype TransferDirection = Dir_Send | Dir_Write | Dir_ReadResponse

definition maximum_packet_for_mtu :: "usize \<Rightarrow> ApiError + usize" where
  "maximum_packet_for_mtu mtu =
     ok_or (Option.bind (usize_checked_add IPV4_HEADER_LEN UDP_HEADER_LEN) (\<lambda>v.
       Option.bind (usize_checked_add v BTH_LEN) (\<lambda>v.
       Option.bind (usize_checked_add v (max RETH_LEN AETH_LEN)) (\<lambda>v.
       Option.bind (usize_checked_add v mtu) (\<lambda>v.
       Option.bind (usize_checked_add v 3) (\<lambda>v. usize_checked_add v ICRC_LEN))))))
       ArithmeticOverflow"

definition packet_count :: "u32 \<Rightarrow> usize \<Rightarrow> u32" where
  "packet_count len mtu =
     (if len = 0 then 1
      else let mtu = (case u64_try_from mtu of Some w \<Rightarrow> unat w | None \<Rightarrow> 2 ^ 64 - 1)
           in (case u32_try_from (div_ceil (unat len) mtu) of Some n \<Rightarrow> n | None \<Rightarrow> - 1))"

definition next_timer_sequence :: "u32 \<Rightarrow> u32" where
  "next_timer_sequence sequence = (let next = sequence + 1 in if next = 0 then 1 else next)"

definition segment_bounds :: "u32 \<Rightarrow> usize \<Rightarrow> u32 \<Rightarrow> (usize \<times> usize) option" where
  "segment_bounds len mtu index =
     (let whole = unat len in
      if whole = 0 then if index = 0 then Some (0, 0) else None
      else let offset = unat index * mtu in
      if offset > usize_max then None
      else if offset \<ge> whole then None
      else Some (offset, min (whole - offset) mtu))"

definition read_response_segment :: "ReadResponseState \<Rightarrow> usize \<Rightarrow> ApiError + (u64 \<times> usize)" where
  "read_response_segment response mtu =
     and_then (ok_or (segment_bounds (rr_length response) mtu (rr_next_packet response)) ArithmeticOverflow)
       (\<lambda>(offset, payload_length).
     and_then (ok_or (u64_try_from offset) ArithmeticOverflow) (\<lambda>offset.
     and_then (ok_or (u64_checked_add (rr_address response) offset) ArithmeticOverflow) (\<lambda>address.
     Inr (address, payload_length))))"

fun segmented_opcode :: "TransferDirection \<Rightarrow> u32 \<Rightarrow> u32 \<Rightarrow> Opcode" where
  "segmented_opcode direction index n =
     (case (direction, index = 0, index + 1 = n) of
        (Dir_Send, True, True) \<Rightarrow> SendOnly
      | (Dir_Send, True, False) \<Rightarrow> SendFirst
      | (Dir_Send, False, True) \<Rightarrow> SendLast
      | (Dir_Send, False, False) \<Rightarrow> SendMiddle
      | (Dir_Write, True, True) \<Rightarrow> RdmaWriteOnly
      | (Dir_Write, True, False) \<Rightarrow> RdmaWriteFirst
      | (Dir_Write, False, True) \<Rightarrow> RdmaWriteLast
      | (Dir_Write, False, False) \<Rightarrow> RdmaWriteMiddle
      | (Dir_ReadResponse, True, True) \<Rightarrow> RdmaReadResponseOnly
      | (Dir_ReadResponse, True, False) \<Rightarrow> RdmaReadResponseFirst
      | (Dir_ReadResponse, False, True) \<Rightarrow> RdmaReadResponseLast
      | (Dir_ReadResponse, False, False) \<Rightarrow> RdmaReadResponseMiddle)"

end
