(* ===== verification/Api_Connection.thy ===== *)
theory Api_Connection
  imports Rc_Base
begin

text \<open>
  The out-of-band connection record, \<open>rocev2/src/connection.rs\<close>: validation, the fixed
  64-octet encoding and the queue-pair configuration built from two peers' records.
  The lemmas show that the encoding is a bijection between valid records and accepted
  inputs and that two peers configure mirror images of one connection.
\<close>

section \<open>Model\<close>

definition RC_CONNECTION_INFO_LEN :: usize where
  "RC_CONNECTION_INFO_LEN = 64"

type_synonym mac_address = "u8 \<times> u8 \<times> u8 \<times> u8 \<times> u8 \<times> u8"

fun mac_bytes :: "mac_address \<Rightarrow> octets" where
  "mac_bytes (a, b, c, d, e, f) = [a, b, c, d, e, f]"

record RcConnectionInfo =
  ci_ipv4 :: ipv4_address
  ci_mac :: mac_address
  ci_qpn :: u32
  ci_psn :: u32
  ci_mtu :: u16
  ci_rkey :: u32
  ci_remote_address :: u64
  ci_remote_length :: u64
  ci_retry_count :: u8
  ci_rnr_retry_count :: u8
  ci_timeout :: u8
  ci_max_rd_atomic :: u8
  ci_max_dest_rd_atomic :: u8
  ci_rnr_nak_timer :: u8
  ci_udp_source_port :: u16

datatype ConnectionInfoError = Length | Version | Reserved | Field string

definition info_validate :: "RcConnectionInfo \<Rightarrow> ConnectionInfoError + unit" where
  "info_validate i =
     (if fst (ci_ipv4 i) = 0 \<or> fst (ci_ipv4 i) \<ge> 224 then Inl (Field ''ipv4'')
      else if \<not> (2 \<le> ci_qpn i \<and> ci_qpn i \<le> 0x00ffffff) then Inl (Field ''qpn'')
      else if ci_psn i > 0x00ffffff then Inl (Field ''psn'')
      else if mtu_from_bytes (unat (ci_mtu i)) = None then Inl (Field ''mtu'')
      else if u64_checked_add (ci_remote_address i) (ci_remote_length i) = None
      then Inl (Field ''remote range'')
      else if ci_retry_count i > 7 \<or> ci_rnr_retry_count i > 7 \<or> ci_timeout i > 31 \<or> ci_rnr_nak_timer i > 31
      then Inl (Field ''retry policy'')
      else if ci_max_rd_atomic i \<noteq> 1 \<or> ci_max_dest_rd_atomic i \<noteq> 1 then Inl (Field ''READ depth'')
      else if ci_udp_source_port i < 49152 then Inl (Field ''UDP source port'')
      else Inr ())"

definition RCV2 :: octets where
  "RCV2 = [0x52, 0x43, 0x56, 0x32]"

definition info_encode :: "RcConnectionInfo \<Rightarrow> ConnectionInfoError + octets" where
  "info_encode i =
     and_then (info_validate i) (\<lambda>_.
     let out = replicate RC_CONNECTION_INFO_LEN 0;
         out = copy_at 0 RCV2 out;
         out = copy_at 4 (u16_to_be_bytes 1) out;
         out = copy_at 6 (u16_to_be_bytes 64) out;
         out = copy_at 8 (address_bytes (ci_ipv4 i)) out;
         out = copy_at 12 (mac_bytes (ci_mac i)) out;
         out = copy_at 18 (u16_to_be_bytes (ci_mtu i)) out;
         out = copy_at 20 (u32_to_be_bytes (ci_qpn i)) out;
         out = copy_at 24 (u32_to_be_bytes (ci_psn i)) out;
         out = copy_at 28 (u32_to_be_bytes (ci_rkey i)) out;
         out = copy_at 32 (u64_to_be_bytes (ci_remote_address i)) out;
         out = copy_at 40 (u64_to_be_bytes (ci_remote_length i)) out;
         out = copy_at 48 [ci_retry_count i, ci_rnr_retry_count i, ci_timeout i, ci_max_rd_atomic i,
           ci_max_dest_rd_atomic i, ci_rnr_nak_timer i] out;
         out = copy_at 54 (u16_to_be_bytes (ci_udp_source_port i)) out
     in Inr out)"

definition info_decode :: "octets \<Rightarrow> ConnectionInfoError + RcConnectionInfo" where
  "info_decode bytes =
     (if length bytes \<noteq> RC_CONNECTION_INFO_LEN then Inl Length
      else if take 4 bytes \<noteq> RCV2 \<or> slice 4 6 bytes \<noteq> [0, 1] then Inl Version
      else if slice 6 8 bytes \<noteq> [0, 64] then Inl Length
      else if list_ex (\<lambda>byte. byte \<noteq> 0) (drop 56 bytes) then Inl Reserved
      else
        let word = (\<lambda>offset. u32_from_be_bytes (bytes ! offset) (bytes ! (offset + 1))
              (bytes ! (offset + 2)) (bytes ! (offset + 3)));
            wide = (\<lambda>offset. u64_from_be_bytes (bytes ! offset) (bytes ! (offset + 1))
              (bytes ! (offset + 2)) (bytes ! (offset + 3)) (bytes ! (offset + 4)) (bytes ! (offset + 5))
              (bytes ! (offset + 6)) (bytes ! (offset + 7)));
            info = \<lparr>ci_ipv4 = (bytes ! 8, bytes ! 9, bytes ! 10, bytes ! 11),
              ci_mac = (bytes ! 12, bytes ! 13, bytes ! 14, bytes ! 15, bytes ! 16, bytes ! 17),
              ci_qpn = word 20, ci_psn = word 24,
              ci_mtu = u16_from_be_bytes (bytes ! 18) (bytes ! 19),
              ci_rkey = word 28, ci_remote_address = wide 32, ci_remote_length = wide 40,
              ci_retry_count = bytes ! 48, ci_rnr_retry_count = bytes ! 49, ci_timeout = bytes ! 50,
              ci_max_rd_atomic = bytes ! 51, ci_max_dest_rd_atomic = bytes ! 52,
              ci_rnr_nak_timer = bytes ! 53,
              ci_udp_source_port = u16_from_be_bytes (bytes ! 54) (bytes ! 55)\<rparr>
        in and_then (info_validate info) (\<lambda>_. Inr info))"

definition info_qp_config :: "RcConnectionInfo \<Rightarrow> RcConnectionInfo \<Rightarrow> ConnectionInfoError + RcQpConfig" where
  "info_qp_config self remote =
     and_then (info_validate self) (\<lambda>_.
     and_then (info_validate remote) (\<lambda>_.
     and_then (ok_or (mtu_from_bytes (unat (min (ci_mtu self) (ci_mtu remote)))) (Field ''mtu'')) (\<lambda>mtu.
     Inr \<lparr>transport = \<lparr>local_qpn = ci_qpn self, remote_qpn = ci_qpn remote,
            send_psn = new_truncated (ci_psn self), receive_psn = new_truncated (ci_psn remote),
            path_mtu = mtu, retry_count = ci_retry_count self, rnr_retry_count = ci_rnr_retry_count self,
            timeout = ci_timeout self\<rparr>,
          qc_path = path_new (ci_ipv4 self) (ci_ipv4 remote) (ci_udp_source_port self),
          qc_rnr_nak_timer = ci_rnr_nak_timer self\<rparr>)))"

section \<open>The encoding is a bijection\<close>

definition info_wire :: "RcConnectionInfo \<Rightarrow> octets" where
  "info_wire i = RCV2 @ [0, 1, 0, 64] @ address_bytes (ci_ipv4 i) @ mac_bytes (ci_mac i) @
     u16_to_be_bytes (ci_mtu i) @ u32_to_be_bytes (ci_qpn i) @ u32_to_be_bytes (ci_psn i) @
     u32_to_be_bytes (ci_rkey i) @ u64_to_be_bytes (ci_remote_address i) @
     u64_to_be_bytes (ci_remote_length i) @
     [ci_retry_count i, ci_rnr_retry_count i, ci_timeout i, ci_max_rd_atomic i,
      ci_max_dest_rd_atomic i, ci_rnr_nak_timer i] @ u16_to_be_bytes (ci_udp_source_port i) @ replicate 8 0"

lemma length_mac_bytes [simp]: "length (mac_bytes m) = 6"
  by (cases m) simp

lemma length_info_wire: "length (info_wire i) = 64"
  by (simp add: info_wire_def RCV2_def)

lemma info_encode_iff: "info_encode i = Inr bs \<longleftrightarrow> info_validate i = Inr () \<and> bs = info_wire i"
proof -
  have head: "u16_to_be_bytes 1 = [0, 1]" "u16_to_be_bytes 64 = [0, 64]"
    by (simp_all add: u16_to_be_bytes_def)
  have len: "length RCV2 = 4" by (simp add: RCV2_def)
  have "info_encode i = and_then (info_validate i) (\<lambda>_. Inr (info_wire i))"
    by (simp add: info_encode_def Let_def copy_at_adjacent RC_CONNECTION_INFO_LEN_def len)
      (simp add: copy_at_0 info_wire_def head len)
  then show ?thesis by (auto simp: result_simps)
qed

definition info_of :: "octets \<Rightarrow> RcConnectionInfo" where
  "info_of bytes =
     (let word = (\<lambda>offset. u32_from_be_bytes (bytes ! offset) (bytes ! (offset + 1))
            (bytes ! (offset + 2)) (bytes ! (offset + 3)));
          wide = (\<lambda>offset. u64_from_be_bytes (bytes ! offset) (bytes ! (offset + 1))
            (bytes ! (offset + 2)) (bytes ! (offset + 3)) (bytes ! (offset + 4)) (bytes ! (offset + 5))
            (bytes ! (offset + 6)) (bytes ! (offset + 7)))
      in \<lparr>ci_ipv4 = (bytes ! 8, bytes ! 9, bytes ! 10, bytes ! 11),
          ci_mac = (bytes ! 12, bytes ! 13, bytes ! 14, bytes ! 15, bytes ! 16, bytes ! 17),
          ci_qpn = word 20, ci_psn = word 24,
          ci_mtu = u16_from_be_bytes (bytes ! 18) (bytes ! 19),
          ci_rkey = word 28, ci_remote_address = wide 32, ci_remote_length = wide 40,
          ci_retry_count = bytes ! 48, ci_rnr_retry_count = bytes ! 49, ci_timeout = bytes ! 50,
          ci_max_rd_atomic = bytes ! 51, ci_max_dest_rd_atomic = bytes ! 52,
          ci_rnr_nak_timer = bytes ! 53,
          ci_udp_source_port = u16_from_be_bytes (bytes ! 54) (bytes ! 55)\<rparr>)"

definition info_framed :: "octets \<Rightarrow> bool" where
  "info_framed bs \<longleftrightarrow> length bs = 64 \<and> take 8 bs = RCV2 @ [0, 1, 0, 64] \<and> drop 56 bs = replicate 8 0"

lemma slice_nths: "a + n \<le> length xs \<Longrightarrow> slice a (a + n) xs = map (\<lambda>i. xs ! (a + i)) [0..<n]"
  by (rule nth_equalityI) simp_all

lemma slice_drop: "a \<le> b \<Longrightarrow> slice a b xs @ drop b xs = drop a xs"
  by (simp add: slice_def) (metis append_take_drop_id drop_drop le_add_diff_inverse2)

lemma info_wire_of:
  assumes "info_framed bs"
  shows "info_wire (info_of bs) = bs"
proof -
  have len: "length bs = 64" using assms by (simp add: info_framed_def)
  note nths = slice_nths [of 8 4 bs] slice_nths [of 12 6 bs] slice_nths [of 18 2 bs] slice_nths [of 20 4 bs]
    slice_nths [of 24 4 bs] slice_nths [of 28 4 bs] slice_nths [of 32 8 bs] slice_nths [of 40 8 bs]
    slice_nths [of 48 6 bs] slice_nths [of 54 2 bs]
  have "info_wire (info_of bs) = take 8 bs @ slice 8 12 bs @ slice 12 18 bs @ slice 18 20 bs @ slice 20 24 bs @
      slice 24 28 bs @ slice 28 32 bs @ slice 32 40 bs @ slice 40 48 bs @ slice 48 54 bs @ slice 54 56 bs @ drop 56 bs"
    using assms nths unfolding info_framed_def
    by (simp add: info_wire_def info_of_def Let_def bytes_simps upt_rec)
  also have "\<dots> = bs" by (simp add: slice_drop)
  finally show ?thesis .
qed


lemma to_bytes_inj:
  "u16_to_be_bytes a = u16_to_be_bytes b \<longleftrightarrow> a = b" "u32_to_be_bytes c = u32_to_be_bytes d \<longleftrightarrow> c = d"
  "u64_to_be_bytes e = u64_to_be_bytes f \<longleftrightarrow> e = f" "address_bytes g = address_bytes h \<longleftrightarrow> g = h"
  "mac_bytes i = mac_bytes j \<longleftrightarrow> i = j"
  by (metis u16_be_bytes_roundtrip, metis u32_be_bytes_roundtrip, metis u64_be_bytes_roundtrip,
      cases g, cases h, simp, cases i, cases j, simp)

lemma info_wire_inj: "info_wire i = info_wire j \<Longrightarrow> i = j"
  unfolding info_wire_def
  by (rule RcConnectionInfo.equality) (simp_all add: append_eq_append_conv to_bytes_inj)

lemma info_framed_wire: "info_framed (info_wire i)"
  by (simp add: info_framed_def info_wire_def RCV2_def)

lemma info_of_wire: "info_of (info_wire i) = i"
  by (rule info_wire_inj) (rule info_wire_of [OF info_framed_wire])

lemma info_decode_alt:
  "info_framed bs \<Longrightarrow> info_decode bs = and_then (info_validate (info_of bs)) (\<lambda>_. Inr (info_of bs))"
  "info_decode bs = Inr i \<Longrightarrow> info_framed bs"
proof -
  have parts: "take 8 bs = take 4 bs @ slice 4 6 bs @ slice 6 8 bs"
    using take_add [of 4 4 bs] take_add [of 2 2 "drop 4 bs"] by (simp add: slice_def)
  have framed: "info_framed bs \<longleftrightarrow> length bs = 64 \<and> take 4 bs = RCV2 \<and> slice 4 6 bs = [0, 1] \<and>
      slice 6 8 bs = [0, 64] \<and> \<not> list_ex (\<lambda>byte. byte \<noteq> 0) (drop 56 bs)"
  proof (cases "length bs = 64")
    case True
    have "take 4 bs @ slice 4 6 bs @ slice 6 8 bs = RCV2 @ [0, 1] @ [0, 64] \<longleftrightarrow>
        take 4 bs = RCV2 \<and> slice 4 6 bs = [0, 1] \<and> slice 6 8 bs = [0, 64]"
      by (rule trans [OF append_eq_append_conv], simp add: RCV2_def True,
          rule conj_cong [OF refl], rule append_eq_append_conv, simp add: True)
    then have "take 8 bs = RCV2 @ [0, 1, 0, 64] \<longleftrightarrow> take 4 bs = RCV2 \<and> slice 4 6 bs = [0, 1] \<and> slice 6 8 bs = [0, 64]"
      unfolding parts by simp
    moreover have "drop 56 bs = replicate 8 0 \<longleftrightarrow> \<not> list_ex (\<lambda>byte. byte \<noteq> 0) (drop 56 bs)"
      using True replicate_eqI [of "drop 56 bs" 8 0] by (auto simp: list_ex_iff)
    ultimately show ?thesis using True by (simp add: info_framed_def)
  qed (simp add: info_framed_def)
  show "info_framed bs \<Longrightarrow> info_decode bs = and_then (info_validate (info_of bs)) (\<lambda>_. Inr (info_of bs))"
    unfolding framed by (simp add: info_decode_def info_of_def RC_CONNECTION_INFO_LEN_def Let_def)
  show "info_decode bs = Inr i \<Longrightarrow> info_framed bs"
    unfolding framed info_decode_def RC_CONNECTION_INFO_LEN_def by (auto split: if_splits)
qed

text \<open>
  C36: The connection record codec is a bijection.  Encoding succeeds exactly for valid
  records; decoding accepts exactly the encodings of valid records and returns the record,
  so no field, version, length or reserved octet is ignored.
\<close>

theorem connection_record_bijective:
  "(info_encode i = Inr bs \<longleftrightarrow> info_validate i = Inr () \<and> bs = info_wire i) \<and>
   (info_decode bs = Inr i \<longleftrightarrow> info_validate i = Inr () \<and> bs = info_wire i)"
proof -
  have "info_decode bs = Inr i \<longleftrightarrow> info_validate i = Inr () \<and> bs = info_wire i"
  proof
    assume dec: "info_decode bs = Inr i"
    then have framed: "info_framed bs" by (rule info_decode_alt(2))
    show "info_validate i = Inr () \<and> bs = info_wire i"
      using dec info_wire_of [OF framed] unfolding info_decode_alt(1) [OF framed] and_then_Inr_iff by auto
  qed (auto simp: info_decode_alt(1) info_framed_wire info_of_wire)
  then show ?thesis using info_encode_iff by blast
qed

section \<open>Two peers\<close>

lemma info_validate_iff:
  "info_validate i = Inr () \<longleftrightarrow>
    fst (ci_ipv4 i) \<noteq> 0 \<and> fst (ci_ipv4 i) < 224 \<and> 2 \<le> ci_qpn i \<and> ci_qpn i \<le> 0x00ffffff \<and>
    ci_psn i \<le> 0x00ffffff \<and> (\<exists>m. unat (ci_mtu i) = mtu_bytes m) \<and>
    unat (ci_remote_address i) + unat (ci_remote_length i) < 2 ^ 64 \<and>
    ci_retry_count i \<le> 7 \<and> ci_rnr_retry_count i \<le> 7 \<and> ci_timeout i \<le> 31 \<and> ci_rnr_nak_timer i \<le> 31 \<and>
    ci_max_rd_atomic i = 1 \<and> ci_max_dest_rd_atomic i = 1 \<and> 49152 \<le> ci_udp_source_port i"
proof -
  have mtu: "mtu_from_bytes n = None \<longleftrightarrow> (\<nexists>m. n = mtu_bytes m)" for n
    using mtu_roundtrip by (metis not_None_eq)
  show ?thesis
    unfolding info_validate_def mtu by (auto simp: u64_checked_add_def not_less not_le split: if_splits)
qed

text \<open>
  C37: Two peers that exchange valid records configure the two ends of one connection: both
  configurations are accepted by the queue-pair state machine, queue-pair numbers, sequence
  numbers and addresses are mirrored, the path MTU is the smaller of the two and the same
  on both ends.
\<close>

theorem peers_configure_mirror_images:
  assumes "info_validate a = Inr ()" "info_validate b = Inr ()"
  shows "\<exists>ca cb. info_qp_config a b = Inr ca \<and> info_qp_config b a = Inr cb \<and>
    is_ok (qp_new (transport ca)) \<and> is_ok (qp_new (transport cb)) \<and>
    local_qpn (transport ca) = remote_qpn (transport cb) \<and> remote_qpn (transport ca) = local_qpn (transport cb) \<and>
    send_psn (transport ca) = receive_psn (transport cb) \<and> receive_psn (transport ca) = send_psn (transport cb) \<and>
    path_source (qc_path ca) = path_destination (qc_path cb) \<and> path_destination (qc_path ca) = path_source (qc_path cb) \<and>
    path_mtu (transport ca) = path_mtu (transport cb) \<and>
    mtu_bytes (path_mtu (transport ca)) = min (unat (ci_mtu a)) (unat (ci_mtu b)) \<and>
    qc_rnr_nak_timer ca \<le> MAX_RNR_TIMER \<and> qc_rnr_nak_timer cb \<le> MAX_RNR_TIMER"
proof -
  have unat_min: "unat (min x y) = min (unat x) (unat y)" for x y :: u16
    by (simp add: min_def word_le_nat_alt)
  obtain m where m: "unat (min (ci_mtu a) (ci_mtu b)) = mtu_bytes m"
    using assms unfolding info_validate_iff by (metis min_def)
  then have mtu: "mtu_from_bytes (unat (min (ci_mtu a) (ci_mtu b))) = Some m"
    "mtu_from_bytes (unat (min (ci_mtu b) (ci_mtu a))) = Some m"
    using mtu_roundtrip by (simp_all add: min.commute)
  have ok: "is_ok (qp_new \<lparr>local_qpn = ci_qpn i, remote_qpn = ci_qpn j, send_psn = p, receive_psn = q, path_mtu = m,
      retry_count = ci_retry_count i, rnr_retry_count = ci_rnr_retry_count i, timeout = ci_timeout i\<rparr>)"
    if "info_validate i = Inr ()" "info_validate j = Inr ()" for i j p q
    using that qp_new_ok_iff unfolding info_validate_iff
    by (auto simp: is_ok_iff config_valid_def word_le_def)
  show ?thesis
    using assms ok [OF assms] ok [OF assms(2,1)] m mtu
    by (simp add: info_qp_config_def path_new_def unat_min [symmetric]) (simp add: info_validate_iff MAX_RNR_TIMER_def)
qed


definition sample_info :: "u8 \<Rightarrow> u32 \<Rightarrow> u16 \<Rightarrow> RcConnectionInfo" where
  "sample_info h qpn mtu = \<lparr>ci_ipv4 = (192, 0, 2, h), ci_mac = (0, 0, 0, 0, 0, 0), ci_qpn = qpn, ci_psn = 77,
     ci_mtu = mtu, ci_rkey = 9, ci_remote_address = 4096, ci_remote_length = 64, ci_retry_count = 7,
     ci_rnr_retry_count = 6, ci_timeout = 14, ci_max_rd_atomic = 1, ci_max_dest_rd_atomic = 1,
     ci_rnr_nak_timer = 12, ci_udp_source_port = 50000\<rparr>"

lemma peers_configure_mirror_images_witness:
  "\<exists>c. info_qp_config (sample_info 1 17 1024) (sample_info 2 18 4096) = Inr c \<and>
     mtu_bytes (path_mtu (transport c)) = 1024 \<and> is_ok (qp_new (transport c))"
proof -
  have "info_validate (sample_info 1 17 1024) = Inr ()" "info_validate (sample_info 2 18 4096) = Inr ()"
    by (simp_all add: info_validate_def sample_info_def mtu_from_bytes_def u64_checked_add_def)
  from peers_configure_mirror_images [OF this] show ?thesis by (auto simp: sample_info_def)
qed

end
