(* ===== verification/Rc_Slot.thy ===== *)
theory Rc_Slot
  imports Rc_Base
begin

text \<open>
  One queue pair of the engine, the methods of \<open>RcQpSlot\<close> in \<open>rocev2/src/rc.rs\<close>:
  completion reservations, finishing the active request or a receive, flushing, and what
  makes the queue pair runnable.  A handler runs on a queue pair, the memory registry, the
  process memory and the counters, the record \<open>rc_state\<close>; it returns the updated record.
  Debug assertions are not part of the model; the invariant of this theory shows the ones
  on reservations, completion capacity and leases to hold.
\<close>

section \<open>Model\<close>

record rc_state =
  the_slot :: RcQpSlot
  the_registry :: MemoryRegistry
  the_store :: memory
  the_stats :: RcEndpointStats

definition release_lease :: "MemoryRegistry \<Rightarrow> RegionLease option \<Rightarrow> MemoryRegistry \<times> RegionLease option" where
  "release_lease r lease = (case release lease r of (r', lease', _) \<Rightarrow> (r', lease'))"

definition can_reserve_completion :: "RcQpSlot \<Rightarrow> bool" where
  "can_reserve_completion s \<longleftrightarrow>
     ring_len (completion_queue s) + completion_reservations s < ring_capacity (completion_queue s)"

definition reserve_completion :: "RcQpSlot \<Rightarrow> RcQpSlot \<times> (ApiError + unit)" where
  "reserve_completion s =
     (if \<not> can_reserve_completion s then (s, Inl (QueueFull Completion_Queue))
      else (s\<lparr>completion_reservations := completion_reservations s + 1\<rparr>, Inr ()))"

definition resolve_reserved_completion :: "Completion option \<Rightarrow> RcQpSlot \<Rightarrow> RcQpSlot \<times> usize" where
  "resolve_reserved_completion completion s =
     (let s = s\<lparr>completion_reservations := completion_reservations s - 1\<rparr>
      in case completion of
           None \<Rightarrow> (s, 0)
         | Some c \<Rightarrow>
             (case ring_push (completion_queue s) c of
                (q, Inr _) \<Rightarrow> (s\<lparr>completion_queue := q\<rparr>, 1)
              | (q, Inl _) \<Rightarrow> (s\<lparr>completion_queue := q\<rparr>, 0)))"

definition finish_active :: "CompletionStatus \<Rightarrow> u32 \<Rightarrow> rc_state \<Rightarrow> rc_state \<times> usize" where
  "finish_active status byte_len st =
     (let (r, lease) = release_lease (the_registry st) (active_memory (the_slot st));
          s = (the_slot st)\<lparr>active_memory := lease\<rparr>
      in case active_request s of
           None \<Rightarrow> (st\<lparr>the_slot := s, the_registry := r\<rparr>, 0)
         | Some active \<Rightarrow>
             (let s = s\<lparr>active_request := None\<rparr>;
                  i = wr_id (ar_work active);
                  opc = completion_opcode active;
                  completion =
                    (if wr_signaled (ar_work active) \<or> status \<noteq> Success
                     then Some (if status = Success then completion_success i opc byte_len
                                else completion_failure i opc status)
                     else None);
                  (s, n) = resolve_reserved_completion completion s
              in (st\<lparr>the_slot := s, the_registry := r\<rparr>, n)))"

definition finish_receive ::
  "RecvWorkRequest \<Rightarrow> CompletionStatus \<Rightarrow> u32 \<Rightarrow> rc_state \<Rightarrow> rc_state \<times> usize" where
  "finish_receive work status byte_len st =
     (let (r, lease) = release_lease (the_registry st) (inbound_memory (the_slot st));
          s = (the_slot st)\<lparr>inbound_memory := lease\<rparr>;
          completion = (if status = Success then completion_success (recv_id work) CqReceive byte_len
                        else completion_failure (recv_id work) CqReceive status);
          (s, n) = resolve_reserved_completion (Some completion) s
      in (st\<lparr>the_slot := s, the_registry := r\<rparr>, n))"

lemma resolve_frame:
  "send_queue (fst (resolve_reserved_completion c s)) = send_queue s"
  "receive_queue (fst (resolve_reserved_completion c s)) = receive_queue s"
  by (simp_all add: resolve_reserved_completion_def Let_def split: option.split prod.split sum.split)

lemma finish_receive_frame: "receive_queue (the_slot (fst (finish_receive work status n st))) = receive_queue (the_slot st)"
  by (simp add: finish_receive_def Let_def case_prod_beta resolve_frame)

lemma ring_pop_shorter: "ring_pop q = (q', Some x) \<Longrightarrow> ring_len q' < ring_len q"
  by (auto simp: ring_pop_def ring_is_empty_def split: if_splits)

function flush_send :: "rc_state \<Rightarrow> rc_state \<times> usize" where
  "flush_send st =
     (case ring_pop (send_queue (the_slot st)) of
        (q, None) \<Rightarrow> (st, 0)
      | (q, Some posted) \<Rightarrow>
          (let s = (the_slot st)\<lparr>send_queue := q\<rparr>;
               (r, _) = release_lease (the_registry st) (posted_lease posted);
               work = posted_work posted;
               (s, n) = resolve_reserved_completion
                 (Some (completion_failure (wr_id work) (kind_opcode (wr_kind work)) Flushed)) s;
               (st, m) = flush_send (st\<lparr>the_slot := s, the_registry := r\<rparr>)
           in (st, n + m)))"
  by auto
termination
  by (relation "measure (\<lambda>st. ring_len (send_queue (the_slot st)))")
    (auto simp: resolve_frame ring_pop_shorter dest!: sym [of "(_, _)"] arg_cong [where f = "\<lambda>x. send_queue (fst x)"])

function flush_receive :: "rc_state \<Rightarrow> rc_state \<times> usize" where
  "flush_receive st =
     (case ring_pop (receive_queue (the_slot st)) of
        (q, None) \<Rightarrow> (st, 0)
      | (q, Some posted) \<Rightarrow>
          (let s = (the_slot st)\<lparr>receive_queue := q\<rparr>;
               (r, _) = release_lease (the_registry st) (posted_lease posted);
               (st, n) = finish_receive (posted_work posted) Flushed 0 (st\<lparr>the_slot := s, the_registry := r\<rparr>);
               (st, m) = flush_receive st
           in (st, n + m)))"
  by auto
termination
  by (relation "measure (\<lambda>st. ring_len (receive_queue (the_slot st)))")
    (auto simp: finish_receive_frame ring_pop_shorter dest!: sym [of "(_, _)"]
      arg_cong [where f = "\<lambda>x. receive_queue (the_slot (fst x))"])

declare flush_send.simps [simp del] flush_receive.simps [simp del]

definition release_inbound :: "rc_state \<Rightarrow> rc_state" where
  "release_inbound st =
     (let (r, lease) = release_lease (the_registry st) (inbound_memory (the_slot st))
      in st\<lparr>the_slot := (the_slot st)\<lparr>inbound_memory := lease\<rparr>, the_registry := r\<rparr>)"

definition release_read :: "rc_state \<Rightarrow> rc_state" where
  "release_read st =
     (let (r, lease) = release_lease (the_registry st) (read_memory (the_slot st))
      in st\<lparr>the_slot := (the_slot st)\<lparr>read_memory := lease\<rparr>, the_registry := r\<rparr>)"

definition flush_pending :: "rc_state \<Rightarrow> rc_state \<times> usize" where
  "flush_pending st =
     (let (st, g1) = finish_active Flushed 0 st;
          message = inbound_message (the_slot st);
          st = st\<lparr>the_slot := (the_slot st)\<lparr>inbound_message := None\<rparr>\<rparr>;
          (st, g2) = (case message of
              Some (InboundSend work _) \<Rightarrow> finish_receive work Flushed 0 st
            | _ \<Rightarrow> (st, 0));
          st = release_inbound st;
          st = release_read st;
          st = st\<lparr>the_slot := (the_slot st)\<lparr>read_response := None, read_replay := None\<rparr>\<rparr>;
          (st, g3) = flush_send st;
          (st, g4) = flush_receive st
      in (st, g1 + g2 + g3 + g4))"

definition enter_error :: "rc_state \<Rightarrow> rc_state \<times> usize" where
  "enter_error st =
     (let s = the_slot st;
          s = (if qp_state (machine s) \<noteq> Error then s\<lparr>machine := fst (qp_transition (machine s) Error)\<rparr> else s)
      in flush_pending (st\<lparr>the_slot := s\<rparr>))"

definition is_busy :: "RcQpSlot \<Rightarrow> bool" where
  "is_busy s \<longleftrightarrow>
     active_request s \<noteq> None \<or> inbound_message s \<noteq> None \<or> read_response s \<noteq> None \<or>
     \<not> ring_is_empty (send_queue s) \<or> \<not> ring_is_empty (receive_queue s) \<or>
     \<not> ring_is_empty (completion_queue s) \<or> completion_reservations s \<noteq> 0 \<or>
     requester_scheduled s \<or> responder_scheduled s"

definition requester_is_runnable :: "RcQpSlot \<Rightarrow> bool" where
  "requester_is_runnable s =
     (case active_request s of
        Some active \<Rightarrow> phase active = Sending
      | None \<Rightarrow> can_send (machine s) \<and> \<not> ring_is_empty (send_queue s))"

definition responder_is_runnable :: "RcQpSlot \<Rightarrow> bool" where
  "responder_is_runnable s \<longleftrightarrow> can_receive (machine s) \<and> read_response s \<noteq> None"

definition timer_deadline :: "RcQpSlot \<Rightarrow> u64 option" where
  "timer_deadline s =
     Option.bind (active_request s) (\<lambda>active.
       case phase active of Sending \<Rightarrow> None | _ \<Rightarrow> deadline (ar_timer active))"

definition reset_transport_state :: "RcQpSlot \<Rightarrow> RcQpSlot" where
  "reset_transport_state s =
     (let config = qp_config (machine s)
      in s\<lparr>send_window := send_window_reset (send_window s) (send_psn config),
           qs_receive_psn := receive_psn_reset (qs_receive_psn s) (receive_psn config),
           message_sequence_number := psn_zero, active_request := None, inbound_message := None,
           read_response := None, read_replay := None\<rparr>)"


section \<open>What a queue pair owns\<close>

text \<open>
  The leases a queue pair holds, the completions it owes (posted, active and partially
  received work, by identifier and operation) and those in its completion queue.
\<close>

definition opt_mset :: "'a option \<Rightarrow> 'a multiset" where
  "opt_mset x = (case x of None \<Rightarrow> {#} | Some a \<Rightarrow> {#a#})"

lemma opt_mset_simps [simp]: "opt_mset None = {#}" "opt_mset (Some a) = {#a#}"
  by (simp_all add: opt_mset_def)

definition queue_leases :: "'w PostedWork list \<Rightarrow> RegionLease multiset" where
  "queue_leases ps = (\<Sum>p \<leftarrow> ps. opt_mset (posted_lease p))"

definition slot_leases :: "RcQpSlot \<Rightarrow> RegionLease multiset" where
  "slot_leases s = opt_mset (active_memory s) + opt_mset (inbound_memory s) + opt_mset (read_memory s)
     + queue_leases (ring_list (send_queue s)) + queue_leases (ring_list (receive_queue s))"

definition work_id :: "WorkRequest \<Rightarrow> u64 \<times> CompletionOpcode" where
  "work_id w = (wr_id w, kind_opcode (wr_kind w))"

definition works :: "RcQpSlot \<Rightarrow> WorkRequest multiset" where
  "works s = opt_mset (map_option ar_work (active_request s)) + mset (map posted_work (ring_list (send_queue s)))"

definition inbound_receives :: "InboundMessage option \<Rightarrow> RecvWorkRequest multiset" where
  "inbound_receives m = (case m of Some (InboundSend w _) \<Rightarrow> {#w#} | _ \<Rightarrow> {#})"

definition receives :: "RcQpSlot \<Rightarrow> RecvWorkRequest multiset" where
  "receives s = inbound_receives (inbound_message s) + mset (map posted_work (ring_list (receive_queue s)))"

definition recv_key :: "RecvWorkRequest \<Rightarrow> u64 \<times> CompletionOpcode" where
  "recv_key w = (recv_id w, CqReceive)"

definition owed :: "RcQpSlot \<Rightarrow> (u64 \<times> CompletionOpcode) multiset" where
  "owed s = image_mset work_id (works s) + image_mset recv_key (receives s)"

definition completion_id :: "Completion \<Rightarrow> u64 \<times> CompletionOpcode" where
  "completion_id c = (work_request_id c, cq_opcode c)"

section \<open>The invariant\<close>

definition queues_ok :: "RcQpSlot \<Rightarrow> bool" where
  "queues_ok s \<longleftrightarrow> ring_inv (send_queue s) \<and> ring_inv (receive_queue s) \<and> ring_inv (completion_queue s)"

definition all_leased :: "RcQpSlot \<Rightarrow> bool" where
  "all_leased s \<longleftrightarrow> (\<forall>p \<in> set (ring_list (send_queue s)). posted_lease p \<noteq> None) \<and>
     (\<forall>p \<in> set (ring_list (receive_queue s)). posted_lease p \<noteq> None)"

text \<open>
  Inside a handler a receive may have been taken from its queue and not be finished yet:
  \<open>E\<close> are the receives in hand, whose completion is still reserved.
\<close>

definition slot_pre :: "RecvWorkRequest multiset \<Rightarrow> RcQpSlot \<Rightarrow> bool" where
  "slot_pre E s \<longleftrightarrow> queues_ok s \<and> all_leased s \<and>
     completion_reservations s = size (owed s) + size E \<and>
     length (ring_list (completion_queue s)) + (size (owed s) + size E) \<le> ring_capacity (completion_queue s)"

definition memory_held :: "RcQpSlot \<Rightarrow> bool" where
  "memory_held s \<longleftrightarrow>
     (active_memory s = None \<longleftrightarrow> active_request s = None) \<and>
     (inbound_memory s = None \<longleftrightarrow> inbound_message s = None) \<and>
     (read_memory s = None \<longleftrightarrow> read_response s = None)"

definition slot_inv :: "RcQpSlot \<Rightarrow> bool" where
  "slot_inv s \<longleftrightarrow> slot_pre {#} s \<and> memory_held s"

definition rc_pre :: "RecvWorkRequest multiset \<Rightarrow> RegionLease multiset \<Rightarrow> rc_state \<Rightarrow> bool" where
  "rc_pre E others st \<longleftrightarrow> slot_pre E (the_slot st) \<and> registry_inv (the_registry st) \<and>
     leased (the_registry st) (slot_leases (the_slot st) + others)"

definition rc_inv :: "RegionLease multiset \<Rightarrow> rc_state \<Rightarrow> bool" where
  "rc_inv others st \<longleftrightarrow> slot_inv (the_slot st) \<and> registry_inv (the_registry st) \<and>
     leased (the_registry st) (slot_leases (the_slot st) + others)"

lemma rc_inv_pre: "rc_inv others st \<longleftrightarrow> rc_pre {#} others st \<and> memory_held (the_slot st)"
  by (auto simp: rc_inv_def rc_pre_def slot_inv_def)

text \<open>
  What a step does to the books: the completions \<open>cs\<close> are appended to the queue, one for
  each work request or receive that is finished; work disappears without a completion
  only if it was not signaled.
\<close>

definition rc_books :: "RecvWorkRequest multiset \<Rightarrow> RcQpSlot \<Rightarrow> RecvWorkRequest multiset \<Rightarrow> RcQpSlot \<Rightarrow>
    Completion list \<Rightarrow> bool" where
  "rc_books E s E' s' cs \<longleftrightarrow>
     ring_list (completion_queue s') = ring_list (completion_queue s) @ cs \<and>
     ring_capacity (completion_queue s') = ring_capacity (completion_queue s) \<and>
     (\<exists>W R silent. works s = works s' + W + silent \<and> receives s + E = receives s' + E' + R \<and>
        image_mset completion_id (mset cs) = image_mset work_id W + image_mset recv_key R \<and>
        (\<forall>w \<in># silent. \<not> wr_signaled w))"

definition rc_step :: "RegionLease multiset \<Rightarrow> RecvWorkRequest multiset \<Rightarrow> rc_state \<Rightarrow>
    RecvWorkRequest multiset \<Rightarrow> rc_state \<Rightarrow> usize \<Rightarrow> bool" where
  "rc_step others E st E' st' n \<longleftrightarrow> (rc_pre E others st \<longrightarrow> rc_pre E' others st' \<and>
     (\<exists>cs. length cs = n \<and> rc_books E (the_slot st) E' (the_slot st') cs))"

definition rc_keeps :: "RegionLease multiset \<Rightarrow> rc_state \<Rightarrow> rc_state \<Rightarrow> usize \<Rightarrow> bool" where
  "rc_keeps others st st' n \<longleftrightarrow> (rc_inv others st \<longrightarrow> rc_inv others st' \<and>
     (\<exists>cs. length cs = n \<and> rc_books {#} (the_slot st) {#} (the_slot st') cs))"

lemma rc_books_same:
  "ring_list (completion_queue s') = ring_list (completion_queue s) \<Longrightarrow>
   ring_capacity (completion_queue s') = ring_capacity (completion_queue s) \<Longrightarrow>
   works s' = works s \<Longrightarrow> receives s' + E' = receives s + E \<Longrightarrow> rc_books E s E' s' []"
  by (auto simp: rc_books_def intro!: exI [of _ "{#}"])

lemma rc_books_refl [simp]: "rc_books E s E s []"
  by (rule rc_books_same) simp_all

lemma rc_books_trans:
  assumes "rc_books E s E' s' cs" "rc_books E' s' E'' s'' ds"
  shows "rc_books E s E'' s'' (cs @ ds)"
proof -
  obtain W R x where 1: "works s = works s' + W + x" "receives s + E = receives s' + E' + R"
    "image_mset completion_id (mset cs) = image_mset work_id W + image_mset recv_key R" "\<forall>w \<in># x. \<not> wr_signaled w"
    using assms(1) unfolding rc_books_def by blast
  obtain W' R' x' where 2: "works s' = works s'' + W' + x'" "receives s' + E' = receives s'' + E'' + R'"
    "image_mset completion_id (mset ds) = image_mset work_id W' + image_mset recv_key R'" "\<forall>w \<in># x'. \<not> wr_signaled w"
    using assms(2) unfolding rc_books_def by blast
  have "works s = works s'' + (W + W') + (x + x') \<and> receives s + E = receives s'' + E'' + (R + R') \<and>
      image_mset completion_id (mset (cs @ ds)) = image_mset work_id (W + W') + image_mset recv_key (R + R') \<and>
      (\<forall>w \<in># x + x'. \<not> wr_signaled w)"
    using 1 2 by (auto simp: ac_simps)
  moreover have "ring_list (completion_queue s'') = ring_list (completion_queue s) @ cs @ ds"
    "ring_capacity (completion_queue s'') = ring_capacity (completion_queue s)"
    using assms by (simp_all add: rc_books_def)
  ultimately show ?thesis unfolding rc_books_def by blast
qed

lemma rc_step_refl [simp]: "rc_step others E st E st 0"
  by (simp add: rc_step_def)

lemma rc_step_trans:
  "rc_step others E st E' st' n \<Longrightarrow> rc_step others E' st' E'' st'' m \<Longrightarrow> rc_step others E st E'' st'' (n + m)"
  unfolding rc_step_def using rc_books_trans by (metis length_append)

lemma rc_keeps_refl [simp]: "rc_keeps others st st 0"
  by (simp add: rc_keeps_def)

lemma rc_keeps_trans:
  "rc_keeps others st st' n \<Longrightarrow> rc_keeps others st' st'' m \<Longrightarrow> rc_keeps others st st'' (n + m)"
  unfolding rc_keeps_def using rc_books_trans by (metis length_append)

lemma rc_keeps_step:
  "(rc_inv others st \<Longrightarrow> rc_step others {#} st {#} st' n) \<Longrightarrow>
   (rc_inv others st \<Longrightarrow> memory_held (the_slot st')) \<Longrightarrow> rc_keeps others st st' n"
  by (auto simp: rc_step_def rc_keeps_def rc_inv_pre)


lemma rc_keeps_inv:
  assumes "rc_keeps others st st' n" "rc_inv others st"
  shows "rc_step others {#} st {#} st' n \<and> memory_held (the_slot st')"
  using assms unfolding rc_keeps_def rc_step_def rc_inv_pre by simp

section \<open>Updates that do not touch the books\<close>

lemma slot_view_frame [simp]:
  "slot_inv (s\<lparr>qs_generation := x1\<rparr>) = slot_inv s" "slot_pre E (s\<lparr>qs_generation := x1\<rparr>) = slot_pre E s" "slot_leases (s\<lparr>qs_generation := x1\<rparr>) = slot_leases s"
  "slot_inv (s\<lparr>machine := x2\<rparr>) = slot_inv s" "slot_pre E (s\<lparr>machine := x2\<rparr>) = slot_pre E s" "slot_leases (s\<lparr>machine := x2\<rparr>) = slot_leases s"
  "slot_inv (s\<lparr>qs_path := x3\<rparr>) = slot_inv s" "slot_pre E (s\<lparr>qs_path := x3\<rparr>) = slot_pre E s" "slot_leases (s\<lparr>qs_path := x3\<rparr>) = slot_leases s"
  "slot_inv (s\<lparr>qs_rnr_nak_timer := x4\<rparr>) = slot_inv s" "slot_pre E (s\<lparr>qs_rnr_nak_timer := x4\<rparr>) = slot_pre E s" "slot_leases (s\<lparr>qs_rnr_nak_timer := x4\<rparr>) = slot_leases s"
  "slot_inv (s\<lparr>send_window := x5\<rparr>) = slot_inv s" "slot_pre E (s\<lparr>send_window := x5\<rparr>) = slot_pre E s" "slot_leases (s\<lparr>send_window := x5\<rparr>) = slot_leases s"
  "slot_inv (s\<lparr>qs_receive_psn := x6\<rparr>) = slot_inv s" "slot_pre E (s\<lparr>qs_receive_psn := x6\<rparr>) = slot_pre E s" "slot_leases (s\<lparr>qs_receive_psn := x6\<rparr>) = slot_leases s"
  "slot_inv (s\<lparr>read_replay := x7\<rparr>) = slot_inv s" "slot_pre E (s\<lparr>read_replay := x7\<rparr>) = slot_pre E s" "slot_leases (s\<lparr>read_replay := x7\<rparr>) = slot_leases s"
  "slot_inv (s\<lparr>message_sequence_number := x8\<rparr>) = slot_inv s" "slot_pre E (s\<lparr>message_sequence_number := x8\<rparr>) = slot_pre E s"
  "slot_leases (s\<lparr>message_sequence_number := x8\<rparr>) = slot_leases s"
  "slot_inv (s\<lparr>requester_scheduled := x9\<rparr>) = slot_inv s" "slot_pre E (s\<lparr>requester_scheduled := x9\<rparr>) = slot_pre E s" "slot_leases (s\<lparr>requester_scheduled := x9\<rparr>) = slot_leases s"
  "slot_inv (s\<lparr>responder_scheduled := x10\<rparr>) = slot_inv s" "slot_pre E (s\<lparr>responder_scheduled := x10\<rparr>) = slot_pre E s" "slot_leases (s\<lparr>responder_scheduled := x10\<rparr>) = slot_leases s"
  "slot_inv (s\<lparr>timer_sequence := x11\<rparr>) = slot_inv s" "slot_pre E (s\<lparr>timer_sequence := x11\<rparr>) = slot_pre E s" "slot_leases (s\<lparr>timer_sequence := x11\<rparr>) = slot_leases s"
  by (simp_all add: slot_inv_def slot_pre_def memory_held_def all_leased_def slot_leases_def owed_def
      works_def receives_def queues_ok_def)

lemma works_frame [simp]:
  "works (s\<lparr>machine := x2\<rparr>) = works s" "receives (s\<lparr>machine := x2\<rparr>) = receives s"
  "works (s\<lparr>send_window := x5\<rparr>) = works s" "receives (s\<lparr>send_window := x5\<rparr>) = receives s"
  "works (s\<lparr>qs_receive_psn := x6\<rparr>) = works s" "receives (s\<lparr>qs_receive_psn := x6\<rparr>) = receives s"
  "works (s\<lparr>read_replay := x7\<rparr>) = works s" "receives (s\<lparr>read_replay := x7\<rparr>) = receives s"
  "works (s\<lparr>message_sequence_number := x8\<rparr>) = works s" "receives (s\<lparr>message_sequence_number := x8\<rparr>) = receives s"
  "works (s\<lparr>read_response := x12\<rparr>) = works s" "receives (s\<lparr>read_response := x12\<rparr>) = receives s"
  "works (s\<lparr>read_memory := x13\<rparr>) = works s" "receives (s\<lparr>read_memory := x13\<rparr>) = receives s"
  "works (s\<lparr>inbound_memory := x14\<rparr>) = works s" "receives (s\<lparr>inbound_memory := x14\<rparr>) = receives s"
  "works (s\<lparr>active_memory := x15\<rparr>) = works s" "receives (s\<lparr>active_memory := x15\<rparr>) = receives s"
  "works (s\<lparr>completion_queue := x16\<rparr>) = works s" "receives (s\<lparr>completion_queue := x16\<rparr>) = receives s"
  "works (s\<lparr>completion_reservations := x17\<rparr>) = works s" "receives (s\<lparr>completion_reservations := x17\<rparr>) = receives s"
  "works (s\<lparr>inbound_message := x18\<rparr>) = works s" "receives (s\<lparr>active_request := x19\<rparr>) = receives s"
  "works (s\<lparr>receive_queue := x20\<rparr>) = works s" "receives (s\<lparr>send_queue := x21\<rparr>) = receives s"
  by (simp_all add: works_def receives_def)

lemma leases_frame [simp]:
  "slot_leases (s\<lparr>read_response := x12\<rparr>) = slot_leases s"
  "slot_leases (s\<lparr>inbound_message := x13\<rparr>) = slot_leases s"
  "slot_leases (s\<lparr>active_request := x14\<rparr>) = slot_leases s"
  "slot_leases (s\<lparr>completion_queue := x15\<rparr>) = slot_leases s"
  "slot_leases (s\<lparr>completion_reservations := x16\<rparr>) = slot_leases s"
  by (simp_all add: slot_leases_def)

text \<open>A change of the queue pair that only touches fields outside the invariant.\<close>

lemma rc_keeps_frame:
  assumes "slot_inv (the_slot st') = slot_inv (the_slot st)" "slot_leases (the_slot st') = slot_leases (the_slot st)"
    "works (the_slot st') = works (the_slot st)" "receives (the_slot st') = receives (the_slot st)"
    "completion_queue (the_slot st') = completion_queue (the_slot st)" "the_registry st' = the_registry st"
  shows "rc_keeps others st st' 0"
  using assms by (auto simp: rc_keeps_def rc_inv_def intro!: rc_books_same)

lemma rc_step_frame:
  assumes "slot_pre E' (the_slot st') = slot_pre E (the_slot st)" "slot_leases (the_slot st') = slot_leases (the_slot st)"
    "works (the_slot st') = works (the_slot st)" "receives (the_slot st') + E' = receives (the_slot st) + E"
    "completion_queue (the_slot st') = completion_queue (the_slot st)" "the_registry st' = the_registry st"
  shows "rc_step others E st E' st' 0"
  using assms by (auto simp: rc_step_def rc_pre_def intro!: rc_books_same)

section \<open>Finishing work\<close>

lemma release_lease_one:
  assumes "registry_inv r" "leased r (add_mset l M)"
  obtains r' where "release_lease r (Some l) = (r', None)" "registry_inv r'" "leased r' M"
  by (rule leased_release [OF assms]) (simp add: release_lease_def that)

lemma release_lease_None [simp]: "release_lease r None = (r, None)"
  by (simp add: release_lease_def release_def)

lemma release_lease_opt:
  assumes "registry_inv r" "leased r (opt_mset l + M)"
  obtains r' where "release_lease r l = (r', None)" "registry_inv r'" "leased r' M"
proof (cases l)
  case None
  then show ?thesis using assms that [of r] by simp
next
  case (Some a)
  then show ?thesis using assms release_lease_one [of r a M] that by auto
qed

lemma resolve_room:
  assumes "ring_inv (completion_queue s)" "length (ring_list (completion_queue s)) < ring_capacity (completion_queue s)"
  obtains q where "resolve_reserved_completion (Some c) s =
      (s\<lparr>completion_reservations := completion_reservations s - 1, completion_queue := q\<rparr>, 1)"
    "ring_inv q" "ring_capacity q = ring_capacity (completion_queue s)" "ring_list q = ring_list (completion_queue s) @ [c]"
  by (rule ring.push_room [OF assms, of c]) (simp add: resolve_reserved_completion_def Let_def that)


lemma finish_receive_eval:
  fixes st :: rc_state
  defines "s \<equiv> the_slot st"
  assumes "registry_inv (the_registry st)" "leased (the_registry st) (opt_mset (inbound_memory s) + M)"
    and "ring_inv (completion_queue s)" "length (ring_list (completion_queue s)) < ring_capacity (completion_queue s)"
  obtains r q c where "finish_receive work status n st = (st\<lparr>the_slot := s\<lparr>inbound_memory := None,
        completion_reservations := completion_reservations s - 1, completion_queue := q\<rparr>, the_registry := r\<rparr>, 1)"
    "registry_inv r" "leased r M" "ring_inv q" "ring_capacity q = ring_capacity (completion_queue s)"
    "ring_list q = ring_list (completion_queue s) @ [c]" "completion_id c = recv_key work"
    "c = (if status = Success then completion_success (recv_id work) CqReceive n
       else completion_failure (recv_id work) CqReceive status)"
proof -
  let ?c = "if status = Success then completion_success (recv_id work) CqReceive n
       else completion_failure (recv_id work) CqReceive status"
  obtain r where r: "release_lease (the_registry st) (inbound_memory s) = (r, None)" "registry_inv r" "leased r M"
    using assms(2,3) by (rule release_lease_opt)
  obtain q where q: "resolve_reserved_completion (Some ?c) (s\<lparr>inbound_memory := None\<rparr>) =
      (s\<lparr>inbound_memory := None, completion_reservations := completion_reservations s - 1, completion_queue := q\<rparr>, 1)"
    "ring_inv q" "ring_capacity q = ring_capacity (completion_queue s)" "ring_list q = ring_list (completion_queue s) @ [?c]"
    using resolve_room [of "s\<lparr>inbound_memory := None\<rparr>" ?c] assms(4,5) by auto
  have "completion_id ?c = recv_key work"
    by (simp add: completion_id_def recv_key_def completion_success_def completion_failure_def)
  moreover have "finish_receive work status n st = (st\<lparr>the_slot := s\<lparr>inbound_memory := None,
        completion_reservations := completion_reservations s - 1, completion_queue := q\<rparr>, the_registry := r\<rparr>, 1)"
    using r(1) q(1) unfolding finish_receive_def s_def [symmetric] by (simp add: Let_def)
  ultimately show thesis using that r q by blast
qed

lemma finish_active_eval:
  fixes st :: rc_state
  defines "s \<equiv> the_slot st"
  assumes "registry_inv (the_registry st)" "leased (the_registry st) (opt_mset (active_memory s) + M)"
    and "ring_inv (completion_queue s)" "length (ring_list (completion_queue s)) < ring_capacity (completion_queue s)"
    and "active_request s = Some active"
  obtains r q cs where "finish_active status n st = (st\<lparr>the_slot := s\<lparr>active_memory := None, active_request := None,
        completion_reservations := completion_reservations s - 1, completion_queue := q\<rparr>, the_registry := r\<rparr>, length cs)"
    "registry_inv r" "leased r M" "ring_inv q" "ring_capacity q = ring_capacity (completion_queue s)"
    "ring_list q = ring_list (completion_queue s) @ cs"
    "cs = (if wr_signaled (ar_work active) \<or> status \<noteq> Success
       then [if status = Success then completion_success (wr_id (ar_work active)) (completion_opcode active) n
             else completion_failure (wr_id (ar_work active)) (completion_opcode active) status]
       else [])"
proof -
  let ?c = "if status = Success then completion_success (wr_id (ar_work active)) (completion_opcode active) n
             else completion_failure (wr_id (ar_work active)) (completion_opcode active) status"
  let ?s = "s\<lparr>active_memory := None, active_request := None\<rparr>"
  obtain r where r: "release_lease (the_registry st) (active_memory s) = (r, None)" "registry_inv r" "leased r M"
    using assms(2,3) by (rule release_lease_opt)
  show thesis
  proof (cases "wr_signaled (ar_work active) \<or> status \<noteq> Success")
    case True
    obtain q where q: "resolve_reserved_completion (Some ?c) ?s =
        (?s\<lparr>completion_reservations := completion_reservations s - 1, completion_queue := q\<rparr>, 1)"
      "ring_inv q" "ring_capacity q = ring_capacity (completion_queue s)" "ring_list q = ring_list (completion_queue s) @ [?c]"
      using resolve_room [of ?s ?c] assms(4,5) by auto
    have "finish_active status n st = (st\<lparr>the_slot := s\<lparr>active_memory := None, active_request := None,
        completion_reservations := completion_reservations s - 1, completion_queue := q\<rparr>, the_registry := r\<rparr>, 1)"
      using r(1) q(1) True assms(6) unfolding finish_active_def s_def [symmetric] by (simp add: Let_def)
    then show ?thesis using that [of r q "[?c]"] r q True by simp
  next
    case False
    have "finish_active status n st = (st\<lparr>the_slot := s\<lparr>active_memory := None, active_request := None,
        completion_reservations := completion_reservations s - 1, completion_queue := completion_queue s\<rparr>,
        the_registry := r\<rparr>, 0)"
      using r(1) False assms(6) unfolding finish_active_def s_def [symmetric]
      by (simp add: Let_def resolve_reserved_completion_def)
    then show ?thesis using that [of r "completion_queue s" "[]"] r False assms(4) by simp
  qed
qed


lemma finish_receive_step:
  assumes "finish_receive work status n st = (st', m)"
  shows "rc_step others (add_mset work E) st E st' m"
    and "rc_pre (add_mset work E) others st \<Longrightarrow> m = 1 \<and> inbound_memory (the_slot st') = None"
proof -
  have "rc_pre E others st' \<and> m = 1 \<and> inbound_memory (the_slot st') = None \<and>
      (\<exists>cs. length cs = m \<and> rc_books (add_mset work E) (the_slot st) E (the_slot st') cs)"
    if pre: "rc_pre (add_mset work E) others st"
  proof -
    let ?s = "the_slot st"
    have room: "length (ring_list (completion_queue ?s)) < ring_capacity (completion_queue ?s)"
      and slot: "slot_pre (add_mset work E) ?s" and q: "ring_inv (completion_queue ?s)"
      using pre by (auto simp: rc_pre_def slot_pre_def queues_ok_def)
    let ?M = "opt_mset (active_memory ?s) + opt_mset (read_memory ?s)
       + queue_leases (ring_list (send_queue ?s)) + queue_leases (ring_list (receive_queue ?s)) + others"
    have l: "leased (the_registry st) (opt_mset (inbound_memory ?s) + ?M)" and r: "registry_inv (the_registry st)"
      using pre by (simp_all add: rc_pre_def slot_leases_def ac_simps)
    obtain r q c where e: "finish_receive work status n st = (st\<lparr>the_slot := ?s\<lparr>inbound_memory := None,
        completion_reservations := completion_reservations ?s - 1, completion_queue := q\<rparr>, the_registry := r\<rparr>, 1)"
      "registry_inv r" "leased r ?M" "ring_inv q" "ring_capacity q = ring_capacity (completion_queue ?s)"
      "ring_list q = ring_list (completion_queue ?s) @ [c]" "completion_id c = recv_key work"
      using r l q room by (rule finish_receive_eval)
    have st': "st' = st\<lparr>the_slot := ?s\<lparr>inbound_memory := None,
        completion_reservations := completion_reservations ?s - 1, completion_queue := q\<rparr>, the_registry := r\<rparr>" "m = 1"
      using assms unfolding e(1) by auto
    have "rc_pre E others st'"
      using slot e(2-6) by (simp add: st' rc_pre_def slot_pre_def queues_ok_def all_leased_def owed_def slot_leases_def)
    moreover have "rc_books (add_mset work E) ?s E (the_slot st') [c]"
      using e(5-7) unfolding rc_books_def by (auto simp: st' intro!: exI [of _ "{#}"] exI [of _ "{#work#}"])
    ultimately show ?thesis using st' by (auto intro!: exI [of _ "[c]"])
  qed
  then show "rc_step others (add_mset work E) st E st' m"
    "rc_pre (add_mset work E) others st \<Longrightarrow> m = 1 \<and> inbound_memory (the_slot st') = None"
    unfolding rc_step_def by blast+
qed

lemma finish_active_step:
  assumes "finish_active status n st = (st', m)"
  shows "rc_step others E st E st' m"
    and "rc_pre E others st \<Longrightarrow> active_memory (the_slot st') = None"
    and "rc_pre E others st \<Longrightarrow> status \<noteq> Success \<Longrightarrow> m = size (opt_mset (active_request (the_slot st)))"
proof -
  have "rc_pre E others st' \<and> active_memory (the_slot st') = None \<and>
      (status \<noteq> Success \<longrightarrow> m = size (opt_mset (active_request (the_slot st)))) \<and>
      (\<exists>cs. length cs = m \<and> rc_books E (the_slot st) E (the_slot st') cs)"
    if pre: "rc_pre E others st"
  proof -
    let ?s = "the_slot st"
    let ?M = "opt_mset (inbound_memory ?s) + opt_mset (read_memory ?s)
       + queue_leases (ring_list (send_queue ?s)) + queue_leases (ring_list (receive_queue ?s)) + others"
    have slot: "slot_pre E ?s" and q: "ring_inv (completion_queue ?s)"
      using pre by (auto simp: rc_pre_def slot_pre_def queues_ok_def)
    have l: "leased (the_registry st) (opt_mset (active_memory ?s) + ?M)" and r: "registry_inv (the_registry st)"
      using pre by (simp_all add: rc_pre_def slot_leases_def ac_simps)
    show ?thesis
    proof (cases "active_request ?s")
      case None
      obtain r where e: "release_lease (the_registry st) (active_memory ?s) = (r, None)" "registry_inv r" "leased r ?M"
        using r l by (rule release_lease_opt)
      have st': "st' = st\<lparr>the_slot := ?s\<lparr>active_memory := None\<rparr>, the_registry := r\<rparr>" "m = 0"
        using assms e(1) None by (simp_all add: finish_active_def)
      have "rc_pre E others st'"
        using slot e(2,3) by (simp add: st' rc_pre_def slot_pre_def queues_ok_def all_leased_def owed_def slot_leases_def)
      then show ?thesis using None by (auto simp: st' intro!: rc_books_same)
    next
      case (Some active)
      have w: "works ?s = add_mset (ar_work active) (works (?s\<lparr>active_request := None\<rparr>))"
        using Some by (simp add: works_def)
      have room: "length (ring_list (completion_queue ?s)) < ring_capacity (completion_queue ?s)"
        using slot w by (simp add: slot_pre_def owed_def)
      obtain r q cs where e: "finish_active status n st = (st\<lparr>the_slot := ?s\<lparr>active_memory := None,
          active_request := None, completion_reservations := completion_reservations ?s - 1,
          completion_queue := q\<rparr>, the_registry := r\<rparr>, length cs)"
        "registry_inv r" "leased r ?M" "ring_inv q" "ring_capacity q = ring_capacity (completion_queue ?s)"
        "ring_list q = ring_list (completion_queue ?s) @ cs" and
        cs: "cs = (if wr_signaled (ar_work active) \<or> status \<noteq> Success
          then [if status = Success then completion_success (wr_id (ar_work active)) (completion_opcode active) n
             else completion_failure (wr_id (ar_work active)) (completion_opcode active) status]
          else [])"
        using r l q room Some by (rule finish_active_eval)
      have st': "st' = st\<lparr>the_slot := ?s\<lparr>active_memory := None, active_request := None,
          completion_reservations := completion_reservations ?s - 1, completion_queue := q\<rparr>, the_registry := r\<rparr>"
          "m = length cs"
        using assms unfolding e(1) by auto
      have len: "length cs \<le> 1" using cs by simp
      have ids: "image_mset completion_id (mset cs) = image_mset work_id (if cs = [] then {#} else {#ar_work active#})"
        unfolding cs by (simp add: completion_id_def completion_success_def completion_failure_def work_id_def completion_opcode_def)
      have "rc_pre E others st'"
        using slot e(2-6) w len
        by (simp add: st' rc_pre_def slot_pre_def queues_ok_def all_leased_def owed_def slot_leases_def) (simp add: works_def)
      moreover have "rc_books E ?s E (the_slot st') cs"
        unfolding rc_books_def
      proof (intro conjI exI)
        show "works ?s = works (the_slot st') + (if cs = [] then {#} else {#ar_work active#}) +
            (if cs = [] then {#ar_work active#} else {#})"
          using w by (simp add: st' works_def)
        show "receives ?s + E = receives (the_slot st') + E + {#}" by (simp add: st')
        show "\<forall>w \<in># if cs = [] then {#ar_work active#} else {#}. \<not> wr_signaled w" using cs by (simp split: if_splits)
      qed (use e(5,6) ids in \<open>simp_all add: st'\<close>)
      moreover have "status \<noteq> Success \<longrightarrow> m = size (opt_mset (active_request ?s))" using st' Some cs by simp
      moreover have "active_memory (the_slot st') = None" by (simp add: st')
      ultimately show ?thesis using st'(2) [symmetric] by (intro conjI exI [of _ cs]) assumption+
    qed
  qed
  then show "rc_step others E st E st' m" "rc_pre E others st \<Longrightarrow> active_memory (the_slot st') = None"
    "rc_pre E others st \<Longrightarrow> status \<noteq> Success \<Longrightarrow> m = size (opt_mset (active_request (the_slot st)))"
    unfolding rc_step_def by blast+
qed


lemma rc_pre_release_inbound:
  assumes "rc_pre E others st"
  shows "rc_pre E others (release_inbound st) \<and> inbound_memory (the_slot (release_inbound st)) = None"
proof -
  let ?s = "the_slot st"
  have "registry_inv (the_registry st)"
    and "leased (the_registry st) (opt_mset (inbound_memory ?s) + (opt_mset (active_memory ?s) + opt_mset (read_memory ?s)
       + queue_leases (ring_list (send_queue ?s)) + queue_leases (ring_list (receive_queue ?s)) + others))"
    using assms by (simp_all add: rc_pre_def slot_leases_def ac_simps)
  then show ?thesis
    by (rule release_lease_opt) (use assms in \<open>simp add: release_inbound_def rc_pre_def slot_pre_def
      queues_ok_def all_leased_def owed_def slot_leases_def\<close>)
qed

lemma rc_pre_release_read:
  assumes "rc_pre E others st"
  shows "rc_pre E others (release_read st) \<and> read_memory (the_slot (release_read st)) = None"
proof -
  let ?s = "the_slot st"
  have "registry_inv (the_registry st)"
    and "leased (the_registry st) (opt_mset (read_memory ?s) + (opt_mset (active_memory ?s) + opt_mset (inbound_memory ?s)
       + queue_leases (ring_list (send_queue ?s)) + queue_leases (ring_list (receive_queue ?s)) + others))"
    using assms by (simp_all add: rc_pre_def slot_leases_def ac_simps)
  then show ?thesis
    by (rule release_lease_opt) (use assms in \<open>simp add: release_read_def rc_pre_def slot_pre_def
      queues_ok_def all_leased_def owed_def slot_leases_def\<close>)
qed

lemma release_step:
  "rc_step others E st E (release_inbound st) 0" "rc_step others E st E (release_read st) 0"
  using rc_pre_release_inbound [of E others st] rc_pre_release_read [of E others st]
  by (auto simp: rc_step_def release_inbound_def release_read_def case_prod_beta intro!: rc_books_same)

section \<open>Flushing\<close>

definition rc_frame :: "rc_state \<Rightarrow> rc_state \<Rightarrow> bool" where
  "rc_frame st st' \<longleftrightarrow> the_store st' = the_store st \<and> the_stats st' = the_stats st \<and>
     machine (the_slot st') = machine (the_slot st) \<and> qs_path (the_slot st') = qs_path (the_slot st) \<and>
     qs_rnr_nak_timer (the_slot st') = qs_rnr_nak_timer (the_slot st) \<and>
     send_window (the_slot st') = send_window (the_slot st) \<and>
     qs_receive_psn (the_slot st') = qs_receive_psn (the_slot st) \<and>
     message_sequence_number (the_slot st') = message_sequence_number (the_slot st) \<and>
     qs_generation (the_slot st') = qs_generation (the_slot st) \<and>
     requester_scheduled (the_slot st') = requester_scheduled (the_slot st) \<and>
     responder_scheduled (the_slot st') = responder_scheduled (the_slot st) \<and>
     timer_sequence (the_slot st') = timer_sequence (the_slot st)"

lemma rc_frame_refl [simp]: "rc_frame st st"
  by (simp add: rc_frame_def)

lemma rc_frame_trans: "rc_frame st st' \<Longrightarrow> rc_frame st' st'' \<Longrightarrow> rc_frame st st''"
  by (simp add: rc_frame_def)

lemma resolve_frame_all:
  "resolve_reserved_completion c s = (s', n) \<Longrightarrow>
   \<exists>q. s' = s\<lparr>completion_reservations := completion_reservations s - 1, completion_queue := q\<rparr>"
  by (cases s) (auto simp: resolve_reserved_completion_def Let_def split: option.splits prod.splits sum.splits)

lemma finish_active_frame: "finish_active status n st = (st', m) \<Longrightarrow> rc_frame st st' \<and>
   active_request (the_slot st') = None \<and> inbound_message (the_slot st') = inbound_message (the_slot st) \<and>
   inbound_memory (the_slot st') = inbound_memory (the_slot st) \<and>
   read_response (the_slot st') = read_response (the_slot st) \<and> read_memory (the_slot st') = read_memory (the_slot st) \<and>
   read_replay (the_slot st') = read_replay (the_slot st) \<and>
   send_queue (the_slot st') = send_queue (the_slot st) \<and> receive_queue (the_slot st') = receive_queue (the_slot st)"
  by (auto simp: finish_active_def rc_frame_def Let_def split: prod.splits option.splits dest!: resolve_frame_all)

lemma finish_receive_frame_all: "finish_receive w status n st = (st', m) \<Longrightarrow> rc_frame st st' \<and>
   active_request (the_slot st') = active_request (the_slot st) \<and> inbound_message (the_slot st') = inbound_message (the_slot st) \<and>
   active_memory (the_slot st') = active_memory (the_slot st) \<and>
   read_response (the_slot st') = read_response (the_slot st) \<and> read_memory (the_slot st') = read_memory (the_slot st) \<and>
   read_replay (the_slot st') = read_replay (the_slot st) \<and>
   send_queue (the_slot st') = send_queue (the_slot st) \<and> receive_queue (the_slot st') = receive_queue (the_slot st)"
  by (auto simp: finish_receive_def rc_frame_def Let_def split: prod.splits option.splits dest!: resolve_frame_all)


lemma queue_leases_Cons [simp]: "queue_leases (p # ps) = opt_mset (posted_lease p) + queue_leases ps"
  by (simp add: queue_leases_def)

lemma queue_leases_Nil [simp]: "queue_leases [] = {#}"
  by (simp add: queue_leases_def)

lemma flush_send_one:
  assumes pre: "rc_pre E others st" and pop: "ring_pop (send_queue (the_slot st)) = (q, Some posted)"
  obtains r cq c where
    "release_lease (the_registry st) (posted_lease posted) = (r, None)"
    "resolve_reserved_completion
       (Some (completion_failure (wr_id (posted_work posted)) (kind_opcode (wr_kind (posted_work posted))) Flushed))
       ((the_slot st)\<lparr>send_queue := q\<rparr>) =
     ((the_slot st)\<lparr>send_queue := q, completion_reservations := completion_reservations (the_slot st) - 1,
        completion_queue := cq\<rparr>, 1)"
    "rc_pre E others (st\<lparr>the_slot := (the_slot st)\<lparr>send_queue := q,
        completion_reservations := completion_reservations (the_slot st) - 1, completion_queue := cq\<rparr>, the_registry := r\<rparr>)"
    "rc_books E (the_slot st) E ((the_slot st)\<lparr>send_queue := q,
        completion_reservations := completion_reservations (the_slot st) - 1, completion_queue := cq\<rparr>) [c]"
proof -
  let ?s = "the_slot st"
  let ?w = "posted_work posted"
  let ?c = "completion_failure (wr_id ?w) (kind_opcode (wr_kind ?w)) Flushed"
  have slot: "slot_pre E ?s" and inv: "ring_inv (send_queue ?s)" "ring_inv (completion_queue ?s)"
    using pre by (simp_all add: rc_pre_def slot_pre_def queues_ok_def)
  note q = ring.pop_oldest [OF inv(1) pop]
  let ?M = "opt_mset (active_memory ?s) + opt_mset (inbound_memory ?s) + opt_mset (read_memory ?s)
       + queue_leases (ring_list q) + queue_leases (ring_list (receive_queue ?s)) + others"
  have "registry_inv (the_registry st)" "leased (the_registry st) (opt_mset (posted_lease posted) + ?M)"
    using pre by (simp_all add: rc_pre_def slot_leases_def q ac_simps)
  then obtain r where r: "release_lease (the_registry st) (posted_lease posted) = (r, None)" "registry_inv r" "leased r ?M"
    by (rule release_lease_opt)
  have w: "works ?s = add_mset ?w (works (?s\<lparr>send_queue := q\<rparr>))"
    by (simp add: works_def q)
  have room: "length (ring_list (completion_queue ?s)) < ring_capacity (completion_queue ?s)"
    using slot w by (simp add: slot_pre_def owed_def)
  obtain cq where cq: "resolve_reserved_completion (Some ?c) (?s\<lparr>send_queue := q\<rparr>) =
     (?s\<lparr>send_queue := q, completion_reservations := completion_reservations ?s - 1, completion_queue := cq\<rparr>, 1)"
    "ring_inv cq" "ring_capacity cq = ring_capacity (completion_queue ?s)" "ring_list cq = ring_list (completion_queue ?s) @ [?c]"
    using resolve_room [of "?s\<lparr>send_queue := q\<rparr>" ?c] inv room by auto
  let ?s' = "?s\<lparr>send_queue := q, completion_reservations := completion_reservations ?s - 1, completion_queue := cq\<rparr>"
  have w': "works ?s = add_mset ?w (works ?s')" "receives ?s' = receives ?s"
    by (simp_all add: works_def receives_def q)
  have "rc_pre E others (st\<lparr>the_slot := ?s', the_registry := r\<rparr>)"
    using slot r cq q w' unfolding rc_pre_def
    by (simp add: slot_pre_def queues_ok_def all_leased_def slot_leases_def) (simp add: owed_def)
  moreover have "rc_books E ?s E ?s' [?c]"
    using cq(3,4) w' unfolding rc_books_def
    by (intro conjI exI [of _ "{#?w#}"] exI [of _ "{#}"])
      (simp_all add: completion_id_def completion_failure_def work_id_def)
  ultimately show thesis using that r(1) cq(1) by blast
qed

lemma flush_receive_one:
  assumes pre: "rc_pre E others st" and pop: "ring_pop (receive_queue (the_slot st)) = (q, Some posted)"
  obtains r where
    "release_lease (the_registry st) (posted_lease posted) = (r, None)"
    "rc_pre (add_mset (posted_work posted) E) others (st\<lparr>the_slot := (the_slot st)\<lparr>receive_queue := q\<rparr>, the_registry := r\<rparr>)"
    "rc_books E (the_slot st) (add_mset (posted_work posted) E) ((the_slot st)\<lparr>receive_queue := q\<rparr>) []"
proof -
  let ?s = "the_slot st"
  let ?w = "posted_work posted"
  have slot: "slot_pre E ?s" and inv: "ring_inv (receive_queue ?s)"
    using pre by (simp_all add: rc_pre_def slot_pre_def queues_ok_def)
  note q = ring.pop_oldest [OF inv(1) pop]
  let ?M = "opt_mset (active_memory ?s) + opt_mset (inbound_memory ?s) + opt_mset (read_memory ?s)
       + queue_leases (ring_list (send_queue ?s)) + queue_leases (ring_list q) + others"
  have "registry_inv (the_registry st)" "leased (the_registry st) (opt_mset (posted_lease posted) + ?M)"
    using pre by (simp_all add: rc_pre_def slot_leases_def q ac_simps)
  then obtain r where r: "release_lease (the_registry st) (posted_lease posted) = (r, None)" "registry_inv r" "leased r ?M"
    by (rule release_lease_opt)
  let ?s' = "?s\<lparr>receive_queue := q\<rparr>"
  have w': "receives ?s = add_mset ?w (receives ?s')" "works ?s' = works ?s"
    by (simp_all add: works_def receives_def q)
  have "rc_pre (add_mset ?w E) others (st\<lparr>the_slot := ?s', the_registry := r\<rparr>)"
    using slot r q w' unfolding rc_pre_def
    by (simp add: slot_pre_def queues_ok_def all_leased_def slot_leases_def) (simp add: owed_def)
  moreover have "rc_books E ?s (add_mset ?w E) ?s' []"
    using w' by (intro rc_books_same) simp_all
  ultimately show thesis using that r(1) by blast
qed


text \<open>The fields of a queue pair other than its books, its queues and its inbound lease.\<close>

definition rc_rest :: "rc_state \<Rightarrow> rc_state \<Rightarrow> bool" where
  "rc_rest st st' \<longleftrightarrow> rc_frame st st' \<and>
     active_request (the_slot st') = active_request (the_slot st) \<and>
     active_memory (the_slot st') = active_memory (the_slot st) \<and>
     inbound_message (the_slot st') = inbound_message (the_slot st) \<and>
     read_response (the_slot st') = read_response (the_slot st) \<and>
     read_memory (the_slot st') = read_memory (the_slot st) \<and>
     read_replay (the_slot st') = read_replay (the_slot st)"

lemma rc_rest_refl [simp]: "rc_rest st st"
  by (simp add: rc_rest_def)

lemma rc_rest_trans: "rc_rest st st' \<Longrightarrow> rc_rest st' st'' \<Longrightarrow> rc_rest st st''"
  by (auto simp: rc_rest_def intro: rc_frame_trans)

lemma flush_send_all:
  assumes "rc_pre E others st"
  shows "rc_pre E others (fst (flush_send st)) \<and>
    (\<exists>cs. length cs = snd (flush_send st) \<and> rc_books E (the_slot st) E (the_slot (fst (flush_send st))) cs) \<and>
    ring_list (send_queue (the_slot (fst (flush_send st)))) = [] \<and> rc_rest st (fst (flush_send st)) \<and>
    receive_queue (the_slot (fst (flush_send st))) = receive_queue (the_slot st) \<and>
    snd (flush_send st) = length (ring_list (send_queue (the_slot st))) \<and>
    inbound_memory (the_slot (fst (flush_send st))) = inbound_memory (the_slot st)"
  using assms
proof (induction st rule: flush_send.induct)
  case (1 st)
  have inv: "ring_inv (send_queue (the_slot st))"
    using 1(2) by (simp add: rc_pre_def slot_pre_def queues_ok_def)
  obtain q p where pop: "ring_pop (send_queue (the_slot st)) = (q, p)" by fastforce
  show ?case
  proof (cases p)
    case None
    then show ?thesis using 1(2) pop ring.pop_nothing [OF inv] by (simp add: flush_send.simps [of st])
  next
    case (Some posted)
    obtain r cq c where e: "release_lease (the_registry st) (posted_lease posted) = (r, None)"
      "resolve_reserved_completion
         (Some (completion_failure (wr_id (posted_work posted)) (kind_opcode (wr_kind (posted_work posted))) Flushed))
         ((the_slot st)\<lparr>send_queue := q\<rparr>) =
       ((the_slot st)\<lparr>send_queue := q, completion_reservations := completion_reservations (the_slot st) - 1,
          completion_queue := cq\<rparr>, 1)" and
      st: "rc_pre E others (st\<lparr>the_slot := (the_slot st)\<lparr>send_queue := q,
          completion_reservations := completion_reservations (the_slot st) - 1, completion_queue := cq\<rparr>, the_registry := r\<rparr>)"
      and b: "rc_books E (the_slot st) E ((the_slot st)\<lparr>send_queue := q,
          completion_reservations := completion_reservations (the_slot st) - 1, completion_queue := cq\<rparr>) [c]"
      using flush_send_one [OF 1(2)] pop Some by metis
    let ?st = "st\<lparr>the_slot := (the_slot st)\<lparr>send_queue := q,
          completion_reservations := completion_reservations (the_slot st) - 1, completion_queue := cq\<rparr>, the_registry := r\<rparr>"
    obtain st' m where f: "flush_send ?st = (st', m)" by fastforce
    have step: "flush_send st = (st', 1 + m)"
      using pop Some e f by (simp add: flush_send.simps [of st])
    have IH: "rc_pre E others st' \<and> (\<exists>cs. length cs = m \<and> rc_books E (the_slot ?st) E (the_slot st') cs) \<and>
        ring_list (send_queue (the_slot st')) = [] \<and> rc_rest ?st st' \<and>
        receive_queue (the_slot st') = receive_queue (the_slot ?st) \<and> m = length (ring_list q) \<and>
        inbound_memory (the_slot st') = inbound_memory (the_slot ?st)"
      using "1.IH" [OF pop [symmetric] Some refl e(1) [symmetric] refl refl e(2) [symmetric] refl st] f by auto
    then obtain cs where cs: "length cs = m" "rc_books E (the_slot ?st) E (the_slot st') cs" by blast
    have "rc_books E (the_slot st) E (the_slot st') ([c] @ cs)"
      using rc_books_trans [OF b] cs(2) by simp
    then have "\<exists>cs. length cs = 1 + m \<and> rc_books E (the_slot st) E (the_slot st') cs"
      using cs(1) by (intro exI [of _ "[c] @ cs"]) simp
    moreover have "rc_rest st ?st" by (simp add: rc_rest_def rc_frame_def)
    moreover have "ring_list (send_queue (the_slot st)) = posted # ring_list q"
      using ring.pop_oldest(1) [OF inv] pop Some by simp
    ultimately show ?thesis using IH by (auto simp: step intro: rc_rest_trans)
  qed
qed


lemma flush_receive_all:
  assumes "rc_pre E others st"
  shows "rc_pre E others (fst (flush_receive st)) \<and>
    (\<exists>cs. length cs = snd (flush_receive st) \<and> rc_books E (the_slot st) E (the_slot (fst (flush_receive st))) cs) \<and>
    ring_list (receive_queue (the_slot (fst (flush_receive st)))) = [] \<and> rc_rest st (fst (flush_receive st)) \<and>
    send_queue (the_slot (fst (flush_receive st))) = send_queue (the_slot st) \<and>
    snd (flush_receive st) = length (ring_list (receive_queue (the_slot st))) \<and>
    (inbound_memory (the_slot st) = None \<longrightarrow> inbound_memory (the_slot (fst (flush_receive st))) = None)"
  using assms
proof (induction st rule: flush_receive.induct)
  case (1 st)
  have inv: "ring_inv (receive_queue (the_slot st))"
    using 1(2) by (simp add: rc_pre_def slot_pre_def queues_ok_def)
  obtain q p where pop: "ring_pop (receive_queue (the_slot st)) = (q, p)" by fastforce
  show ?case
  proof (cases p)
    case None
    then show ?thesis using 1(2) pop ring.pop_nothing [OF inv] by (simp add: flush_receive.simps [of st])
  next
    case (Some posted)
    obtain r where e: "release_lease (the_registry st) (posted_lease posted) = (r, None)" and
      st1: "rc_pre (add_mset (posted_work posted) E) others
        (st\<lparr>the_slot := (the_slot st)\<lparr>receive_queue := q\<rparr>, the_registry := r\<rparr>)" and
      b1: "rc_books E (the_slot st) (add_mset (posted_work posted) E) ((the_slot st)\<lparr>receive_queue := q\<rparr>) []"
      using flush_receive_one [OF 1(2)] pop Some by metis
    let ?st = "st\<lparr>the_slot := (the_slot st)\<lparr>receive_queue := q\<rparr>, the_registry := r\<rparr>"
    obtain st2 n where fin: "finish_receive (posted_work posted) Flushed 0 ?st = (st2, n)" by fastforce
    obtain cs2 where st2: "rc_pre E others st2" "length cs2 = n"
        "rc_books (add_mset (posted_work posted) E) (the_slot ?st) E (the_slot st2) cs2"
      using finish_receive_step(1) [OF fin, of others E] st1 by (auto simp: rc_step_def)
    have mem2: "inbound_memory (the_slot st2) = None" "n = 1"
      using finish_receive_step(2) [OF fin] st1 by blast+
    obtain st' m where f: "flush_receive st2 = (st', m)" by fastforce
    have step: "flush_receive st = (st', n + m)"
      using pop Some e fin f by (simp add: flush_receive.simps [of st])
    have IH: "rc_pre E others st' \<and> (\<exists>cs. length cs = m \<and> rc_books E (the_slot st2) E (the_slot st') cs) \<and>
        ring_list (receive_queue (the_slot st')) = [] \<and> rc_rest st2 st' \<and>
        send_queue (the_slot st') = send_queue (the_slot st2) \<and> m = length (ring_list (receive_queue (the_slot st2))) \<and>
        (inbound_memory (the_slot st2) = None \<longrightarrow> inbound_memory (the_slot st') = None)"
      using "1.IH" [OF pop [symmetric] Some refl e [symmetric] refl fin [symmetric] refl st2(1)] f by auto
    then obtain cs where cs: "length cs = m" "rc_books E (the_slot st2) E (the_slot st') cs" by blast
    have "rc_books E (the_slot st) E (the_slot st') ([] @ cs2 @ cs)"
      using rc_books_trans [OF b1 rc_books_trans [OF _ cs(2)]] st2(3) by simp
    then have "\<exists>cs. length cs = n + m \<and> rc_books E (the_slot st) E (the_slot st') cs"
      using cs(1) st2(2) by (intro exI [of _ "[] @ cs2 @ cs"]) simp
    moreover have "rc_rest st st2 \<and> send_queue (the_slot st2) = send_queue (the_slot st) \<and>
        ring_list (receive_queue (the_slot st)) = posted # ring_list (receive_queue (the_slot st2))"
      using finish_receive_frame_all [OF fin] ring.pop_oldest(1) [OF inv] pop Some by (simp add: rc_rest_def rc_frame_def)
    ultimately show ?thesis using IH mem2 by (auto simp: step intro: rc_rest_trans)
  qed
qed

text \<open>A queue pair that owns nothing: no work, no leases, nothing half received.\<close>

definition emptied :: "RcQpSlot \<Rightarrow> bool" where
  "emptied s \<longleftrightarrow> active_request s = None \<and> active_memory s = None \<and> inbound_message s = None \<and>
     inbound_memory s = None \<and> read_response s = None \<and> read_memory s = None \<and> read_replay s = None \<and>
     ring_list (send_queue s) = [] \<and> ring_list (receive_queue s) = []"

lemma emptied_owns: "emptied s \<Longrightarrow> works s = {#} \<and> receives s = {#} \<and> slot_leases s = {#} \<and> memory_held s"
  by (simp add: emptied_def works_def receives_def inbound_receives_def slot_leases_def memory_held_def)

text \<open>Taking the message being received and, for a SEND, finishing its receive.\<close>

lemma take_inbound_step:
  assumes 3: "(case inbound_message (the_slot st) of
      Some (InboundSend work _) \<Rightarrow> finish_receive work status 0 (st\<lparr>the_slot := (the_slot st)\<lparr>inbound_message := None\<rparr>\<rparr>)
    | _ \<Rightarrow> (st\<lparr>the_slot := (the_slot st)\<lparr>inbound_message := None\<rparr>\<rparr>, 0)) = (st', n)"
  shows "rc_step others E st E st' n" "rc_frame st st'" "inbound_message (the_slot st') = None"
    "active_memory (the_slot st') = active_memory (the_slot st)" "active_request (the_slot st') = active_request (the_slot st)"
    "rc_pre E others st \<Longrightarrow> n = size (inbound_receives (inbound_message (the_slot st)))"
    "send_queue (the_slot st') = send_queue (the_slot st)" "receive_queue (the_slot st') = receive_queue (the_slot st)"
proof -
  let ?st2 = "st\<lparr>the_slot := (the_slot st)\<lparr>inbound_message := None\<rparr>\<rparr>"
  have "rc_step others E st E st' n \<and> rc_frame ?st2 st' \<and> active_memory (the_slot st') = active_memory (the_slot st) \<and>
      active_request (the_slot st') = active_request (the_slot st) \<and> inbound_message (the_slot st') = None \<and>
      (rc_pre E others st \<longrightarrow> n = size (inbound_receives (inbound_message (the_slot st)))) \<and>
      send_queue (the_slot st') = send_queue (the_slot st) \<and> receive_queue (the_slot st') = receive_queue (the_slot st)"
  proof (cases "\<exists>w b. inbound_message (the_slot st) = Some (InboundSend w b)")
    case True
    then obtain w b where m: "inbound_message (the_slot st) = Some (InboundSend w b)" by blast
    have fin: "finish_receive w status 0 ?st2 = (st', n)" using 3 m by simp
    have 1: "rc_step others E st (add_mset w E) ?st2 0"
      using m by (intro rc_step_frame)
        (simp_all add: slot_pre_def queues_ok_def all_leased_def owed_def works_def receives_def inbound_receives_def)
    then have "rc_step others E st E st' (0 + n)"
      using finish_receive_step(1) [OF fin] by (rule rc_step_trans)
    moreover have "rc_pre E others st \<longrightarrow> n = 1"
      using 1 finish_receive_step(2) [OF fin, of E others] by (auto simp: rc_step_def)
    ultimately show ?thesis using finish_receive_frame_all [OF fin] m by (simp add: inbound_receives_def)
  next
    case False
    then have e: "st' = ?st2" "n = 0" "inbound_receives (inbound_message (the_slot st)) = {#}"
      using 3 by (auto simp: inbound_receives_def split: option.splits InboundMessage.splits)
    have "rc_step others E st E st' n"
      unfolding e using e(3) by (intro rc_step_frame)
        (simp_all add: slot_pre_def queues_ok_def all_leased_def owed_def works_def receives_def inbound_receives_def)
    then show ?thesis using e(3) by (simp add: e(1,2))
  qed
  then show "rc_step others E st E st' n" "rc_frame st st'" "inbound_message (the_slot st') = None"
    "active_memory (the_slot st') = active_memory (the_slot st)" "active_request (the_slot st') = active_request (the_slot st)"
    "rc_pre E others st \<Longrightarrow> n = size (inbound_receives (inbound_message (the_slot st)))"
    "send_queue (the_slot st') = send_queue (the_slot st)" "receive_queue (the_slot st') = receive_queue (the_slot st)"
    by (simp_all add: rc_frame_def)
qed

lemma release_both:
  fixes st
  defines "st' \<equiv> (let st = release_read (release_inbound st)
     in st\<lparr>the_slot := (the_slot st)\<lparr>read_response := None, read_replay := None\<rparr>\<rparr>)"
  assumes pre: "rc_pre E others st"
  shows "rc_step others E st E st' 0" "rc_frame st st'" "inbound_memory (the_slot st') = None"
    "read_memory (the_slot st') = None" "read_response (the_slot st') = None" "read_replay (the_slot st') = None"
    "active_request (the_slot st') = active_request (the_slot st)" "active_memory (the_slot st') = active_memory (the_slot st)"
    "inbound_message (the_slot st') = inbound_message (the_slot st)"
    "send_queue (the_slot st') = send_queue (the_slot st)" "receive_queue (the_slot st') = receive_queue (the_slot st)"
proof -
  let ?st1 = "release_read (release_inbound st)"
  have "rc_step others E ?st1 E st' 0" unfolding st'_def Let_def
    by (intro rc_step_frame) (simp_all add: slot_pre_def queues_ok_def all_leased_def owed_def works_def receives_def)
  then show "rc_step others E st E st' 0"
    using rc_step_trans [OF rc_step_trans [OF release_step(1) release_step(2)]] by fastforce
  have "rc_pre E others (release_inbound st)" "inbound_memory (the_slot (release_inbound st)) = None"
    using rc_pre_release_inbound [OF pre] by simp_all
  then show "inbound_memory (the_slot st') = None" "read_memory (the_slot st') = None"
    using rc_pre_release_read [of E others "release_inbound st"]
    by (simp_all add: st'_def Let_def) (simp add: release_read_def case_prod_beta)
qed (simp_all add: st'_def rc_frame_def release_read_def release_inbound_def case_prod_beta Let_def)

lemma flush_pending_all:
  assumes pre: "rc_pre E others st" and f: "flush_pending st = (st', n)"
  shows "rc_step others E st E st' n" "emptied (the_slot st')" "rc_frame st st'" "n = size (owed (the_slot st))"
proof -
  obtain st1 g1 where 1: "finish_active Flushed 0 st = (st1, g1)" by fastforce
  obtain st2 g2 where 2: "(case inbound_message (the_slot st1) of
      Some (InboundSend work _) \<Rightarrow> finish_receive work Flushed 0 (st1\<lparr>the_slot := (the_slot st1)\<lparr>inbound_message := None\<rparr>\<rparr>)
    | _ \<Rightarrow> (st1\<lparr>the_slot := (the_slot st1)\<lparr>inbound_message := None\<rparr>\<rparr>, 0)) = (st2, g2)"
    by fastforce
  let ?st3 = "let st = release_read (release_inbound st2)
     in st\<lparr>the_slot := (the_slot st)\<lparr>read_response := None, read_replay := None\<rparr>\<rparr>"
  obtain st4 g3 where 4: "flush_send ?st3 = (st4, g3)" by fastforce
  obtain st5 g4 where 5: "flush_receive st4 = (st5, g4)" by fastforce
  have st': "st' = st5" "n = g1 + g2 + 0 + g3 + g4"
    using f 1 2 4 5 by (simp_all add: flush_pending_def Let_def)
  have s1: "rc_step others E st E st1 g1" "active_memory (the_slot st1) = None"
      "g1 = size (opt_mset (active_request (the_slot st)))"
    using finish_active_step [OF 1] pre by blast+
  note f1 = finish_active_frame [OF 1]
  note s2 = take_inbound_step [OF 2]
  have p2: "rc_pre E others st2" using s1(1) s2(1) pre by (simp add: rc_step_def)
  note s3 = release_both [OF p2]
  have p3: "rc_pre E others ?st3" using s3(1) p2 unfolding rc_step_def by blast
  note s4 = flush_send_all [OF p3, unfolded 4 fst_conv snd_conv]
  have p4: "rc_pre E others st4" using s4 by blast
  note s5 = flush_receive_all [OF p4, unfolded 5 fst_conv snd_conv]
  have "rc_step others E ?st3 E st4 g3" "rc_step others E st4 E st5 g4"
    unfolding rc_step_def using s4 s5 by blast+
  then show "rc_step others E st E st' n"
    unfolding st' by (intro rc_step_trans [OF rc_step_trans [OF rc_step_trans [OF rc_step_trans [OF s1(1) s2(1)] s3(1)]]])
  show "emptied (the_slot st')"
    using s4 s5 s3 s2 s1(2) f1 by (simp add: emptied_def st' rc_rest_def)
  show "rc_frame st st'"
    using s4 s5 s3(2) s2(2) f1 unfolding st' rc_rest_def by (meson rc_frame_trans)
  have "g2 = size (inbound_receives (inbound_message (the_slot st)))"
    using s2(6) [of E others] s1(1) pre f1 by (simp add: rc_step_def)
  then show "n = size (owed (the_slot st))"
    using s1(3) s4 s5 s3 s2 f1
    by (simp add: st' owed_def works_def receives_def opt_mset_def size_mset split: option.splits)
qed

lemma enter_error_all:
  assumes pre: "rc_pre E others st" and e: "enter_error st = (st', n)"
  shows "rc_step others E st E st' n" "emptied (the_slot st')"
    "rc_frame (st\<lparr>the_slot := (the_slot st)\<lparr>machine :=
       (if qp_state (machine (the_slot st)) \<noteq> Error then fst (qp_transition (machine (the_slot st)) Error)
        else machine (the_slot st))\<rparr>\<rparr>) st'"
    "n = size (owed (the_slot st))"
proof -
  let ?m = "if qp_state (machine (the_slot st)) \<noteq> Error then fst (qp_transition (machine (the_slot st)) Error)
        else machine (the_slot st)"
  let ?st = "st\<lparr>the_slot := (the_slot st)\<lparr>machine := ?m\<rparr>\<rparr>"
  have f: "flush_pending ?st = (st', n)"
    using e by (cases "qp_state (machine (the_slot st)) = Error") (simp_all add: enter_error_def Let_def)
  have p: "rc_pre E others ?st" using pre by (simp add: rc_pre_def)
  show "rc_step others E st E st' n"
    using rc_step_trans [OF _ flush_pending_all(1) [OF p f], of E st 0] by (simp add: rc_step_frame)
  show "emptied (the_slot st')" "rc_frame ?st st'" using flush_pending_all(2,3) [OF p f] by blast+
  show "n = size (owed (the_slot st))"
    using flush_pending_all(4) [OF p f] by (simp add: owed_def)
qed


section \<open>The error state\<close>

lemma rc_books_settled:
  assumes "rc_books {#} s {#} s' cs" "works s' = {#}" "receives s' = {#}" "length cs = size (owed s)"
  shows "image_mset completion_id (mset cs) = owed s"
proof -
  obtain W R silent where e: "works s = works s' + W + silent" "receives s + {#} = receives s' + {#} + R"
    "image_mset completion_id (mset cs) = image_mset work_id W + image_mset recv_key R"
    using assms(1) unfolding rc_books_def by blast
  have "size (image_mset completion_id (mset cs)) = length cs" by simp
  then have "length cs = size W + size R" unfolding e(3) by (simp del: size_mset)
  moreover have "size (owed s) = size W + size silent + size R"
    using e(1,2) assms(2,3) by (simp add: owed_def)
  ultimately have "silent = {#}" using assms(4) by simp
  then show ?thesis using e assms(2,3) by (simp add: owed_def)
qed

text \<open>A concrete queue pair with one posted receive on the region of the sample registry.\<close>

definition sample_lease :: RegionLease where
  "sample_lease = \<lparr>lease_registry = 1, lease_slot = 0, lease_generation = 1\<rparr>"

definition sample_recv :: RecvWorkRequest where
  "sample_recv = \<lparr>recv_id = 7, recv_sge = \<lparr>sge_address = 4096, sge_length = 64, sge_lkey = 69794299\<rparr>\<rparr>"

definition sample_config :: QpConfig where
  "sample_config = \<lparr>local_qpn = 17, remote_qpn = 18, send_psn = Psn 5, receive_psn = Psn 9, path_mtu = Mtu256,
     retry_count = 3, rnr_retry_count = 3, timeout = 14\<rparr>"

definition sample_qp :: "RegionLease option list \<Rightarrow> RcQpSlot" where
  "sample_qp ls = \<lparr>qs_generation = 1, machine = \<lparr>qp_state = Rts, qp_config = sample_config\<rparr>, qs_path = sample_path,
     qs_rnr_nak_timer = 12, send_window = send_window_new (Psn 5), qs_receive_psn = receive_psn_new (Psn 9),
     send_queue = ring_new 2,
     receive_queue = foldl (\<lambda>q l. fst (ring_push q \<lparr>posted_work = sample_recv, posted_lease = l\<rparr>)) (ring_new 2) ls,
     completion_queue = ring_new 4, completion_reservations = length ls, active_request = None, active_memory = None,
     inbound_memory = None, read_memory = None, inbound_message = None, read_response = None, read_replay = None,
     message_sequence_number = psn_zero, requester_scheduled = False, responder_scheduled = False, timer_sequence = 0\<rparr>"

definition sample_state :: rc_state where
  "sample_state = \<lparr>the_slot = sample_qp [Some sample_lease], the_registry = sample_live 1, the_store = (\<lambda>_. 0),
     the_stats = stats_default\<rparr>"

lemma sample_registry_inv: "registry_inv (sample_live 0)" "registry_inv (sample_live 1)"
    "leased (sample_live 0) {#}" "leased (sample_live 1) {#sample_lease#}"
proof -
  have w: "world_ok (sample_registry, (), [])" by (rule registry_new_ok [OF sample_registry_new])
  show inv: "registry_inv (sample_live 0)"
    using register_inv [OF _ sample_register [of "()"]] w by simp
  have "leased sample_registry {#}" by (rule leased_new [OF sample_registry_new])
  then show l: "leased (sample_live 0) {#}"
    using w by (intro leased_register [OF _ _ sample_register [of "()"]]) simp_all
  show "registry_inv (sample_live 1)" "leased (sample_live 1) {#sample_lease#}"
    using leased_retain [OF inv l sample_retain] by (simp_all add: sample_lease_def)
qed

lemma sample_queue: "receive_queue (sample_qp [Some sample_lease]) =
    \<lparr>ring_slots = [Some \<lparr>posted_work = sample_recv, posted_lease = Some sample_lease\<rparr>, None],
      ring_head = 0, ring_tail = 1, ring_len = 1\<rparr>"
  by (simp add: sample_qp_def ring_push_def ring_new_def ring_capacity_def ring_is_full_def numeral_2_eq_2)

lemma sample_queue_inv: "ring_inv (receive_queue (sample_qp [Some sample_lease]))"
    "ring_list (receive_queue (sample_qp [Some sample_lease])) = [\<lparr>posted_work = sample_recv, posted_lease = Some sample_lease\<rparr>]"
  unfolding sample_queue by (auto simp: ring_inv_def ring_capacity_def ring_list_def less_Suc_eq numeral_2_eq_2)

lemma sample_qp_fields:
  "send_queue (sample_qp ls) = ring_new 2" "completion_queue (sample_qp ls) = ring_new 4"
  "completion_reservations (sample_qp ls) = length ls" "active_request (sample_qp ls) = None"
  "active_memory (sample_qp ls) = None" "inbound_memory (sample_qp ls) = None" "read_memory (sample_qp ls) = None"
  "inbound_message (sample_qp ls) = None" "read_response (sample_qp ls) = None"
  by (simp_all add: sample_qp_def)

lemma sample_state_inv: "rc_inv {#} sample_state"
proof -
  have "owed (sample_qp [Some sample_lease]) = {#recv_key sample_recv#}"
    by (simp add: owed_def works_def receives_def sample_qp_fields sample_queue_inv inbound_receives_def)
  then show ?thesis using sample_registry_inv
    by (simp add: rc_inv_def sample_state_def slot_inv_def slot_pre_def queues_ok_def all_leased_def memory_held_def
      slot_leases_def sample_qp_fields sample_queue_inv)
qed

text \<open>
  C38: Entering the error state settles everything the queue pair owes: from any state that
  satisfies the engine's invariant, \<open>enter_error\<close> leaves the queue pair in \<open>Error\<close> with no
  work, no partial message and no lease, appends exactly one completion for each posted,
  active or partially received work request (signaled or not), and returns every lease to
  the registry, which then holds only the leases of the other queue pairs.
\<close>

theorem error_settles_everything:
  assumes "rc_inv others st" and "enter_error st = (st', n)"
  shows "qp_state (machine (the_slot st')) = Error \<and>
    n = size (owed (the_slot st)) \<and>
    (\<exists>cs. ring_list (completion_queue (the_slot st')) = ring_list (completion_queue (the_slot st)) @ cs \<and>
       image_mset completion_id (mset cs) = owed (the_slot st)) \<and>
    owed (the_slot st') = {#} \<and> slot_leases (the_slot st') = {#} \<and>
    completion_reservations (the_slot st') = 0 \<and>
    registry_inv (the_registry st') \<and> leased (the_registry st') others"
proof -
  have pre: "rc_pre {#} others st" using assms(1) by (simp add: rc_inv_pre)
  note e = enter_error_all [OF pre assms(2)]
  have o: "works (the_slot st') = {#}" "receives (the_slot st') = {#}" "slot_leases (the_slot st') = {#}"
    using emptied_owns [OF e(2)] by auto
  have post: "rc_pre {#} others st'" using e(1) pre by (simp add: rc_step_def)
  obtain cs where cs: "length cs = n" "rc_books {#} (the_slot st) {#} (the_slot st') cs"
    using e(1) pre by (auto simp: rc_step_def)
  have "image_mset completion_id (mset cs) = owed (the_slot st)"
    using rc_books_settled [OF cs(2) o(1,2)] cs(1) e(4) by simp
  moreover have "qp_state (machine (the_slot st')) = Error"
    using e(3) by (simp add: rc_frame_def split: if_splits)
  ultimately show ?thesis using e(4) cs o post
    by (auto simp: rc_books_def rc_pre_def slot_pre_def owed_def)
qed


theorem error_settles_everything_witness:
  "qp_state (machine (the_slot (fst (enter_error sample_state)))) = Error \<and>
   snd (enter_error sample_state) = 1 \<and> leased (the_registry (fst (enter_error sample_state))) {#}"
proof -
  have "owed (the_slot sample_state) = {#recv_key sample_recv#}"
    by (simp add: sample_state_def owed_def works_def receives_def sample_qp_fields sample_queue_inv inbound_receives_def)
  then show ?thesis
    using error_settles_everything [OF sample_state_inv prod.collapse [symmetric]] by simp
qed

end
