(* ===== verification/Rc_Responder.thy ===== *)
theory Rc_Responder
  imports Rc_Slot
begin

text \<open>
  The responder of the Reliable Connected engine, the request handlers of
  \<open>rocev2/src/rc.rs\<close>: one definition per handler, from the sequence check of
  \<open>handle_request_packet\<close> to the SEND, WRITE and READ handlers and the two error exits.
  A handler takes the parsed packet and the state of one queue pair and returns the new
  state with the reply to transmit.
\<close>

section \<open>Model\<close>

definition u32_or_max :: "usize \<Rightarrow> u32" where
  "u32_or_max n = (case u32_try_from n of Some w \<Rightarrow> w | None \<Rightarrow> - 1)"

definition slot_mtu :: "RcQpSlot \<Rightarrow> usize" where
  "slot_mtu s = mtu_bytes (path_mtu (qp_config (machine s)))"

definition control_reply :: "RcQpSlot \<Rightarrow> psn \<Rightarrow> Aeth \<Rightarrow> ControlReply" where
  "control_reply s p aeth =
     \<lparr>cr_path = qs_path s, cr_destination_qpn = remote_qpn (qp_config (machine s)), cr_psn = p, cr_aeth = aeth\<rparr>"

definition ack_reply :: "RcQpSlot \<Rightarrow> psn \<Rightarrow> ControlReply" where
  "ack_reply s p = control_reply s p (aeth_ack (psn_value (message_sequence_number s)))"

definition nak_reply :: "RcQpSlot \<Rightarrow> psn \<Rightarrow> u8 \<Rightarrow> ControlReply" where
  "nak_reply s p syn = control_reply s p
     \<lparr>syndrome = syn, Aeth.message_sequence_number = psn_value (message_sequence_number s)\<rparr>"

definition rnr_reply :: "RcQpSlot \<Rightarrow> psn \<Rightarrow> HandlerResult" where
  "rnr_reply s p = handler_default\<lparr>hr_reply :=
     Some (control_reply s p (aeth_rnr_nak (psn_value (message_sequence_number s)) (qs_rnr_nak_timer s)))\<rparr>"

definition fatal_request_error :: "psn \<Rightarrow> u8 \<Rightarrow> rc_state \<Rightarrow> rc_state \<times> HandlerResult" where
  "fatal_request_error p syn st =
     (let reply = nak_reply (the_slot st) p syn;
          (st, n) = enter_error st
      in (st, \<lparr>hr_reply = Some reply, hr_completions = n, hr_retransmissions = 0\<rparr>))"

definition fail_receive_message :: "psn \<Rightarrow> CompletionStatus \<Rightarrow> rc_state \<Rightarrow> rc_state \<times> HandlerResult" where
  "fail_receive_message p status st =
     (let message = inbound_message (the_slot st);
          st = st\<lparr>the_slot := (the_slot st)\<lparr>inbound_message := None\<rparr>\<rparr>;
          reply = nak_reply (the_slot st) p NAK_INVALID_REQUEST;
          (st, n) = (case message of
              Some (InboundSend work _) \<Rightarrow> finish_receive work status 0 st
            | _ \<Rightarrow> (st, 0));
          (st, m) = enter_error st
      in (st, \<lparr>hr_reply = Some reply, hr_completions = n + m, hr_retransmissions = 0\<rparr>))"

fun valid_request_payload_length :: "SegmentPosition \<Rightarrow> usize \<Rightarrow> usize \<Rightarrow> bool" where
  "valid_request_payload_length First len mtu = (len = mtu)"
| "valid_request_payload_length Middle len mtu = (len = mtu)"
| "valid_request_payload_length Last len mtu = (len \<le> mtu)"
| "valid_request_payload_length Only len mtu = (len \<le> mtu)"

definition handle_send_start ::
  "PacketRef \<Rightarrow> psn \<Rightarrow> SegmentPosition \<Rightarrow> rc_state \<Rightarrow> rc_state \<times> HandlerResult" where
  "handle_send_start packet p pos st =
     (if inbound_message (the_slot st) \<noteq> None then fatal_request_error p NAK_INVALID_REQUEST st
      else case ring_pop (receive_queue (the_slot st)) of
        (q, None) \<Rightarrow>
          (let st = st\<lparr>the_slot := (the_slot st)\<lparr>receive_queue := q\<rparr>\<rparr>
           in (st, rnr_reply (the_slot st) p))
      | (q, Some posted) \<Rightarrow>
          (let work = posted_work posted;
               st = st\<lparr>the_slot := (the_slot st)\<lparr>receive_queue := q, inbound_memory := posted_lease posted\<rparr>\<rparr>
           in
           if length (pr_payload packet) > unat (sge_length (recv_sge work)) then
             (let (st, res) = fatal_request_error p NAK_INVALID_REQUEST st;
                  (st, n) = finish_receive work LocalLengthError 0 st
              in (st, res\<lparr>hr_completions := hr_completions res + n\<rparr>))
           else
             (case write_local (the_registry st) (the_store st) (sge_lkey (recv_sge work))
                     (sge_address (recv_sge work)) (pr_payload packet) of
                Inl _ \<Rightarrow>
                  (let (st, res) = fatal_request_error p NAK_REMOTE_OPERATION_ERROR st;
                       (st, n) = finish_receive work LocalProtectionError 0 st
                   in (st, res\<lparr>hr_completions := hr_completions res + n\<rparr>))
              | Inr mem \<Rightarrow>
                  (let bytes_written = u32_or_max (length (pr_payload packet));
                       s = the_slot st;
                       s = s\<lparr>qs_receive_psn := fst (observe (qs_receive_psn s) p)\<rparr>
                   in
                   if pos = Only then
                     (let s = s\<lparr>message_sequence_number := psn_next (message_sequence_number s)\<rparr>;
                          (st, n) = finish_receive work Success bytes_written (st\<lparr>the_slot := s, the_store := mem\<rparr>)
                      in (st, \<lparr>hr_reply = Some (ack_reply (the_slot st) p), hr_completions = n,
                               hr_retransmissions = 0\<rparr>))
                   else
                     (let s = s\<lparr>inbound_message := Some (InboundSend work bytes_written)\<rparr>
                      in (st\<lparr>the_slot := s, the_store := mem\<rparr>,
                          handler_default\<lparr>hr_reply := Some (ack_reply s p)\<rparr>))))))"

definition handle_send_continuation ::
  "PacketRef \<Rightarrow> psn \<Rightarrow> SegmentPosition \<Rightarrow> rc_state \<Rightarrow> rc_state \<times> HandlerResult" where
  "handle_send_continuation packet p pos st =
     (case inbound_message (the_slot st) of
        Some (InboundSend work bytes_written) \<Rightarrow>
          (case u32_checked_add bytes_written (u32_or_max (length (pr_payload packet))) of
             None \<Rightarrow> fail_receive_message p LocalLengthError st
           | Some new_total \<Rightarrow>
             if new_total > sge_length (recv_sge work) then fail_receive_message p LocalLengthError st
             else
             (case u64_checked_add (sge_address (recv_sge work)) (ucast bytes_written) of
                None \<Rightarrow> fail_receive_message p LocalLengthError st
              | Some address \<Rightarrow>
              (case write_local (the_registry st) (the_store st) (sge_lkey (recv_sge work)) address
                      (pr_payload packet) of
                 Inl _ \<Rightarrow> fail_receive_message p LocalProtectionError st
               | Inr mem \<Rightarrow>
                   (let s = the_slot st;
                        s = s\<lparr>qs_receive_psn := fst (observe (qs_receive_psn s) p)\<rparr>
                    in
                    if pos = Last then
                      (let s = s\<lparr>inbound_message := None,
                                 message_sequence_number := psn_next (message_sequence_number s)\<rparr>;
                           (st, n) = finish_receive work Success new_total (st\<lparr>the_slot := s, the_store := mem\<rparr>)
                       in (st, \<lparr>hr_reply = Some (ack_reply (the_slot st) p), hr_completions = n,
                                hr_retransmissions = 0\<rparr>))
                    else
                      (let s = s\<lparr>inbound_message := Some (InboundSend work new_total)\<rparr>
                       in (st\<lparr>the_slot := s, the_store := mem\<rparr>,
                           handler_default\<lparr>hr_reply := Some (ack_reply s p)\<rparr>))))))
      | _ \<Rightarrow> fatal_request_error p NAK_INVALID_REQUEST st)"

definition handle_send_request :: "PacketRef \<Rightarrow> psn \<Rightarrow> rc_state \<Rightarrow> rc_state \<times> HandlerResult" where
  "handle_send_request packet p st =
     (let pos = position (opcode (pr_bth packet)) in
      if \<not> valid_request_payload_length pos (length (pr_payload packet)) (slot_mtu (the_slot st))
      then fatal_request_error p NAK_INVALID_REQUEST st
      else if pos \<in> {Only, First} then handle_send_start packet p pos st
      else handle_send_continuation packet p pos st)"

definition handle_write_start ::
  "PacketRef \<Rightarrow> psn \<Rightarrow> SegmentPosition \<Rightarrow> rc_state \<Rightarrow> rc_state \<times> HandlerResult" where
  "handle_write_start packet p pos st =
     (if inbound_message (the_slot st) \<noteq> None then fatal_request_error p NAK_INVALID_REQUEST st
      else case pr_reth packet of
        None \<Rightarrow> fatal_request_error p NAK_INVALID_REQUEST st
      | Some reth \<Rightarrow>
        (let payload_length = u32_or_max (length (pr_payload packet));
             length_is_valid = (case pos of
                 Only \<Rightarrow> payload_length = dma_length reth
               | First \<Rightarrow> payload_length < dma_length reth
               | _ \<Rightarrow> False)
         in
         if \<not> length_is_valid then fatal_request_error p NAK_INVALID_REQUEST st
         else case validate_remote_write (the_registry st) (remote_key reth) (virtual_address reth)
                     (unat (dma_length reth)) of
           Inl _ \<Rightarrow> fatal_request_error p NAK_REMOTE_ACCESS_ERROR st
         | Inr _ \<Rightarrow>
           (let (st, retained) =
                  (if pos = First then
                     (case retain_remote (remote_key reth) (the_registry st) of
                        (r, Inr lease) \<Rightarrow>
                          (st\<lparr>the_slot := (the_slot st)\<lparr>inbound_memory := Some lease\<rparr>, the_registry := r\<rparr>, True)
                      | (r, Inl _) \<Rightarrow> (st\<lparr>the_registry := r\<rparr>, False))
                   else (st, True))
            in
            if \<not> retained then fatal_request_error p NAK_REMOTE_ACCESS_ERROR st
            else case write_remote (the_registry st) (the_store st) (remote_key reth) (virtual_address reth)
                        (pr_payload packet) of
              Inl _ \<Rightarrow> fatal_request_error p NAK_REMOTE_ACCESS_ERROR st
            | Inr mem \<Rightarrow>
              (let s = the_slot st;
                   s = s\<lparr>qs_receive_psn := fst (observe (qs_receive_psn s) p)\<rparr>;
                   s = (if pos = Only
                        then s\<lparr>message_sequence_number := psn_next (message_sequence_number s)\<rparr>
                        else s\<lparr>inbound_message := Some (InboundWrite (virtual_address reth) (remote_key reth)
                                 (dma_length reth) payload_length)\<rparr>)
               in (st\<lparr>the_slot := s, the_store := mem\<rparr>, handler_default\<lparr>hr_reply := Some (ack_reply s p)\<rparr>)))))"

definition handle_write_continuation ::
  "PacketRef \<Rightarrow> psn \<Rightarrow> SegmentPosition \<Rightarrow> rc_state \<Rightarrow> rc_state \<times> HandlerResult" where
  "handle_write_continuation packet p pos st =
     (case inbound_message (the_slot st) of
        Some (InboundWrite address rkey whole_length bytes_written) \<Rightarrow>
          (case u32_checked_add bytes_written (u32_or_max (length (pr_payload packet))) of
             None \<Rightarrow> fatal_request_error p NAK_INVALID_REQUEST st
           | Some new_total \<Rightarrow>
             if \<not> (case pos of Middle \<Rightarrow> new_total < whole_length | Last \<Rightarrow> new_total = whole_length | _ \<Rightarrow> False)
             then fatal_request_error p NAK_INVALID_REQUEST st
             else
             (case u64_checked_add address (ucast bytes_written) of
                None \<Rightarrow> fatal_request_error p NAK_REMOTE_ACCESS_ERROR st
              | Some segment_address \<Rightarrow>
              (case write_remote (the_registry st) (the_store st) rkey segment_address (pr_payload packet) of
                 Inl _ \<Rightarrow> fatal_request_error p NAK_REMOTE_ACCESS_ERROR st
               | Inr mem \<Rightarrow>
                   (let s = the_slot st;
                        s = s\<lparr>qs_receive_psn := fst (observe (qs_receive_psn s) p)\<rparr>;
                        st = st\<lparr>the_slot := s, the_store := mem\<rparr>;
                        st = (if pos = Last
                              then (let st = release_inbound (st\<lparr>the_slot := s\<lparr>inbound_message := None\<rparr>\<rparr>)
                                    in st\<lparr>the_slot := (the_slot st)\<lparr>message_sequence_number :=
                                         psn_next (message_sequence_number (the_slot st))\<rparr>\<rparr>)
                              else st\<lparr>the_slot := s\<lparr>inbound_message :=
                                     Some (InboundWrite address rkey whole_length new_total)\<rparr>\<rparr>)
                    in (st, handler_default\<lparr>hr_reply := Some (ack_reply (the_slot st) p)\<rparr>)))))
      | _ \<Rightarrow> fatal_request_error p NAK_INVALID_REQUEST st)"

definition handle_write_request :: "PacketRef \<Rightarrow> psn \<Rightarrow> rc_state \<Rightarrow> rc_state \<times> HandlerResult" where
  "handle_write_request packet p st =
     (let pos = position (opcode (pr_bth packet)) in
      if \<not> valid_request_payload_length pos (length (pr_payload packet)) (slot_mtu (the_slot st))
      then fatal_request_error p NAK_INVALID_REQUEST st
      else if pos \<in> {Only, First} then handle_write_start packet p pos st
      else handle_write_continuation packet p pos st)"

definition handle_read_request :: "PacketRef \<Rightarrow> psn \<Rightarrow> rc_state \<Rightarrow> rc_state \<times> HandlerResult" where
  "handle_read_request packet p st =
     (if inbound_message (the_slot st) \<noteq> None then fatal_request_error p NAK_INVALID_REQUEST st
      else if read_response (the_slot st) \<noteq> None then (st, rnr_reply (the_slot st) p)
      else case pr_reth packet of
        None \<Rightarrow> fatal_request_error p NAK_INVALID_REQUEST st
      | Some reth \<Rightarrow>
        (case validate_remote_read (the_registry st) (remote_key reth) (virtual_address reth)
                (unat (dma_length reth)) of
           Inl _ \<Rightarrow> fatal_request_error p NAK_REMOTE_ACCESS_ERROR st
         | Inr _ \<Rightarrow>
           (case retain_remote (remote_key reth) (the_registry st) of
              (r, Inl _) \<Rightarrow> fatal_request_error p NAK_REMOTE_ACCESS_ERROR (st\<lparr>the_registry := r\<rparr>)
            | (r, Inr lease) \<Rightarrow>
              (let s = (the_slot st)\<lparr>read_memory := Some lease\<rparr>;
                   n = packet_count (dma_length reth) (slot_mtu s);
                   response = \<lparr>rr_request_psn = p, rr_address = virtual_address reth, rr_rkey = remote_key reth,
                     rr_length = dma_length reth, rr_packet_count = n, rr_next_packet = 0\<rparr>
               in (st\<lparr>the_slot := s\<lparr>qs_receive_psn := fst (observe_span (qs_receive_psn s) p n),
                         message_sequence_number := psn_next (message_sequence_number s),
                         read_replay := Some response, read_response := Some response\<rparr>,
                      the_registry := r\<rparr>,
                   handler_default)))))"

definition replay_read_request :: "PacketRef \<Rightarrow> psn \<Rightarrow> rc_state \<Rightarrow> rc_state \<times> HandlerResult" where
  "replay_read_request packet p st =
     (case pr_reth packet of
        None \<Rightarrow> fatal_request_error p NAK_INVALID_REQUEST st
      | Some reth \<Rightarrow>
        (let replay = \<lparr>rr_request_psn = p, rr_address = virtual_address reth, rr_rkey = remote_key reth,
               rr_length = dma_length reth,
               rr_packet_count = packet_count (dma_length reth) (slot_mtu (the_slot st)), rr_next_packet = 0\<rparr>
         in case validate_remote_read (the_registry st) (remote_key reth) (virtual_address reth)
                   (unat (dma_length reth)) of
           Inl _ \<Rightarrow> fatal_request_error p NAK_REMOTE_ACCESS_ERROR st
         | Inr _ \<Rightarrow>
           if read_replay (the_slot st) \<noteq> Some replay \<or>
              (case read_response (the_slot st) of Some active \<Rightarrow> rr_request_psn active \<noteq> p | None \<Rightarrow> False)
           then (st, rnr_reply (the_slot st) p)
           else
           (let (st, retained) =
                  (if read_memory (the_slot st) = None then
                     (case retain_remote (rr_rkey replay) (the_registry st) of
                        (r, Inr lease) \<Rightarrow>
                          (st\<lparr>the_slot := (the_slot st)\<lparr>read_memory := Some lease\<rparr>, the_registry := r\<rparr>, True)
                      | (r, Inl _) \<Rightarrow> (st\<lparr>the_registry := r\<rparr>, False))
                   else (st, True))
            in
            if \<not> retained then fatal_request_error p NAK_REMOTE_ACCESS_ERROR st
            else (st\<lparr>the_slot := (the_slot st)\<lparr>read_response := Some replay\<rparr>\<rparr>, handler_default))))"

definition handle_request_packet :: "PacketRef \<Rightarrow> rc_state \<Rightarrow> rc_state \<times> HandlerResult" where
  "handle_request_packet packet st =
     (let p = new_truncated (psn (pr_bth packet)) in
      case classify (qs_receive_psn (the_slot st)) p of
        Future \<Rightarrow>
          (let stats = the_stats st;
               s = the_slot st
           in (st\<lparr>the_stats := stats\<lparr>st_sequence_errors := bump (st_sequence_errors stats)\<rparr>\<rparr>,
               handler_default\<lparr>hr_reply := Some (control_reply s (expected (qs_receive_psn s))
                 (aeth_psn_nak (psn_value (message_sequence_number s))))\<rparr>))
      | Duplicate \<Rightarrow>
          (let stats = the_stats st;
               st = st\<lparr>the_stats := stats\<lparr>st_duplicate_requests := bump (st_duplicate_requests stats)\<rparr>\<rparr>
           in if opcode (pr_bth packet) = RdmaReadRequest then replay_read_request packet p st
              else (st, handler_default\<lparr>hr_reply := Some (ack_reply (the_slot st) p)\<rparr>))
      | Expected \<Rightarrow>
          (if partition_key (pr_bth packet) \<noteq> DEFAULT_PKEY then fatal_request_error p NAK_INVALID_REQUEST st
           else if opcode (pr_bth packet) \<in> {SendOnly, SendFirst, SendMiddle, SendLast}
           then handle_send_request packet p st
           else if opcode (pr_bth packet) \<in> {RdmaWriteOnly, RdmaWriteFirst, RdmaWriteMiddle, RdmaWriteLast}
           then handle_write_request packet p st
           else if opcode (pr_bth packet) = RdmaReadRequest then handle_read_request packet p st
           else fatal_request_error p NAK_INVALID_REQUEST st))"


section \<open>The books\<close>

lemma fatal_all:
  assumes "rc_pre E others st" "fatal_request_error p syn st = (st', res)"
  shows "rc_step others E st E st' (hr_completions res)" "emptied (the_slot st')"
  using assms(2) enter_error_all(1,2) [OF assms(1)] by (auto simp: fatal_request_error_def split: prod.splits)

lemma fatal_keeps: "fatal_request_error p syn st = (st', res) \<Longrightarrow> rc_keeps others st st' (hr_completions res)"
  using fatal_all [of "{#}" others st] by (intro rc_keeps_step) (auto simp: rc_inv_pre emptied_owns)

text \<open>A handler that took some steps before it failed.\<close>

lemma fatal_keeps_after:
  assumes "rc_step others {#} st0 {#} st 0" "fatal_request_error p syn st = (st', res)"
  shows "rc_keeps others st0 st' (hr_completions res)"
proof (rule rc_keeps_step)
  assume "rc_inv others st0"
  then have "rc_pre {#} others st" using assms(1) by (simp add: rc_step_def rc_inv_pre)
  note f = fatal_all [OF this assms(2)]
  show "rc_step others {#} st0 {#} st' (hr_completions res)"
    using rc_step_trans [OF assms(1) f(1)] by simp
  show "memory_held (the_slot st')" using emptied_owns [OF f(2)] by blast
qed

lemma fail_receive_keeps:
  assumes "fail_receive_message p status st = (st', res)"
  shows "rc_keeps others st st' (hr_completions res)"
proof (rule rc_keeps_step)
  assume inv: "rc_inv others st"
  let ?st = "st\<lparr>the_slot := (the_slot st)\<lparr>inbound_message := None\<rparr>\<rparr>"
  obtain st1 n where 1: "(case inbound_message (the_slot st) of
              Some (InboundSend work _) \<Rightarrow> finish_receive work status 0 ?st | _ \<Rightarrow> (?st, 0)) = (st1, n)"
    by fastforce
  obtain st2 m where 2: "enter_error st1 = (st2, m)" by fastforce
  have e: "st' = st2" "hr_completions res = n + m"
    using assms 1 2 by (auto simp: fail_receive_message_def Let_def)
  have s1: "rc_step others {#} st {#} st1 n" by (rule take_inbound_step(1) [OF 1])
  then have "rc_pre {#} others st1" using inv by (simp add: rc_step_def rc_inv_pre)
  note s2 = enter_error_all(1,2) [OF this 2]
  show "rc_step others {#} st {#} st' (hr_completions res)"
    unfolding e using s1 s2(1) by (rule rc_step_trans)
  show "memory_held (the_slot st')" using emptied_owns [OF s2(2)] by (simp add: e)
qed


lemma take_receive:
  assumes pop: "ring_pop (receive_queue (the_slot st)) = (q, Some posted)" and inv: "rc_inv others st"
    and none: "inbound_message (the_slot st) = None"
  shows "rc_step others {#} st {#posted_work posted#}
      (st\<lparr>the_slot := (the_slot st)\<lparr>receive_queue := q, inbound_memory := posted_lease posted\<rparr>\<rparr>) 0"
    and "posted_lease posted \<noteq> None"
proof -
  let ?s = "the_slot st"
  let ?s' = "?s\<lparr>receive_queue := q, inbound_memory := posted_lease posted\<rparr>"
  have slot: "slot_pre {#} ?s" and held: "inbound_memory ?s = None" and rinv: "ring_inv (receive_queue ?s)"
    using inv none by (simp_all add: rc_inv_def slot_inv_def memory_held_def slot_pre_def queues_ok_def)
  note q = ring.pop_oldest [OF rinv pop]
  have r: "receives ?s = add_mset (posted_work posted) (receives ?s')" "works ?s' = works ?s"
    by (simp_all add: receives_def works_def q)
  have "slot_leases ?s' = slot_leases ?s" using held by (simp add: slot_leases_def q ac_simps)
  moreover have "slot_pre {#posted_work posted#} ?s'"
    using slot q r by (simp add: slot_pre_def queues_ok_def all_leased_def) (simp add: owed_def)
  ultimately show "rc_step others {#} st {#posted_work posted#} (st\<lparr>the_slot := ?s'\<rparr>) 0"
    using slot r by (intro rc_step_frame) simp_all
  show "posted_lease posted \<noteq> None" using slot q by (simp add: slot_pre_def all_leased_def)
qed

lemma fail_taken_receive:
  assumes step: "rc_step others {#} st0 {#work#} st1 0" and inv: "rc_inv others st0"
    and f: "fatal_request_error p syn st1 = (st2, res)" and fin: "finish_receive work status 0 st2 = (st3, n)"
  shows "rc_step others {#} st0 {#} st3 (hr_completions res + n)" "memory_held (the_slot st3)"
proof -
  have p1: "rc_pre {#work#} others st1" using step inv by (simp add: rc_step_def rc_inv_pre)
  note s2 = fatal_all [OF p1 f]
  have p2: "rc_pre {#work#} others st2" using s2(1) p1 by (simp add: rc_step_def)
  show "rc_step others {#} st0 {#} st3 (hr_completions res + n)"
    using rc_step_trans [OF rc_step_trans [OF step s2(1)]] finish_receive_step(1) [OF fin, of others "{#}"] by simp
  show "memory_held (the_slot st3)"
    using s2(2) finish_receive_frame_all [OF fin] finish_receive_step(2) [OF fin p2]
    by (simp add: emptied_def memory_held_def)
qed

lemma accept_taken_receive:
  assumes step: "rc_step others {#} st0 {#work#} st1 0" and inv: "rc_inv others st0"
    and held: "active_memory (the_slot st1) = None \<longleftrightarrow> active_request (the_slot st1) = None"
      "read_memory (the_slot st1) = None \<longleftrightarrow> read_response (the_slot st1) = None"
      "inbound_message (the_slot st1) = None"
    and fin: "finish_receive work status n st1 = (st', m)"
  shows "rc_step others {#} st0 {#} st' m" "memory_held (the_slot st')"
proof -
  have p1: "rc_pre {#work#} others st1" using step inv by (simp add: rc_step_def rc_inv_pre)
  show "rc_step others {#} st0 {#} st' m"
    using rc_step_trans [OF step] finish_receive_step(1) [OF fin, of others "{#}"] by fastforce
  show "memory_held (the_slot st')"
    using held finish_receive_frame_all [OF fin] finish_receive_step(2) [OF fin p1] by (simp add: memory_held_def)
qed

lemma empty_receive_keeps:
  assumes "ring_pop (receive_queue (the_slot st)) = (q, None)"
  shows "rc_keeps others st (st\<lparr>the_slot := (the_slot st)\<lparr>receive_queue := q\<rparr>\<rparr>) 0"
proof -
  let ?s = "(the_slot st)\<lparr>receive_queue := q\<rparr>"
  have "rc_inv others (st\<lparr>the_slot := ?s\<rparr>) \<and> rc_books {#} (the_slot st) {#} ?s []" if inv: "rc_inv others st"
  proof -
    have rinv: "ring_inv (receive_queue (the_slot st))"
      using inv by (simp add: rc_inv_def slot_inv_def slot_pre_def queues_ok_def)
    note q = ring.pop_nothing [OF rinv assms]
    have "receives ?s = receives (the_slot st)" by (simp add: receives_def q)
    then show ?thesis using inv q
      by (auto simp: rc_inv_def slot_inv_def slot_pre_def queues_ok_def all_leased_def memory_held_def owed_def
        slot_leases_def intro!: rc_books_same)
  qed
  then show ?thesis by (simp add: rc_keeps_def)
qed

lemma handle_send_start_keeps:
  assumes "handle_send_start packet p pos st = (st', res)"
  shows "rc_keeps others st st' (hr_completions res)"
proof (cases "inbound_message (the_slot st) = None")
  case False
  then show ?thesis using assms by (auto simp: handle_send_start_def intro: fatal_keeps)
next
  case none: True
  obtain q x where pop: "ring_pop (receive_queue (the_slot st)) = (q, x)" by fastforce
  show ?thesis
  proof (cases x)
    case None
    have "rc_keeps others st (st\<lparr>the_slot := (the_slot st)\<lparr>receive_queue := q\<rparr>\<rparr>) 0"
      using pop None by (intro empty_receive_keeps) simp
    then show ?thesis using assms none pop None
      by (auto simp: handle_send_start_def Let_def rnr_reply_def handler_default_def)
  next
    case (Some posted)
    let ?w = "posted_work posted"
    let ?s = "(the_slot st)\<lparr>receive_queue := q, inbound_memory := posted_lease posted\<rparr>"
    let ?st = "st\<lparr>the_slot := ?s\<rparr>"
    have "rc_step others {#} st {#} st' (hr_completions res) \<and> memory_held (the_slot st')"
      if inv: "rc_inv others st"
    proof -
      note t = take_receive [OF pop [unfolded Some] inv none]
      have fail: ?thesis if "(case fatal_request_error p syn ?st of (st2, res2) \<Rightarrow>
          case finish_receive ?w status 0 st2 of (st3, n) \<Rightarrow> (st3, res2\<lparr>hr_completions := hr_completions res2 + n\<rparr>)) = (st', res)"
        for syn status
        using that fail_taken_receive [OF t(1) inv] by (auto split: prod.splits)
      let ?err = "length (pr_payload packet) > unat (sge_length (recv_sge ?w)) "
      let ?res = "write_local (the_registry st) (the_store st) (sge_lkey (recv_sge ?w)) (sge_address (recv_sge ?w)) (pr_payload packet)"
      show ?thesis
      proof (cases "?err \<or> (\<exists>e. ?res = Inl e)")
        case True
        then show ?thesis
          using assms none pop Some fail by (auto simp: handle_send_start_def Let_def split: if_splits)
      next
        case False
        then obtain mem where mem: "?res = Inr mem" "\<not> ?err" by (cases ?res) auto
        let ?b = "u32_or_max (length (pr_payload packet))"
        let ?s1 = "?s\<lparr>qs_receive_psn := fst (observe (qs_receive_psn (the_slot st)) p)\<rparr>"
        let ?s2 = "?s1\<lparr>message_sequence_number := psn_next (message_sequence_number (the_slot st))\<rparr>"
        have held: "memory_held (the_slot st)" using inv by (simp add: rc_inv_pre)
        show ?thesis
        proof (cases "pos = Only")
          case True
          obtain st1 n where fin: "finish_receive ?w Success ?b (?st\<lparr>the_slot := ?s2, the_store := mem\<rparr>) = (st1, n)"
            by fastforce
          have "rc_step others {#?w#} ?st {#?w#} (?st\<lparr>the_slot := ?s2, the_store := mem\<rparr>) 0"
            by (rule rc_step_frame) simp_all
          with t(1) have "rc_step others {#} st {#?w#} (?st\<lparr>the_slot := ?s2, the_store := mem\<rparr>) (0 + 0)"
            by (rule rc_step_trans)
          then have "rc_step others {#} st {#} st1 n \<and> memory_held (the_slot st1)"
            using accept_taken_receive [OF _ inv _ _ _ fin] held none by (simp add: memory_held_def)
          then show ?thesis using assms none pop Some mem True fin by (auto simp: handle_send_start_def Let_def)
        next
          case False
          let ?s3 = "?s1\<lparr>inbound_message := Some (InboundSend ?w ?b)\<rparr>"
          have "rc_step others {#?w#} ?st {#} (?st\<lparr>the_slot := ?s3, the_store := mem\<rparr>) 0"
            using none by (intro rc_step_frame) (simp_all add: slot_pre_def queues_ok_def all_leased_def owed_def
              works_def receives_def inbound_receives_def slot_leases_def)
          with t(1) have "rc_step others {#} st {#} (?st\<lparr>the_slot := ?s3, the_store := mem\<rparr>) (0 + 0)"
            by (rule rc_step_trans)
          then show ?thesis using assms none pop Some mem False held t(2)
            by (auto simp: handle_send_start_def Let_def memory_held_def handler_default_def)
        qed
      qed
    qed
    then show ?thesis by (intro rc_keeps_step) blast+
  qed
qed


lemma send_last_keeps:
  assumes m: "inbound_message (the_slot st) = Some (InboundSend work b)"
    and fin: "finish_receive work Success n (st\<lparr>the_slot := (the_slot st)\<lparr>qs_receive_psn := x,
        inbound_message := None, message_sequence_number := y\<rparr>, the_store := mem\<rparr>) = (st', k)"
  shows "rc_keeps others st st' k"
proof -
  have "rc_step others {#} st {#} st' k \<and> memory_held (the_slot st')" if inv: "rc_inv others st"
  proof -
    have "rc_step others {#} st {#work#} (st\<lparr>the_slot := (the_slot st)\<lparr>qs_receive_psn := x,
        inbound_message := None, message_sequence_number := y\<rparr>, the_store := mem\<rparr>) 0"
      using m by (intro rc_step_frame) (simp_all add: slot_pre_def queues_ok_def all_leased_def owed_def
              works_def receives_def inbound_receives_def slot_leases_def)
    from accept_taken_receive [OF this inv _ _ _ fin] show ?thesis
      using inv by (simp add: rc_inv_pre memory_held_def)
  qed
  then show ?thesis by (intro rc_keeps_step) blast+
qed

lemma send_middle_keeps:
  assumes "inbound_message (the_slot st) = Some (InboundSend work b)"
  shows "rc_keeps others st (st\<lparr>the_slot := (the_slot st)\<lparr>qs_receive_psn := x,
     inbound_message := Some (InboundSend work b')\<rparr>, the_store := mem\<rparr>) 0"
  using assms by (intro rc_keeps_frame) (simp_all add: slot_inv_def memory_held_def slot_pre_def queues_ok_def
    all_leased_def owed_def works_def receives_def inbound_receives_def slot_leases_def)

lemma handle_send_continuation_keeps:
  assumes "handle_send_continuation packet p pos st = (st', res)"
  shows "rc_keeps others st st' (hr_completions res)"
proof (cases "\<exists>work b. inbound_message (the_slot st) = Some (InboundSend work b)")
  case False
  then show ?thesis using assms
    by (auto simp: handle_send_continuation_def split: option.splits InboundMessage.splits intro: fatal_keeps)
next
  case True
  then obtain work b where m: "inbound_message (the_slot st) = Some (InboundSend work b)" by blast
  show ?thesis using assms
    by (auto simp: handle_send_continuation_def m Let_def handler_default_def split: option.splits sum.splits if_splits prod.splits
      intro: fail_receive_keeps send_last_keeps [OF m] send_middle_keeps [OF m])
qed

lemma handle_send_request_keeps:
  "handle_send_request packet p st = (st', res) \<Longrightarrow> rc_keeps others st st' (hr_completions res)"
  by (auto simp: handle_send_request_def Let_def split: if_splits
    intro: fatal_keeps handle_send_start_keeps handle_send_continuation_keeps)

lemma retain_step:
  assumes "retain_remote k (the_registry st) = (r, x)"
  shows "x = Inl e \<Longrightarrow> rc_step others E st E (st\<lparr>the_registry := r\<rparr>) 0"
    and "x = Inr l \<Longrightarrow> inbound_memory (the_slot st) = None \<Longrightarrow>
      rc_step others E st E (st\<lparr>the_slot := (the_slot st)\<lparr>inbound_memory := Some l\<rparr>, the_registry := r\<rparr>) 0"
    and "x = Inr l \<Longrightarrow> read_memory (the_slot st) = None \<Longrightarrow>
      rc_step others E st E (st\<lparr>the_slot := (the_slot st)\<lparr>read_memory := Some l\<rparr>, the_registry := r\<rparr>) 0"
  using leased_retain [of "the_registry st" "slot_leases (the_slot st) + others" k RemoteKey r x] assms
  by (auto simp: rc_step_def rc_pre_def retain_remote_def slot_pre_def queues_ok_def all_leased_def owed_def slot_leases_def
    intro!: rc_books_same)

lemma handle_read_request_keeps:
  assumes "handle_read_request packet p st = (st', res)"
  shows "rc_keeps others st st' (hr_completions res)"
proof (cases "inbound_message (the_slot st) = None \<and> read_response (the_slot st) = None \<and>
    (\<exists>reth r l. pr_reth packet = Some reth \<and> retain_remote (remote_key reth) (the_registry st) = (r, Inr l) \<and>
      validate_remote_read (the_registry st) (remote_key reth) (virtual_address reth) (unat (dma_length reth)) = Inr ())")
  case False
  then show ?thesis using assms
    by (auto simp: handle_read_request_def rnr_reply_def handler_default_def split: if_splits option.splits sum.splits prod.splits
      intro: fatal_keeps fatal_keeps_after [OF retain_step(1)])
next
  case True
  then obtain reth r l where e: "inbound_message (the_slot st) = None" "read_response (the_slot st) = None"
    "pr_reth packet = Some reth" "retain_remote (remote_key reth) (the_registry st) = (r, Inr l)"
    "validate_remote_read (the_registry st) (remote_key reth) (virtual_address reth) (unat (dma_length reth)) = Inr ()"
    by blast
  let ?st = "st\<lparr>the_slot := (the_slot st)\<lparr>read_memory := Some l\<rparr>, the_registry := r\<rparr>"
  have "rc_step others {#} st {#} st' (hr_completions res) \<and> memory_held (the_slot st')" if inv: "rc_inv others st"
  proof -
    have held: "memory_held (the_slot st)" using inv by (simp add: rc_inv_pre)
    have 1: "rc_step others {#} st {#} ?st 0"
      using held e(2) by (intro retain_step(3) [OF e(4) refl]) (simp add: memory_held_def)
    have "rc_step others {#} ?st {#} st' 0"
      using assms e by (auto simp: handle_read_request_def Let_def handler_default_def intro!: rc_step_frame)
        (simp_all add: slot_pre_def queues_ok_def all_leased_def owed_def works_def receives_def)
    from rc_step_trans [OF 1 this] show ?thesis
      using assms e held by (auto simp: handle_read_request_def Let_def handler_default_def memory_held_def)
  qed
  then show ?thesis by (intro rc_keeps_step) blast+
qed


lemma replay_read_request_keeps:
  assumes "replay_read_request packet p st = (st', res)"
  shows "rc_keeps others st st' (hr_completions res)"
proof (cases "pr_reth packet")
  case None
  then show ?thesis using assms by (auto simp: replay_read_request_def intro: fatal_keeps)
next
  case (Some reth)
  have set: "rc_keeps others st (st\<lparr>the_slot := (the_slot st)\<lparr>read_response := Some x\<rparr>\<rparr>) 0"
    if "read_memory (the_slot st) = Some l" for x l
  proof -
    have "rc_step others {#} st {#} (st\<lparr>the_slot := (the_slot st)\<lparr>read_response := Some x\<rparr>\<rparr>) 0"
      by (rule rc_step_frame) (simp_all add: slot_pre_def queues_ok_def all_leased_def owed_def works_def receives_def)
    then show ?thesis using that by (intro rc_keeps_step) (auto simp: rc_inv_pre memory_held_def)
  qed
  have new: "rc_keeps others st (st\<lparr>the_registry := r, the_slot := (the_slot st)\<lparr>read_memory := Some l, read_response := Some x\<rparr>\<rparr>) 0"
    if "read_memory (the_slot st) = None" "retain_remote k (the_registry st) = (r, Inr l)" for k r l x
  proof -
    let ?st = "st\<lparr>the_slot := (the_slot st)\<lparr>read_memory := Some l\<rparr>, the_registry := r\<rparr>"
    have "rc_step others {#} ?st {#} (?st\<lparr>the_slot := (the_slot ?st)\<lparr>read_response := Some x\<rparr>\<rparr>) 0"
      by (rule rc_step_frame) (simp_all add: slot_pre_def queues_ok_def all_leased_def owed_def works_def receives_def)
    from rc_step_trans [OF retain_step(3) [OF that(2) refl that(1)] this] show ?thesis
      by (intro rc_keeps_step) (auto simp: rc_inv_pre memory_held_def)
  qed
  show ?thesis using assms
    by (auto simp: replay_read_request_def Some Let_def rnr_reply_def handler_default_def
      split: if_splits option.splits sum.splits prod.splits
      intro: fatal_keeps fatal_keeps_after [OF retain_step(1)] set new)
qed

lemma write_accept_keeps:
  assumes inv: "rc_inv others st" and step: "rc_step others {#} st {#} st1 0"
    and s1: "the_slot st1 = (the_slot st)\<lparr>inbound_memory := l\<rparr>" and none: "inbound_message (the_slot st) = None"
  shows "l = None \<Longrightarrow> rc_step others {#} st {#} (st1\<lparr>the_slot := (the_slot st1)\<lparr>qs_receive_psn := x,
        message_sequence_number := y\<rparr>, the_store := mem\<rparr>) 0 \<and>
      memory_held ((the_slot st1)\<lparr>qs_receive_psn := x, message_sequence_number := y\<rparr>)"
    and "l \<noteq> None \<Longrightarrow> rc_step others {#} st {#} (st1\<lparr>the_slot := (the_slot st1)\<lparr>qs_receive_psn := x,
        inbound_message := Some (InboundWrite a k t b)\<rparr>, the_store := mem\<rparr>) 0 \<and>
      memory_held ((the_slot st1)\<lparr>qs_receive_psn := x, inbound_message := Some (InboundWrite a k t b)\<rparr>)"
proof -
  have held: "memory_held (the_slot st)" using inv by (simp add: rc_inv_pre)
  have "rc_step others {#} st1 {#} (st1\<lparr>the_slot := (the_slot st1)\<lparr>qs_receive_psn := x,
        message_sequence_number := y\<rparr>, the_store := mem\<rparr>) 0"
    by (rule rc_step_frame) simp_all
  from rc_step_trans [OF step this] show "l = None \<Longrightarrow> rc_step others {#} st {#} (st1\<lparr>the_slot := (the_slot st1)\<lparr>qs_receive_psn := x,
        message_sequence_number := y\<rparr>, the_store := mem\<rparr>) 0 \<and>
      memory_held ((the_slot st1)\<lparr>qs_receive_psn := x, message_sequence_number := y\<rparr>)"
    using held none by (simp add: s1 memory_held_def)
  have "rc_step others {#} st1 {#} (st1\<lparr>the_slot := (the_slot st1)\<lparr>qs_receive_psn := x,
        inbound_message := Some (InboundWrite a k t b)\<rparr>, the_store := mem\<rparr>) 0"
    using none by (intro rc_step_frame) (simp_all add: s1 slot_pre_def queues_ok_def all_leased_def owed_def works_def receives_def
      slot_leases_def inbound_receives_def)
  from rc_step_trans [OF step this] show "l \<noteq> None \<Longrightarrow> rc_step others {#} st {#} (st1\<lparr>the_slot := (the_slot st1)\<lparr>qs_receive_psn := x,
        inbound_message := Some (InboundWrite a k t b)\<rparr>, the_store := mem\<rparr>) 0 \<and>
      memory_held ((the_slot st1)\<lparr>qs_receive_psn := x, inbound_message := Some (InboundWrite a k t b)\<rparr>)"
    using held by (simp add: s1 memory_held_def)
qed


definition write_retained :: "SegmentPosition \<Rightarrow> u32 \<Rightarrow> rc_state \<Rightarrow> rc_state \<times> bool" where
  "write_retained pos k st =
     (if pos = First then
        (case retain_remote k (the_registry st) of
           (r, Inr lease) \<Rightarrow> (st\<lparr>the_slot := (the_slot st)\<lparr>inbound_memory := Some lease\<rparr>, the_registry := r\<rparr>, True)
         | (r, Inl _) \<Rightarrow> (st\<lparr>the_registry := r\<rparr>, False))
      else (st, True))"

lemma write_retained_step:
  assumes "write_retained pos k st = (st1, ok)" "inbound_memory (the_slot st) = None"
  shows "rc_step others E st E st1 0"
    and "ok \<Longrightarrow> \<exists>l. the_slot st1 = (the_slot st)\<lparr>inbound_memory := l\<rparr> \<and> (l = None \<longleftrightarrow> pos \<noteq> First)"
    and "the_store st1 = the_store st" "the_stats st1 = the_stats st"
proof -
  show "rc_step others E st E st1 0"
    using assms retain_step(1,2) by (auto simp: write_retained_def split: if_splits prod.splits sum.splits)
  have "(the_slot st)\<lparr>inbound_memory := None\<rparr> = the_slot st"
    using assms(2) by (cases "the_slot st") simp
  then show "ok \<Longrightarrow> \<exists>l. the_slot st1 = (the_slot st)\<lparr>inbound_memory := l\<rparr> \<and> (l = None \<longleftrightarrow> pos \<noteq> First)"
    using assms(1) by (auto simp: write_retained_def split: if_splits prod.splits sum.splits intro: exI [of _ None])
qed (use assms in \<open>auto simp: write_retained_def split: if_splits prod.splits sum.splits\<close>)

definition write_start_ok :: "PacketRef \<Rightarrow> SegmentPosition \<Rightarrow> rc_state \<Rightarrow> Reth \<Rightarrow> bool" where
  "write_start_ok packet pos st reth \<longleftrightarrow> inbound_message (the_slot st) = None \<and> pr_reth packet = Some reth \<and>
     validate_remote_write (the_registry st) (remote_key reth) (virtual_address reth) (unat (dma_length reth)) = Inr () \<and>
     (if pos = Only then u32_or_max (length (pr_payload packet)) = dma_length reth
      else u32_or_max (length (pr_payload packet)) < dma_length reth)"

definition write_started :: "PacketRef \<Rightarrow> psn \<Rightarrow> SegmentPosition \<Rightarrow> Reth \<Rightarrow> RcQpSlot \<Rightarrow> RcQpSlot" where
  "write_started packet p pos reth s =
     (let s = s\<lparr>qs_receive_psn := fst (observe (qs_receive_psn s) p)\<rparr>
      in if pos = Only
         then s\<lparr>message_sequence_number := psn_next (message_sequence_number s)\<rparr>
         else s\<lparr>inbound_message := Some (InboundWrite (virtual_address reth) (remote_key reth)
                  (dma_length reth) (u32_or_max (length (pr_payload packet))))\<rparr>)"

lemma handle_write_start_go:
  assumes go: "write_start_ok packet pos st reth" and pos: "pos = Only \<or> pos = First"
    and w: "write_retained pos (remote_key reth) st = (st1, ok)"
  shows "handle_write_start packet p pos st =
     (if \<not> ok then fatal_request_error p NAK_REMOTE_ACCESS_ERROR st1
      else case write_remote (the_registry st1) (the_store st1) (remote_key reth) (virtual_address reth) (pr_payload packet) of
          Inl _ \<Rightarrow> fatal_request_error p NAK_REMOTE_ACCESS_ERROR st1
        | Inr mem \<Rightarrow>
          (let s = write_started packet p pos reth (the_slot st1)
           in (st1\<lparr>the_slot := s, the_store := mem\<rparr>, handler_default\<lparr>hr_reply := Some (ack_reply s p)\<rparr>)))"
  using go pos w [unfolded write_retained_def]
  by (auto simp: handle_write_start_def write_start_ok_def Let_def split del: if_split cong: if_cong)
    (simp_all add: write_started_def Let_def split: sum.split)

lemma handle_write_start_keeps:
  assumes h: "handle_write_start packet p pos st = (st', res)" and pos: "pos = Only \<or> pos = First"
  shows "rc_keeps others st st' (hr_completions res)"
proof (cases "\<exists>reth. write_start_ok packet pos st reth")
  case False
  then show ?thesis using assms
    by (auto simp: handle_write_start_def write_start_ok_def Let_def split: if_splits option.splits sum.splits intro: fatal_keeps)
next
  case True
  then obtain reth where go: "write_start_ok packet pos st reth" by blast
  obtain st1 ok where w: "write_retained pos (remote_key reth) st = (st1, ok)" by fastforce
  have "rc_step others {#} st {#} st' (hr_completions res) \<and> memory_held (the_slot st')" if inv: "rc_inv others st"
  proof -
    have none: "inbound_message (the_slot st) = None" "inbound_memory (the_slot st) = None"
      using go inv by (simp_all add: write_start_ok_def rc_inv_pre memory_held_def)
    note r = write_retained_step [OF w none(2)]
    show ?thesis
    proof (cases "ok \<and> (\<exists>mem. write_remote (the_registry st1) (the_store st1) (remote_key reth) (virtual_address reth)
        (pr_payload packet) = Inr mem)")
      case False
      then have "fatal_request_error p NAK_REMOTE_ACCESS_ERROR st1 = (st', res)"
        using h unfolding handle_write_start_go [OF go pos w] by (auto split: sum.splits if_splits)
      from fatal_keeps_after [OF r(1) this] inv show ?thesis by (rule rc_keeps_inv)
    next
      case True
      then obtain mem where mem: "write_remote (the_registry st1) (the_store st1) (remote_key reth) (virtual_address reth)
        (pr_payload packet) = Inr mem" and ok by blast
      obtain l where l: "the_slot st1 = (the_slot st)\<lparr>inbound_memory := l\<rparr>" "l = None \<longleftrightarrow> pos \<noteq> First"
        using r(2) [OF \<open>ok\<close>] by blast
      have m: "st' = st1\<lparr>the_slot := write_started packet p pos reth (the_slot st1), the_store := mem\<rparr>"
        "hr_completions res = 0"
        using h \<open>ok\<close> mem unfolding handle_write_start_go [OF go pos w] by (auto simp: Let_def handler_default_def)
      note wa = write_accept_keeps [OF inv r(1) l(1) none(1)]
      show ?thesis
      proof (cases "pos = Only")
        case True
        then show ?thesis using wa(1) l(2) by (simp add: m write_started_def Let_def)
      next
        case False
        then show ?thesis using wa(2) l(2) pos by (simp add: m write_started_def Let_def)
      qed
    qed
  qed
  then show ?thesis by (intro rc_keeps_step) blast+
qed

lemma write_last_keeps:
  assumes m: "inbound_message (the_slot st) = Some (InboundWrite a k t b)"
  shows "rc_keeps others st
    (let st = release_inbound (st\<lparr>the_store := mem, the_slot := (the_slot st)\<lparr>qs_receive_psn := x, inbound_message := None\<rparr>\<rparr>)
     in st\<lparr>the_slot := (the_slot st)\<lparr>message_sequence_number := y\<rparr>\<rparr>) 0"
proof -
  let ?st = "st\<lparr>the_store := mem, the_slot := (the_slot st)\<lparr>qs_receive_psn := x, inbound_message := None\<rparr>\<rparr>"
  have 1: "rc_step others {#} st {#} ?st 0"
    using m by (intro rc_step_frame) (simp_all add: slot_pre_def queues_ok_def all_leased_def owed_def works_def receives_def
      inbound_receives_def slot_leases_def)
  have 2: "rc_step others {#} (release_inbound ?st) {#}
      ((release_inbound ?st)\<lparr>the_slot := (the_slot (release_inbound ?st))\<lparr>message_sequence_number := y\<rparr>\<rparr>) 0"
    by (rule rc_step_frame) simp_all
  show ?thesis
  proof (rule rc_keeps_step)
    assume inv: "rc_inv others st"
    then have "inbound_memory (the_slot (release_inbound ?st)) = None"
      using rc_pre_release_inbound [of "{#}" others ?st] 1 by (simp add: rc_inv_pre rc_step_def)
    then show "memory_held (the_slot (let st = release_inbound ?st in st\<lparr>the_slot := (the_slot st)\<lparr>message_sequence_number := y\<rparr>\<rparr>))"
      using inv by (simp add: rc_inv_pre memory_held_def Let_def) (simp add: release_inbound_def case_prod_beta)
  qed (use rc_step_trans [OF rc_step_trans [OF 1 release_step(1)] 2] in \<open>simp add: Let_def\<close>)
qed

lemma write_middle_keeps:
  assumes "inbound_message (the_slot st) = Some (InboundWrite a k t b)"
  shows "rc_keeps others st (st\<lparr>the_store := mem, the_slot := (the_slot st)\<lparr>qs_receive_psn := x,
     inbound_message := Some (InboundWrite a k t b')\<rparr>\<rparr>) 0"
  using assms by (intro rc_keeps_frame) (simp_all add: slot_inv_def memory_held_def slot_pre_def queues_ok_def
    all_leased_def owed_def works_def receives_def inbound_receives_def slot_leases_def)


lemma handle_write_continuation_keeps:
  assumes "handle_write_continuation packet p pos st = (st', res)"
  shows "rc_keeps others st st' (hr_completions res)"
proof (cases "\<exists>a k t b. inbound_message (the_slot st) = Some (InboundWrite a k t b)")
  case False
  then show ?thesis using assms
    by (auto simp: handle_write_continuation_def split: option.splits InboundMessage.splits intro: fatal_keeps)
next
  case True
  then obtain a k t b where m: "inbound_message (the_slot st) = Some (InboundWrite a k t b)" by blast
  show ?thesis using assms write_last_keeps [OF m, unfolded Let_def] write_middle_keeps [OF m]
    by (auto simp: handle_write_continuation_def m Let_def handler_default_def
      split: option.splits sum.splits if_splits intro: fatal_keeps)
qed

lemma handle_write_request_keeps:
  "handle_write_request packet p st = (st', res) \<Longrightarrow> rc_keeps others st st' (hr_completions res)"
  by (auto simp: handle_write_request_def Let_def split: if_splits
    intro: fatal_keeps handle_write_start_keeps handle_write_continuation_keeps)

lemma rc_keeps_stats: "rc_keeps others (st\<lparr>the_stats := x\<rparr>) st' n = rc_keeps others st st' n"
  by (simp add: rc_keeps_def rc_inv_def)

lemma handle_request_packet_keeps:
  assumes "handle_request_packet packet st = (st', res)"
  shows "rc_keeps others st st' (hr_completions res)"
proof (cases "classify (qs_receive_psn (the_slot st)) (new_truncated (psn (pr_bth packet)))")
  case Expected
  then show ?thesis using assms
    by (auto simp: handle_request_packet_def Let_def split: if_splits
      intro: fatal_keeps handle_send_request_keeps handle_write_request_keeps handle_read_request_keeps)
next
  case Duplicate
  have f: "rc_keeps others st (st\<lparr>the_stats := x\<rparr>) 0" for x by (rule rc_keeps_frame) simp_all
  show ?thesis using assms Duplicate f
    by (auto simp: handle_request_packet_def Let_def handler_default_def split: if_splits
      dest!: replay_read_request_keeps [of _ _ _ _ _ others] simp: rc_keeps_stats)
next
  case Future
  have "rc_keeps others st (st\<lparr>the_stats := x\<rparr>) 0" for x by (rule rc_keeps_frame) simp_all
  then show ?thesis using assms Future by (auto simp: handle_request_packet_def Let_def handler_default_def)
qed

end
