(* ===== verification/Rc_Delivery.thy ===== *)
theory Rc_Delivery
  imports Rc_Responder
begin

text \<open>
  Delivery of whole messages by the responder.  The network may lose, repeat and reorder
  the packets of a message; the responder then holds a prefix of it, and all of it once the
  packets have arrived in order.  Both SEND and RDMA WRITE are interpretations of the
  in-order receiver of \<open>Contracts\<close> on \<open>handle_request_packet\<close>.
\<close>

section \<open>The segments of a message\<close>

declare segmented_opcode.simps [simp del]

definition segs :: "nat \<Rightarrow> nat \<Rightarrow> nat" where
  "segs len mtu = (if len = 0 then 1 else div_ceil len mtu)"

lemma segs_pos [simp]: "0 < segs len mtu"
  by (auto simp: segs_def div_ceil_def intro!: Nat.gr0I dest: mod_eq_self_iff_div_eq_0 [THEN iffD2])

lemma segs_cover: "0 < mtu \<Longrightarrow> len \<le> segs len mtu * mtu"
  using div_ceil_ge by (simp add: segs_def)

lemma segs_before: "0 < mtu \<Longrightarrow> k < segs len mtu \<Longrightarrow> k * mtu < len \<or> (k = 0 \<and> len = 0)"
  using div_ceil_least [of mtu len k] by (auto simp: segs_def not_less [symmetric] split: if_splits)

lemma segs_full: "0 < mtu \<Longrightarrow> Suc k < segs len mtu \<Longrightarrow> k * mtu + mtu < len"
  using segs_before [of mtu "Suc k" len] by (simp add: ac_simps)

lemma segs_le: "0 < mtu \<Longrightarrow> segs len mtu \<le> max 1 len"
  using div_ceil_least [of mtu len len] by (simp add: segs_def)

lemma packet_count_segs:
  assumes "0 < mtu" "mtu < 2 ^ 64"
  shows "unat (packet_count len mtu) = segs (unat len) mtu"
proof (cases "len = 0")
  case False
  have "segs (unat len) mtu \<le> max 1 (unat len)" by (rule segs_le [OF assms(1)])
  then have "div_ceil (unat len) mtu \<le> unat len" using False by (auto simp: segs_def unat_gt_0 Suc_le_eq max_def unat_eq_zero split: if_splits)
  then have "div_ceil (unat len) mtu < 2 ^ 32" using unsigned_less [of len, where 'a = nat] by simp
  then show ?thesis using False assms by (simp add: packet_count_def segs_def u64_try_from_def u32_try_from_def unat_of_nat unat_eq_zero)
qed (simp add: packet_count_def segs_def)

lemma mtu_bounds [simp]: "0 < mtu_bytes m" "mtu_bytes m < 18446744073709551616" "mtu_bytes m \<le> 4096" "256 \<le> mtu_bytes m"
  by (cases m; simp)+

definition piece :: "octets \<Rightarrow> nat \<Rightarrow> nat \<Rightarrow> octets" where
  "piece bs mtu i = take mtu (drop (i * mtu) bs)"

lemma piece_length:
  assumes "0 < mtu" "i < segs (length bs) mtu"
  shows "Suc i < segs (length bs) mtu \<Longrightarrow> length (piece bs mtu i) = mtu"
    and "length (piece bs mtu i) \<le> mtu"
    and "i * mtu + length (piece bs mtu i) \<le> length bs"
    and "Suc i = segs (length bs) mtu \<Longrightarrow> i * mtu + length (piece bs mtu i) = length bs"
  using segs_full [OF assms(1), of i "length bs"] segs_before [OF assms(1,2)] segs_cover [OF assms(1), of "length bs"]
  by (auto simp: piece_def min_def) (metis add.commute le_diff_conv mult_Suc)+

lemma piece_next: "take (i * mtu) bs @ piece bs mtu i = take (Suc i * mtu) bs"
  by (simp add: piece_def take_add add.commute [of mtu])

lemma index_words:
  assumes "i < n" "n < 2 ^ 32"
  shows "(of_nat i :: u32) = 0 \<longleftrightarrow> i = 0" "(of_nat i :: u32) + 1 = of_nat n \<longleftrightarrow> Suc i = n"
proof -
  show "(of_nat i :: u32) = 0 \<longleftrightarrow> i = 0" using assms by (simp add: word_eq_iff_unsigned [where 'a = nat] unat_of_nat)
  have "(of_nat i :: u32) + 1 = of_nat (Suc i)" by (simp add: add.commute)
  then show "(of_nat i :: u32) + 1 = of_nat n \<longleftrightarrow> Suc i = n"
    using assms by (simp add: word_eq_iff_unsigned [where 'a = nat] unat_of_nat del: of_nat_Suc)
qed

section \<open>RDMA WRITE\<close>

record write_message =
  wm_address :: u64
  wm_rkey :: u32
  wm_data :: octets
  wm_psn :: int
  wm_mtu :: usize

definition wm_segments :: "write_message \<Rightarrow> nat" where
  "wm_segments m = segs (length (wm_data m)) (wm_mtu m)"

text \<open>Packet \<open>i\<close> of the message, as it leaves the parser; the other header fields are free.\<close>

definition write_segment :: "write_message \<Rightarrow> nat \<Rightarrow> PacketRef \<Rightarrow> bool" where
  "write_segment m i pkt \<longleftrightarrow>
     opcode (pr_bth pkt) = segmented_opcode Dir_Write (of_nat i) (of_nat (wm_segments m)) \<and>
     new_truncated (psn (pr_bth pkt)) = psn_of (wm_psn m + int i) \<and>
     partition_key (pr_bth pkt) = DEFAULT_PKEY \<and>
     (i = 0 \<longrightarrow> pr_reth pkt = Some \<lparr>virtual_address = wm_address m, remote_key = wm_rkey m,
        dma_length = of_nat (length (wm_data m))\<rparr>) \<and>
     pr_payload pkt = piece (wm_data m) (wm_mtu m) i"

text \<open>The responder is ready for the message: the region grants the access and can be pinned.\<close>

definition write_ready :: "write_message \<Rightarrow> rc_state \<Rightarrow> bool" where
  "write_ready m st \<longleftrightarrow>
     length (wm_data m) < 2 ^ 32 \<and> wm_segments m \<le> 2 ^ 23 \<and> wm_mtu m = slot_mtu (the_slot st) \<and>
     inbound_message (the_slot st) = None \<and> expected (qs_receive_psn (the_slot st)) = psn_of (wm_psn m) \<and>
     validate_remote_write (the_registry st) (wm_rkey m) (wm_address m) (length (wm_data m)) = Inr () \<and>
     (\<exists>r l. retain_remote (wm_rkey m) (the_registry st) = (r, Inr l))"

definition wm_filled :: "write_message \<Rightarrow> nat \<Rightarrow> nat" where
  "wm_filled m k = k * wm_mtu m"

definition write_slot :: "write_message \<Rightarrow> RcQpSlot \<Rightarrow> nat \<Rightarrow> RegionLease option \<Rightarrow> RcQpSlot" where
  "write_slot m s k l = s
     \<lparr>qs_receive_psn := (qs_receive_psn s)\<lparr>expected := psn_of (wm_psn m + int k)\<rparr>, inbound_memory := l,
      inbound_message := (if 0 < k \<and> k < wm_segments m
        then Some (InboundWrite (wm_address m) (wm_rkey m) (of_nat (length (wm_data m))) (of_nat (wm_filled m k)))
        else None),
      message_sequence_number :=
        (if k = wm_segments m then psn_next (message_sequence_number s) else message_sequence_number s)\<rparr>"

definition write_progress :: "RegionLease multiset \<Rightarrow> rc_state \<Rightarrow> write_message \<Rightarrow> nat \<Rightarrow> rc_state \<Rightarrow> bool" where
  "write_progress others st0 m k st \<longleftrightarrow> rc_inv others st \<and> write_ready m st0 \<and>
     resolve (the_registry st) = resolve (the_registry st0) \<and>
     (k = 0 \<longrightarrow> the_registry st = the_registry st0) \<and>
     the_store st = write_bytes (the_store st0) (wm_address m) (take (k * wm_mtu m) (wm_data m)) \<and>
     (\<exists>l. the_slot st = write_slot m (the_slot st0) k l)"

lemma write_slot_simps [simp]:
  "expected (qs_receive_psn (write_slot m s k l)) = psn_of (wm_psn m + int k)"
  "machine (write_slot m s k l) = machine s" "slot_mtu (write_slot m s k l) = slot_mtu s"
  "inbound_message (write_slot m s k l) = (if 0 < k \<and> k < wm_segments m
     then Some (InboundWrite (wm_address m) (wm_rkey m) (of_nat (length (wm_data m))) (of_nat (wm_filled m k))) else None)"
  by (simp_all add: write_slot_def slot_mtu_def)

lemma wm_segments_pos: "0 < wm_segments m"
  by (simp add: wm_segments_def)

lemma wm_segments_neq [simp]: "wm_segments m \<noteq> 0"
  using wm_segments_pos [of m] by linarith

definition respond :: "PacketRef \<Rightarrow> rc_state \<Rightarrow> rc_state" where
  "respond pkt st = fst (handle_request_packet pkt st)"

lemma respond_inv: "rc_inv others st \<Longrightarrow> rc_inv others (respond pkt st)"
  using handle_request_packet_keeps [of pkt st, OF prod.collapse [symmetric]] by (simp add: respond_def rc_keeps_def)

text \<open>Packets that are not the expected one leave everything but a counter unchanged.\<close>

lemma respond_ignores:
  assumes "expected (qs_receive_psn (the_slot st)) = psn_of e" and "new_truncated (psn (pr_bth pkt)) = psn_of k"
    and "k \<noteq> e" "e - 2 ^ 23 \<le> k" "k < e + 2 ^ 23" and "opcode (pr_bth pkt) \<noteq> RdmaReadRequest"
  shows "the_slot (respond pkt st) = the_slot st" "the_registry (respond pkt st) = the_registry st"
    "the_store (respond pkt st) = the_store st"
proof -
  have "classify (qs_receive_psn (the_slot st)) (psn_of k) \<noteq> Expected"
    using classify_rep [OF assms(1,4,5)] assms(3) by simp
  then have "the_slot (respond pkt st) = the_slot st \<and> the_registry (respond pkt st) = the_registry st \<and>
    the_store (respond pkt st) = the_store st"
    using assms(2,6) by (cases "classify (qs_receive_psn (the_slot st)) (psn_of k)")
      (simp_all add: respond_def handle_request_packet_def Let_def)
  then show "the_slot (respond pkt st) = the_slot st" "the_registry (respond pkt st) = the_registry st"
    "the_store (respond pkt st) = the_store st" by simp_all
qed

lemma respond_expected:
  assumes "new_truncated (psn (pr_bth pkt)) = expected (qs_receive_psn (the_slot st))"
    and "partition_key (pr_bth pkt) = DEFAULT_PKEY"
  shows "opcode (pr_bth pkt) \<in> {RdmaWriteOnly, RdmaWriteFirst, RdmaWriteMiddle, RdmaWriteLast} \<Longrightarrow>
      respond pkt st = fst (handle_write_request pkt (expected (qs_receive_psn (the_slot st))) st)"
    and "opcode (pr_bth pkt) \<in> {SendOnly, SendFirst, SendMiddle, SendLast} \<Longrightarrow>
      respond pkt st = fst (handle_send_request pkt (expected (qs_receive_psn (the_slot st))) st)"
proof -
  have "classify (qs_receive_psn (the_slot st)) (expected (qs_receive_psn (the_slot st))) = Expected"
    by (simp add: classify_Expected)
  then show "opcode (pr_bth pkt) \<in> {RdmaWriteOnly, RdmaWriteFirst, RdmaWriteMiddle, RdmaWriteLast} \<Longrightarrow>
      respond pkt st = fst (handle_write_request pkt (expected (qs_receive_psn (the_slot st))) st)"
    "opcode (pr_bth pkt) \<in> {SendOnly, SendFirst, SendMiddle, SendLast} \<Longrightarrow>
      respond pkt st = fst (handle_send_request pkt (expected (qs_receive_psn (the_slot st))) st)"
    using assms by (auto simp: respond_def handle_request_packet_def)
qed

lemma observe_next: "expected r = psn_of e \<Longrightarrow> fst (observe r (psn_of e)) = r\<lparr>expected := psn_of (e + 1)\<rparr>"
  by (simp add: observe_def observe_span_rep)


lemma write_readyD:
  assumes "write_ready m st"
  shows "0 < wm_mtu m" "wm_mtu m < 2 ^ 64" "wm_segments m < 2 ^ 32" "length (wm_data m) < 2 ^ 32"
    "wm_mtu m \<le> 4096"
  using assms by (simp_all add: write_ready_def slot_mtu_def)

lemma u32_or_max_small: "n < 2 ^ 32 \<Longrightarrow> u32_or_max n = of_nat n"
  by (simp add: u32_or_max_def u32_try_from_def)

lemma segment_write_opcode:
  assumes "i < n" "n < 2 ^ 32"
  shows "segmented_opcode Dir_Write (of_nat i) (of_nat n) =
    (if i = 0 then if n = 1 then RdmaWriteOnly else RdmaWriteFirst
     else if Suc i = n then RdmaWriteLast else RdmaWriteMiddle)"
  using assms by (auto simp: segmented_opcode.simps index_words [OF assms] split: bool.splits)

lemma write_accepts_first:
  assumes p: "write_progress others st0 m 0 st" and seg: "write_segment m 0 pkt"
  shows "write_progress others st0 m 1 (respond pkt st)"
proof -
  let ?n = "wm_segments m" and ?L = "length (wm_data m)" and ?mtu = "wm_mtu m"
  let ?reth = "\<lparr>virtual_address = wm_address m, remote_key = wm_rkey m, dma_length = of_nat ?L\<rparr>"
  let ?pos = "if ?n = 1 then Only else First"
  let ?e = "psn_of (wm_psn m)"
  have ready: "write_ready m st0" and inv: "rc_inv others st" and reg: "the_registry st = the_registry st0"
    and mem: "the_store st = the_store st0"
    using p by (simp_all add: write_progress_def)
  obtain l0 where slot: "the_slot st = write_slot m (the_slot st0) 0 l0" using p by (auto simp: write_progress_def)
  note d = write_readyD [OF ready]
  note len = piece_length [OF d(1) wm_segments_pos [unfolded wm_segments_def], folded wm_segments_def]
  have n1: "?n = 1 \<or> 1 < ?n" using wm_segments_pos [of m] by linarith
  have op: "opcode (pr_bth pkt) = (if ?n = 1 then RdmaWriteOnly else RdmaWriteFirst)"
    and pay: "pr_payload pkt = piece (wm_data m) ?mtu 0" and reth: "pr_reth pkt = Some ?reth"
    and at: "new_truncated (psn (pr_bth pkt)) = ?e" "partition_key (pr_bth pkt) = DEFAULT_PKEY"
    using seg segment_write_opcode [OF wm_segments_pos d(3)] by (simp_all add: write_segment_def)
  have pos: "position (opcode (pr_bth pkt)) = ?pos" using op by (simp add: position_def)
  have mtu: "slot_mtu (the_slot st) = ?mtu" using ready by (simp add: slot write_ready_def)
  have plen: "valid_request_payload_length ?pos (length (pr_payload pkt)) (slot_mtu (the_slot st))"
    using len(1,2) n1 by (auto simp: pay mtu)
  have "respond pkt st = fst (handle_write_request pkt ?e st)"
    using respond_expected(1) [of pkt st] at op by (simp add: slot)
  also have "\<dots> = fst (handle_write_start pkt ?e ?pos st)"
    using plen by (simp add: handle_write_request_def pos Let_def)
  finally have r: "respond pkt st = fst (handle_write_start pkt ?e ?pos st)" .
  have small: "length (piece (wm_data m) ?mtu 0) < 2 ^ 32" using len(3) d(4) by simp
  have uL: "unat (of_nat ?L :: u32) = ?L" using d(4) by (simp add: unat_of_nat)
  have go: "write_start_ok pkt ?pos st ?reth"
  proof -
    have "length (piece (wm_data m) ?mtu 0) = ?L" if "?n = 1" using len(4) that by simp
    moreover have "length (piece (wm_data m) ?mtu 0) < ?L" if "1 < ?n"
      using len(1) segs_full [OF d(1), of 0 ?L] that by (simp add: wm_segments_def)
    ultimately show ?thesis
      using ready n1 uL small
      by (auto simp: write_start_ok_def slot reth reg write_ready_def pay u32_or_max_small word_less_nat_alt unat_of_nat)
  qed
  obtain r1 lease where ret: "retain_remote (wm_rkey m) (the_registry st) = (r1, Inr lease)"
    using ready by (auto simp: write_ready_def reg)
  obtain st1 ok where w: "write_retained ?pos (wm_rkey m) st = (st1, ok)" by fastforce
  have ok and res: "resolve (the_registry st1) = resolve (the_registry st0)" and mem1: "the_store st1 = the_store st0"
    using w ret resolve_retain [of "wm_rkey m" RemoteKey "the_registry st" r1] reg mem
    by (auto simp: write_retained_def retain_remote_def split: if_splits)
  have held: "inbound_memory (the_slot st) = None"
    using inv by (simp add: rc_inv_pre memory_held_def slot)
  obtain l1 where l1: "the_slot st1 = (the_slot st)\<lparr>inbound_memory := l1\<rparr>"
    using write_retained_step(2) [OF w held \<open>ok\<close>] by blast
  have inv1: "registry_inv (the_registry st1)"
    using write_retained_step(1) [OF w held, of others "{#}"] inv by (simp add: rc_step_def rc_inv_pre rc_pre_def)
  have "validate_remote_write (the_registry st1) (wm_rkey m) (wm_address m) ?L = Inr ()"
    using ready by (simp add: validate_remote_write_def res write_ready_def)
  from write_remote_part(1) [OF inv1 this, of 0 "pr_payload pkt"] len(3)
  have wr: "write_remote (the_registry st1) (the_store st1) (wm_rkey m) (wm_address m) (pr_payload pkt) =
      Inr (write_bytes (the_store st0) (wm_address m) (pr_payload pkt))" by (simp add: pay mem1)
  have "respond pkt st = st1\<lparr>the_slot := write_started pkt ?e ?pos ?reth (the_slot st1),
      the_store := write_bytes (the_store st0) (wm_address m) (pr_payload pkt)\<rparr>"
    using r handle_write_start_go [OF go, of st1 ok ?e] w \<open>ok\<close> wr by (simp add: Let_def)
  moreover have "write_started pkt ?e ?pos ?reth (the_slot st1) = write_slot m (the_slot st0) 1 l1"
  proof (cases "?n = 1")
    case True
    then show ?thesis by (simp add: write_started_def l1 slot write_slot_def observe_next)
  next
    case False
    then have "length (piece (wm_data m) ?mtu 0) = ?mtu" "1 < ?n" using len(1) n1 by auto
    then show ?thesis using False small
      by (simp add: write_started_def l1 slot write_slot_def observe_next pay u32_or_max_small wm_filled_def)
  qed
  ultimately show ?thesis
    using respond_inv [OF inv, of pkt] ready res by (auto simp: write_progress_def pay piece_def)
qed


lemma release_inbound_resolve: "resolve (the_registry (release_inbound st)) = resolve (the_registry st)"
  "the_store (release_inbound st) = the_store st"
  "\<exists>l. the_slot (release_inbound st) = (the_slot st)\<lparr>inbound_memory := l\<rparr>"
  using resolve_release [of "inbound_memory (the_slot st)" "the_registry st"]
  by (auto simp: release_inbound_def release_lease_def split: prod.splits)

lemma write_accepts_next:
  assumes p: "write_progress others st0 m k st" and k: "0 < k" "k < wm_segments m" and seg: "write_segment m k pkt"
  shows "write_progress others st0 m (Suc k) (respond pkt st)"
proof -
  let ?n = "wm_segments m" and ?L = "length (wm_data m)" and ?mtu = "wm_mtu m"
  let ?e = "psn_of (wm_psn m + int k)"
  let ?pos = "if Suc k = ?n then Last else Middle"
  let ?b = "wm_filled m k" and ?len = "length (piece (wm_data m) ?mtu k)"
  have ready: "write_ready m st0" and inv: "rc_inv others st"
    and res: "resolve (the_registry st) = resolve (the_registry st0)"
    and mem: "the_store st = write_bytes (the_store st0) (wm_address m) (take ?b (wm_data m))"
    using p by (simp_all add: write_progress_def wm_filled_def)
  obtain l0 where slot: "the_slot st = write_slot m (the_slot st0) k l0" using p by (auto simp: write_progress_def)
  note d = write_readyD [OF ready]
  note len = piece_length [OF d(1) k(2) [unfolded wm_segments_def], folded wm_segments_def wm_filled_def]
  have op: "opcode (pr_bth pkt) = (if Suc k = ?n then RdmaWriteLast else RdmaWriteMiddle)"
    and pay: "pr_payload pkt = piece (wm_data m) ?mtu k"
    and at: "new_truncated (psn (pr_bth pkt)) = ?e" "partition_key (pr_bth pkt) = DEFAULT_PKEY"
    using seg segment_write_opcode [OF k(2) d(3)] k(1) by (simp_all add: write_segment_def)
  have pos: "position (opcode (pr_bth pkt)) = ?pos" using op by (simp add: position_def)
  have mtu: "slot_mtu (the_slot st) = ?mtu" using ready by (simp add: slot write_ready_def)
  have plen: "valid_request_payload_length ?pos (length (pr_payload pkt)) (slot_mtu (the_slot st))"
    using len(1,2) k(2) by (auto simp: pay mtu)
  have "respond pkt st = fst (handle_write_request pkt ?e st)"
    using respond_expected(1) [of pkt st] at op by (simp add: slot)
  also have "\<dots> = fst (handle_write_continuation pkt ?e ?pos st)"
    using plen by (simp add: handle_write_request_def pos Let_def)
  finally have r: "respond pkt st = fst (handle_write_continuation pkt ?e ?pos st)" .
  have small: "?b + ?len < 2 ^ 32" using len(3) d(4) by simp
  have add: "u32_checked_add (of_nat ?b) (u32_or_max (length (pr_payload pkt))) = Some (of_nat (?b + ?len))"
    using small by (simp add: u32_checked_add_def u32_or_max_small pay unat_of_nat)
  have step: "if Suc k = ?n then (of_nat (?b + ?len) :: u32) = of_nat ?L else (of_nat (?b + ?len) :: u32) < of_nat ?L"
    using len(1,4) segs_full [OF d(1), of k ?L, folded wm_filled_def] k(2) d(4) small
    by (auto simp: word_less_nat_alt unat_of_nat wm_segments_def simp del: of_nat_add)
  have inb: "inbound_message (the_slot st) = Some (InboundWrite (wm_address m) (wm_rkey m) (of_nat ?L) (of_nat ?b))"
    using k by (simp add: slot)
  have ub: "ucast (of_nat ?b :: u32) = (of_nat ?b :: u64)"
    using small by (simp add: unsigned_of_nat take_bit_nat_eq_self)
  have rinv: "registry_inv (the_registry st)" using inv by (simp add: rc_inv_def)
  have val: "validate_remote_write (the_registry st) (wm_rkey m) (wm_address m) ?L = Inr ()"
    using ready by (simp add: validate_remote_write_def res write_ready_def)
  note wr = write_remote_part [OF rinv val, of ?b "pr_payload pkt", unfolded pay, OF len(3)]
  let ?mem = "write_bytes (the_store st) (wm_address m + of_nat ?b) (piece (wm_data m) ?mtu k)"
  have grown: "?mem = write_bytes (the_store st0) (wm_address m) (take (Suc k * ?mtu) (wm_data m))"
  proof -
    have "length (take ?b (wm_data m)) = ?b" using len(3) by simp
    then show ?thesis
      unfolding piece_next [symmetric] write_bytes_append mem by (simp add: wm_filled_def)
  qed
  have psn: "fst (observe (qs_receive_psn (the_slot st)) ?e) =
      (qs_receive_psn (the_slot st0))\<lparr>expected := psn_of (wm_psn m + int (Suc k))\<rparr>"
    using observe_next [of "qs_receive_psn (the_slot st)" "wm_psn m + int k"] by (simp add: slot ac_simps write_slot_def)
  show ?thesis
  proof (cases "Suc k = ?n")
    case True
    let ?st = "st\<lparr>the_store := ?mem, the_slot := (the_slot st)\<lparr>qs_receive_psn :=
        fst (observe (qs_receive_psn (the_slot st)) ?e), inbound_message := None\<rparr>\<rparr>"
    obtain st2 where st2: "st2 = release_inbound ?st" by blast
    have st': "respond pkt st = st2\<lparr>the_slot := (the_slot st2)\<lparr>message_sequence_number :=
        psn_next (message_sequence_number (the_slot st2))\<rparr>\<rparr>"
      unfolding r st2 using True inb add step wr by (simp add: handle_write_continuation_def ub pay Let_def)
    obtain l where l: "the_slot st2 = (the_slot ?st)\<lparr>inbound_memory := l\<rparr>"
      using release_inbound_resolve(3) [of ?st] unfolding st2 by blast
    have "(the_slot st2)\<lparr>message_sequence_number := psn_next (message_sequence_number (the_slot st2))\<rparr> =
        write_slot m (the_slot st0) (Suc k) l"
      unfolding l using True by (simp add: psn) (simp add: slot write_slot_def)
    moreover have "resolve (the_registry st2) = resolve (the_registry st0)" "the_store st2 = ?mem"
      using release_inbound_resolve(1,2) [of ?st] res by (simp_all add: st2)
    ultimately show ?thesis
      using respond_inv [OF inv, of pkt] ready grown unfolding st' by (auto simp: write_progress_def)
  next
    case False
    have st': "respond pkt st = st\<lparr>the_store := ?mem, the_slot := (the_slot st)\<lparr>qs_receive_psn :=
        fst (observe (qs_receive_psn (the_slot st)) ?e),
        inbound_message := Some (InboundWrite (wm_address m) (wm_rkey m) (of_nat ?L) (of_nat (?b + ?len)))\<rparr>\<rparr>"
      unfolding r using False inb add step wr by (simp add: handle_write_continuation_def ub pay Let_def)
    have "the_slot (respond pkt st) = write_slot m (the_slot st0) (Suc k) l0"
      unfolding st' using False len(1) k(2)
      by (simp add: psn) (simp add: slot write_slot_def wm_filled_def add.commute)
    then show ?thesis
      using respond_inv [OF inv, of pkt] ready res grown by (auto simp: write_progress_def) (simp_all add: st')
  qed
qed

lemma write_ignores:
  assumes p: "write_progress others st0 m k st" and k: "k \<le> wm_segments m" and i: "i < wm_segments m" "i \<noteq> k"
    and seg: "write_segment m i pkt"
  shows "write_progress others st0 m k (respond pkt st)"
proof -
  have ready: "write_ready m st0" and inv: "rc_inv others st" using p by (simp_all add: write_progress_def)
  have n: "wm_segments m \<le> 2 ^ 23" using ready by (simp add: write_ready_def)
  have e: "expected (qs_receive_psn (the_slot st)) = psn_of (wm_psn m + int k)"
    using p by (auto simp: write_progress_def)
  have a: "new_truncated (psn (pr_bth pkt)) = psn_of (wm_psn m + int i)" "opcode (pr_bth pkt) \<noteq> RdmaReadRequest"
    using seg segment_write_opcode [OF i(1) write_readyD(3) [OF ready]] by (auto simp: write_segment_def split: if_splits)
  have "the_slot (respond pkt st) = the_slot st" "the_registry (respond pkt st) = the_registry st"
    "the_store (respond pkt st) = the_store st"
    using respond_ignores [OF e a(1) _ _ _ a(2)] k i n by simp_all
  then show ?thesis using p respond_inv [OF inv, of pkt] by (simp add: write_progress_def)
qed

interpretation write_rx: in_order_receiver respond "write_segment m" "write_progress others st0 m" "wm_segments m"
  for m others st0
proof
  fix k st pkt
  assume "write_progress others st0 m k st" "k < wm_segments m" "write_segment m k pkt"
  then show "write_progress others st0 m (Suc k) (respond pkt st)"
    using write_accepts_first write_accepts_next by (cases "k = 0") auto
qed (rule write_ignores)

lemma write_slot_start:
  assumes "expected (qs_receive_psn s) = psn_of (wm_psn m)" "inbound_message s = None"
  shows "write_slot m s 0 (inbound_memory s) = s"
  using assms by (cases s; cases "qs_receive_psn s") (simp add: write_slot_def)

lemma write_progress_start:
  assumes "rc_inv others st" "write_ready m st"
  shows "write_progress others st m 0 st"
proof -
  have "\<exists>l. the_slot st = write_slot m (the_slot st) 0 l"
    using write_slot_start [of "the_slot st" m] assms(2) by (metis write_ready_def)
  then show ?thesis using assms by (simp add: write_progress_def)
qed

text \<open>A concrete message of three octets for the region of the sample registry.\<close>

definition sample_wm :: write_message where
  "sample_wm = \<lparr>wm_address = 4096, wm_rkey = 2631693420, wm_data = [1, 2, 3], wm_psn = 9, wm_mtu = 256\<rparr>"

definition sample_write :: PacketRef where
  "sample_write = \<lparr>pr_bth = bth_new RdmaWriteOnly 17 9,
     pr_reth = Some \<lparr>virtual_address = 4096, remote_key = 2631693420, dma_length = 3\<rparr>, pr_aeth = None,
     pr_immediate = None, pr_payload = [1, 2, 3], pr_padding = [0], pr_icrc = 0\<rparr>"

lemma sample_wm_segments: "wm_segments sample_wm = 1"
  by (simp add: wm_segments_def sample_wm_def segs_def div_ceil_def)

lemma sample_resolve: "resolve (sample_live 1) 2631693420 RemoteKey REMOTE_WRITE 4096 3 = Inr (4096, 0)"
proof -
  have live: "region_live (sample_live 1) 0 (sample_slot 1)" by (simp add: region_live_def sample_live_def)
  show ?thesis
    using resolve_region [OF sample_registry_inv(2) live, of RemoteKey REMOTE_WRITE 4096 3]
    by (simp add: key_of_def sample_slot_def access_contains_def REMOTE_WRITE_def)
qed

lemma sample_write_ready: "write_ready sample_wm sample_state"
proof -
  have "retain_remote 2631693420 (sample_live 1) = (sample_live 2, Inr sample_lease)"
    using sample_get(2) [of 1]
    by (simp add: retain_remote_def retain_def slot_at_def sample_live_def sample_slot_def u32_checked_add_def sample_lease_def)
  then show ?thesis using sample_resolve [unfolded numeral_3_eq_3]
    by (simp add: write_ready_def sample_wm_segments sample_state_def validate_remote_write_def)
      (simp add: sample_wm_def sample_qp_def slot_mtu_def sample_config_def receive_psn_new_def psn_of_def)
qed

lemma sample_write_segment: "write_segment sample_wm 0 sample_write"
  by (simp add: write_segment_def sample_wm_segments segmented_opcode.simps)
    (simp add: sample_wm_def sample_write_def bth_new_def piece_def psn_of_def new_truncated_def PSN_MASK_def)

text \<open>
  C2: Whatever the network does to the packets of an RDMA WRITE (loss, duplication,
  reordering, in any combination), after every delivered packet the responder's memory is
  the old memory overwritten by exactly the first \<open>k\<close> segments of the message and nothing
  else, where \<open>k\<close> is the number of packets that arrived in order; its expected PSN has
  advanced by \<open>k\<close>, it has posted no completion and consumed no receive, and the engine's
  invariant still holds.
\<close>

theorem write_delivery:
  assumes "rc_inv others st" "write_ready m st"
    and "list_all (\<lambda>(i, pkt). i < wm_segments m \<and> write_segment m i pkt) ds"
  shows "let k = in_order 0 (map fst ds); st' = deliver_all respond ds st
    in the_store st' = write_bytes (the_store st) (wm_address m) (take (k * wm_mtu m) (wm_data m)) \<and>
       expected (qs_receive_psn (the_slot st')) = psn_of (wm_psn m + int k) \<and>
       completion_queue (the_slot st') = completion_queue (the_slot st) \<and>
       receive_queue (the_slot st') = receive_queue (the_slot st) \<and>
       machine (the_slot st') = machine (the_slot st) \<and> rc_inv others st'"
proof -
  have "write_progress others st m (in_order 0 (map fst ds)) (deliver_all respond ds st)"
    using write_rx.prefix_held [OF write_progress_start [OF assms(1,2)] _ assms(3)] by simp
  then show ?thesis by (auto simp: Let_def write_progress_def write_slot_def)
qed

text \<open>
  C3: An RDMA WRITE is delivered as soon as its packets have arrived once in order, with
  any duplicates and stragglers in between: the region then holds the whole message, the
  message sequence number has advanced by one, and the lease that pinned the region during
  the transfer has been returned.
\<close>

theorem write_completes:
  assumes "rc_inv others st" "write_ready m st"
    and "list_all (\<lambda>(i, pkt). i < wm_segments m \<and> write_segment m i pkt) ds"
    and "subseq [0..<wm_segments m] (map fst ds)"
  shows "let st' = deliver_all respond ds st
    in the_store st' = write_bytes (the_store st) (wm_address m) (wm_data m) \<and>
       expected (qs_receive_psn (the_slot st')) = psn_of (wm_psn m + int (wm_segments m)) \<and>
       message_sequence_number (the_slot st') = psn_next (message_sequence_number (the_slot st)) \<and>
       inbound_message (the_slot st') = None \<and> slot_leases (the_slot st') = slot_leases (the_slot st)"
proof -
  let ?st = "deliver_all respond ds st"
  have p: "write_progress others st m (wm_segments m) ?st"
    using write_rx.all_held [OF write_progress_start [OF assms(1,2)] _ assms(3,4)] by simp
  have whole: "take (wm_segments m * wm_mtu m) (wm_data m) = wm_data m"
    using segs_cover [OF write_readyD(1) [OF assms(2)]] by (simp add: wm_segments_def)
  obtain l where l: "the_slot ?st = write_slot m (the_slot st) (wm_segments m) l"
    using p by (auto simp: write_progress_def)
  have "inbound_memory (the_slot st) = None" "inbound_memory (the_slot ?st) = None"
    using assms(1,2) p by (simp_all add: rc_inv_pre memory_held_def write_ready_def write_progress_def) (simp add: l)
  then show ?thesis using p whole
    by (simp add: Let_def write_progress_def l) (simp add: write_slot_def slot_leases_def)
qed


theorem write_delivery_witness:
  "the_store (deliver_all respond [(0, sample_write), (0, sample_write)] sample_state) = write_bytes (\<lambda>_. 0) 4096 [1, 2, 3]"
  using write_delivery [OF sample_state_inv sample_write_ready, of "[(0, sample_write), (0, sample_write)]"]
    sample_write_segment
  by (simp add: sample_wm_segments Let_def) (simp add: sample_wm_def sample_state_def)

theorem write_completes_witness:
  "message_sequence_number (the_slot (deliver_all respond [(0, sample_write), (0, sample_write)] sample_state)) = Psn 1"
  using write_completes [OF sample_state_inv sample_write_ready, of "[(0, sample_write), (0, sample_write)]"]
    sample_write_segment
  by (simp add: sample_wm_segments Let_def)
    (simp add: sample_state_def sample_qp_def psn_next_def wrapping_add_def new_truncated_def PSN_MASK_def psn_zero_def)


section \<open>SEND\<close>

record send_message =
  sm_data :: octets
  sm_psn :: int
  sm_mtu :: usize

definition sm_segments :: "send_message \<Rightarrow> nat" where
  "sm_segments m = segs (length (sm_data m)) (sm_mtu m)"

definition sm_filled :: "send_message \<Rightarrow> nat \<Rightarrow> nat" where
  "sm_filled m k = k * sm_mtu m"

definition send_segment :: "send_message \<Rightarrow> nat \<Rightarrow> PacketRef \<Rightarrow> bool" where
  "send_segment m i pkt \<longleftrightarrow>
     opcode (pr_bth pkt) = segmented_opcode Dir_Send (of_nat i) (of_nat (sm_segments m)) \<and>
     new_truncated (psn (pr_bth pkt)) = psn_of (sm_psn m + int i) \<and>
     partition_key (pr_bth pkt) = DEFAULT_PKEY \<and>
     pr_payload pkt = piece (sm_data m) (sm_mtu m) i"

text \<open>The responder has posted a receive whose buffer holds the message.\<close>

definition send_ready :: "send_message \<Rightarrow> RecvWorkRequest \<Rightarrow> rc_state \<Rightarrow> bool" where
  "send_ready m work st \<longleftrightarrow>
     sm_segments m \<le> 2 ^ 23 \<and> sm_mtu m = slot_mtu (the_slot st) \<and>
     inbound_message (the_slot st) = None \<and> expected (qs_receive_psn (the_slot st)) = psn_of (sm_psn m) \<and>
     (\<exists>posted rest. ring_list (receive_queue (the_slot st)) = posted # rest \<and> posted_work posted = work) \<and>
     length (sm_data m) \<le> unat (sge_length (recv_sge work)) \<and>
     validate_local_write (the_registry st) (sge_lkey (recv_sge work)) (sge_address (recv_sge work))
       (length (sm_data m)) = Inr ()"

definition send_progress ::
  "RegionLease multiset \<Rightarrow> rc_state \<Rightarrow> RecvWorkRequest \<Rightarrow> send_message \<Rightarrow> nat \<Rightarrow> rc_state \<Rightarrow> bool" where
  "send_progress others st0 work m k st \<longleftrightarrow> rc_inv others st \<and> send_ready m work st0 \<and>
     resolve (the_registry st) = resolve (the_registry st0) \<and>
     the_store st = write_bytes (the_store st0) (sge_address (recv_sge work)) (take (sm_filled m k) (sm_data m)) \<and>
     machine (the_slot st) = machine (the_slot st0) \<and>
     expected (qs_receive_psn (the_slot st)) = psn_of (sm_psn m + int k) \<and>
     ring_list (receive_queue (the_slot st)) =
       (if k = 0 then ring_list (receive_queue (the_slot st0)) else tl (ring_list (receive_queue (the_slot st0)))) \<and>
     inbound_message (the_slot st) =
       (if 0 < k \<and> k < sm_segments m then Some (InboundSend work (of_nat (sm_filled m k))) else None) \<and>
     message_sequence_number (the_slot st) =
       (if k = sm_segments m then psn_next (message_sequence_number (the_slot st0))
        else message_sequence_number (the_slot st0)) \<and>
     ring_list (completion_queue (the_slot st)) = ring_list (completion_queue (the_slot st0)) @
       (if k = sm_segments m then [completion_success (recv_id work) CqReceive (of_nat (length (sm_data m)))] else [])"

lemma sm_segments_pos: "0 < sm_segments m"
  by (simp add: sm_segments_def)

lemma sm_segments_neq [simp]: "sm_segments m \<noteq> 0"
  using sm_segments_pos [of m] by linarith

lemma send_readyD:
  assumes "send_ready m work st"
  shows "0 < sm_mtu m" "sm_segments m < 2 ^ 32" "length (sm_data m) < 2 ^ 32"
proof -
  show "0 < sm_mtu m" "sm_segments m < 2 ^ 32" using assms by (simp_all add: send_ready_def slot_mtu_def)
  have "length (sm_data m) \<le> unat (sge_length (recv_sge work))" using assms by (simp add: send_ready_def)
  then show "length (sm_data m) < 2 ^ 32"
    using unsigned_less [of "sge_length (recv_sge work)", where 'a = nat] by simp
qed

lemma segment_send_opcode:
  assumes "i < n" "n < 2 ^ 32"
  shows "segmented_opcode Dir_Send (of_nat i) (of_nat n) =
    (if i = 0 then if n = 1 then SendOnly else SendFirst else if Suc i = n then SendLast else SendMiddle)"
  using assms by (auto simp: segmented_opcode.simps index_words [OF assms] split: bool.splits)

lemma finish_receive_resolve:
  "finish_receive w status n st = (st', k) \<Longrightarrow> resolve (the_registry st') = resolve (the_registry st)"
  using resolve_release [of "inbound_memory (the_slot st)" "the_registry st"]
  by (auto simp: finish_receive_def release_lease_def Let_def split: prod.splits)

lemma finish_receive_appends:
  assumes pre: "rc_pre (add_mset work E) others st" and fin: "finish_receive work Success n st = (st', k)"
  shows "ring_list (completion_queue (the_slot st')) =
      ring_list (completion_queue (the_slot st)) @ [completion_success (recv_id work) CqReceive n]"
proof -
  let ?s = "the_slot st"
  let ?M = "opt_mset (active_memory ?s) + opt_mset (read_memory ?s)
     + queue_leases (ring_list (send_queue ?s)) + queue_leases (ring_list (receive_queue ?s)) + others"
  have room: "length (ring_list (completion_queue ?s)) < ring_capacity (completion_queue ?s)"
    and q: "ring_inv (completion_queue ?s)" and r: "registry_inv (the_registry st)"
    and l: "leased (the_registry st) (opt_mset (inbound_memory ?s) + ?M)"
    using pre by (auto simp: rc_pre_def slot_pre_def queues_ok_def slot_leases_def ac_simps)
  from r l q room show ?thesis
    by (rule finish_receive_eval [where work = work and status = Success and n = n]) (use fin in auto)
qed


text \<open>The accepting branch of the two SEND handlers.\<close>

lemma handle_send_start_accepts:
  assumes "inbound_message (the_slot st) = None" "ring_pop (receive_queue (the_slot st)) = (q, Some posted)"
    and "length (pr_payload pkt) \<le> unat (sge_length (recv_sge (posted_work posted)))"
    and "write_local (the_registry st) (the_store st) (sge_lkey (recv_sge (posted_work posted)))
      (sge_address (recv_sge (posted_work posted))) (pr_payload pkt) = Inr mem"
    and "expected (qs_receive_psn (the_slot st)) = psn_of e"
  defines "s \<equiv> (the_slot st)\<lparr>receive_queue := q, inbound_memory := posted_lease posted,
      qs_receive_psn := (qs_receive_psn (the_slot st))\<lparr>expected := psn_of (e + 1)\<rparr>\<rparr>"
  shows "fst (handle_send_start pkt (psn_of e) First st) =
      st\<lparr>the_slot := s\<lparr>inbound_message := Some (InboundSend (posted_work posted) (u32_or_max (length (pr_payload pkt))))\<rparr>,
         the_store := mem\<rparr>"
    and "fst (handle_send_start pkt (psn_of e) Only st) =
      fst (finish_receive (posted_work posted) Success (u32_or_max (length (pr_payload pkt)))
        (st\<lparr>the_slot := s\<lparr>message_sequence_number := psn_next (message_sequence_number (the_slot st))\<rparr>, the_store := mem\<rparr>))"
  using assms(1-4) observe_next [OF assms(5)]
  by (simp_all add: handle_send_start_def Let_def s_def not_less [symmetric] case_prod_beta)

lemma handle_send_continuation_accepts:
  assumes "inbound_message (the_slot st) = Some (InboundSend work (of_nat b))" "b < 2 ^ 32"
    and "b + length (pr_payload pkt) \<le> unat (sge_length (recv_sge work))"
    and "u64_checked_add (sge_address (recv_sge work)) (of_nat b) = Some address"
    and "write_local (the_registry st) (the_store st) (sge_lkey (recv_sge work)) address (pr_payload pkt) = Inr mem"
    and "expected (qs_receive_psn (the_slot st)) = psn_of e"
  defines "s \<equiv> (the_slot st)\<lparr>qs_receive_psn := (qs_receive_psn (the_slot st))\<lparr>expected := psn_of (e + 1)\<rparr>\<rparr>"
  shows "fst (handle_send_continuation pkt (psn_of e) Middle st) =
      st\<lparr>the_slot := s\<lparr>inbound_message := Some (InboundSend work (of_nat (b + length (pr_payload pkt))))\<rparr>, the_store := mem\<rparr>"
    and "fst (handle_send_continuation pkt (psn_of e) Last st) =
      fst (finish_receive work Success (of_nat (b + length (pr_payload pkt)))
        (st\<lparr>the_slot := s\<lparr>inbound_message := None,
           message_sequence_number := psn_next (message_sequence_number (the_slot st))\<rparr>, the_store := mem\<rparr>))"
proof -
  have small: "b + length (pr_payload pkt) < 2 ^ 32"
    using assms(3) unsigned_less [of "sge_length (recv_sge work)", where 'a = nat] by simp
  then have add: "u32_checked_add (of_nat b) (u32_or_max (length (pr_payload pkt))) = Some (of_nat (b + length (pr_payload pkt)))"
    by (simp add: u32_checked_add_def u32_or_max_small unat_of_nat)
  have fits: "\<not> sge_length (recv_sge work) < of_nat (b + length (pr_payload pkt))"
    using assms(3) small by (simp add: word_less_nat_alt unat_of_nat not_less del: of_nat_add)
  have ub: "ucast (of_nat b :: u32) = (of_nat b :: u64)"
    using assms(2) by (simp add: unsigned_of_nat take_bit_nat_eq_self)
  show "fst (handle_send_continuation pkt (psn_of e) Middle st) =
      st\<lparr>the_slot := s\<lparr>inbound_message := Some (InboundSend work (of_nat (b + length (pr_payload pkt))))\<rparr>, the_store := mem\<rparr>"
    "fst (handle_send_continuation pkt (psn_of e) Last st) =
      fst (finish_receive work Success (of_nat (b + length (pr_payload pkt)))
        (st\<lparr>the_slot := s\<lparr>inbound_message := None,
           message_sequence_number := psn_next (message_sequence_number (the_slot st))\<rparr>, the_store := mem\<rparr>))"
    using assms(1,4,5) add fits observe_next [OF assms(6)]
    by (simp_all add: handle_send_continuation_def Let_def s_def ub case_prod_beta)
qed


lemma pop_head:
  assumes "ring_inv q" "ring_list q = x # xs"
  obtains q' where "ring_pop q = (q', Some x)" "ring_list q' = xs"
proof -
  obtain q' y where pop: "ring_pop q = (q', y)" by fastforce
  then show thesis
    using ring.pop_oldest(1) [OF assms(1), of q'] ring.pop_nothing(1) [OF assms(1), of q'] assms(2) that
    by (cases y) auto
qed

lemma finish_accepted:
  assumes pre: "rc_pre {#work#} others st" and r: "st' = fst (finish_receive work Success n st)"
  shows "resolve (the_registry st') = resolve (the_registry st)" "the_store st' = the_store st"
    "machine (the_slot st') = machine (the_slot st)" "qs_receive_psn (the_slot st') = qs_receive_psn (the_slot st)"
    "receive_queue (the_slot st') = receive_queue (the_slot st)" "inbound_message (the_slot st') = inbound_message (the_slot st)"
    "message_sequence_number (the_slot st') = message_sequence_number (the_slot st)"
    "ring_list (completion_queue (the_slot st')) =
      ring_list (completion_queue (the_slot st)) @ [completion_success (recv_id work) CqReceive n]"
proof -
  obtain k where fin: "finish_receive work Success n st = (st', k)" using r by (metis prod.collapse)
  show "resolve (the_registry st') = resolve (the_registry st)" "the_store st' = the_store st"
    "machine (the_slot st') = machine (the_slot st)" "qs_receive_psn (the_slot st') = qs_receive_psn (the_slot st)"
    "receive_queue (the_slot st') = receive_queue (the_slot st)" "inbound_message (the_slot st') = inbound_message (the_slot st)"
    "message_sequence_number (the_slot st') = message_sequence_number (the_slot st)"
    using finish_receive_frame_all [OF fin] finish_receive_resolve [OF fin] by (simp_all add: rc_frame_def)
  show "ring_list (completion_queue (the_slot st')) =
      ring_list (completion_queue (the_slot st)) @ [completion_success (recv_id work) CqReceive n]"
    by (rule finish_receive_appends [OF pre fin])
qed

lemma send_accepts_first:
  assumes p: "send_progress others st0 work m 0 st" and seg: "send_segment m 0 pkt"
  shows "send_progress others st0 work m 1 (respond pkt st)"
proof -
  let ?n = "sm_segments m" and ?L = "length (sm_data m)" and ?mtu = "sm_mtu m"
  let ?pos = "if ?n = 1 then Only else First"
  let ?e = "psn_of (sm_psn m)"
  let ?w = "recv_sge work"
  have ready: "send_ready m work st0" and inv: "rc_inv others st"
    and res: "resolve (the_registry st) = resolve (the_registry st0)"
    and eqs: "the_store st = the_store st0" "machine (the_slot st) = machine (the_slot st0)"
      "expected (qs_receive_psn (the_slot st)) = ?e" "inbound_message (the_slot st) = None"
      "message_sequence_number (the_slot st) = message_sequence_number (the_slot st0)"
      "ring_list (completion_queue (the_slot st)) = ring_list (completion_queue (the_slot st0))"
      "ring_list (receive_queue (the_slot st)) = ring_list (receive_queue (the_slot st0))"
    using p by (simp_all add: send_progress_def sm_filled_def)
  note d = send_readyD [OF ready]
  have rinv: "registry_inv (the_registry st)" and qinv: "ring_inv (receive_queue (the_slot st))"
    using inv by (simp_all add: rc_inv_def slot_inv_def slot_pre_def queues_ok_def)
  obtain posted rest where rq: "ring_list (receive_queue (the_slot st)) = posted # rest" and w: "posted_work posted = work"
    using ready eqs(7) by (auto simp: send_ready_def)
  obtain q where pop: "ring_pop (receive_queue (the_slot st)) = (q, Some posted)" "ring_list q = rest"
    using qinv rq by (rule pop_head)
  have rest: "tl (ring_list (receive_queue (the_slot st0))) = ring_list q"
    using rq pop(2) unfolding eqs(7) by simp
  have n1: "?n = 1 \<or> 1 < ?n" using sm_segments_pos [of m] by linarith
  note len = piece_length [OF d(1) sm_segments_pos [unfolded sm_segments_def], folded sm_segments_def]
  have op: "opcode (pr_bth pkt) = (if ?n = 1 then SendOnly else SendFirst)"
    and pay: "pr_payload pkt = piece (sm_data m) ?mtu 0"
    and at: "new_truncated (psn (pr_bth pkt)) = ?e" "partition_key (pr_bth pkt) = DEFAULT_PKEY"
    using seg segment_send_opcode [OF sm_segments_pos d(2)] by (simp_all add: send_segment_def)
  have pos: "position (opcode (pr_bth pkt)) = ?pos" using op by (simp add: position_def)
  have mtu: "slot_mtu (the_slot st) = ?mtu" using ready eqs(2) by (simp add: send_ready_def slot_mtu_def)
  have plen: "valid_request_payload_length ?pos (length (pr_payload pkt)) (slot_mtu (the_slot st))"
    using len(1,2) n1 by (auto simp: pay mtu)
  have "respond pkt st = fst (handle_send_request pkt ?e st)"
    using respond_expected(2) [of pkt st] at op eqs(3) by simp
  also have "\<dots> = fst (handle_send_start pkt ?e ?pos st)"
    using plen by (simp add: handle_send_request_def pos Let_def)
  finally have r: "respond pkt st = fst (handle_send_start pkt ?e ?pos st)" .
  have val: "validate_local_write (the_registry st) (sge_lkey ?w) (sge_address ?w) ?L = Inr ()"
    using ready by (simp add: validate_local_write_def res send_ready_def)
  have wr: "write_local (the_registry st) (the_store st) (sge_lkey ?w) (sge_address ?w) (pr_payload pkt) =
      Inr (write_bytes (the_store st0) (sge_address ?w) (pr_payload pkt))"
    using write_local_part(1) [OF rinv val, of 0 "pr_payload pkt"] len(3) by (simp add: pay eqs(1))
  have fit: "length (pr_payload pkt) \<le> unat (sge_length (recv_sge (posted_work posted)))"
    using ready len(3) by (simp add: pay w send_ready_def)
  note acc = handle_send_start_accepts [OF eqs(4) pop(1) fit, unfolded w, OF wr eqs(3)]
  note t = take_receive [OF pop(1) inv eqs(4), unfolded w]
  have bytes: "u32_or_max (length (pr_payload pkt)) = of_nat (length (piece (sm_data m) ?mtu 0))"
    using len(3) d(3) by (simp add: pay u32_or_max_small)
  have grown: "write_bytes (the_store st0) (sge_address ?w) (pr_payload pkt) =
      write_bytes (the_store st0) (sge_address ?w) (take (sm_filled m 1) (sm_data m))"
    by (simp add: pay piece_def sm_filled_def)
  show ?thesis
  proof (cases "?n = 1")
    case True
    let ?s = "(the_slot st)\<lparr>receive_queue := q, inbound_memory := posted_lease posted,
      qs_receive_psn := (qs_receive_psn (the_slot st))\<lparr>expected := psn_of (sm_psn m + 1)\<rparr>,
      message_sequence_number := psn_next (message_sequence_number (the_slot st))\<rparr>"
    let ?st = "st\<lparr>the_slot := ?s, the_store := write_bytes (the_store st0) (sge_address ?w) (pr_payload pkt)\<rparr>"
    have r': "respond pkt st = fst (finish_receive work Success (of_nat ?L) ?st)"
      using r acc(2) True bytes len(4) by simp
    have "rc_step others {#work#} (st\<lparr>the_slot := (the_slot st)\<lparr>receive_queue := q, inbound_memory := posted_lease posted\<rparr>\<rparr>)
        {#work#} ?st 0" by (rule rc_step_frame) simp_all
    from rc_step_trans [OF t(1) this] have pre: "rc_pre {#work#} others ?st"
      using inv by (simp add: rc_step_def rc_inv_pre)
    show ?thesis
      using respond_inv [OF inv, of pkt] ready res eqs rest True grown finish_accepted [OF pre r']
      by (simp add: send_progress_def)
  next
    case False
    then have "1 < ?n" "length (piece (sm_data m) ?mtu 0) = ?mtu" using n1 len(1) by auto
    then show ?thesis
      using respond_inv [OF inv, of pkt] ready res eqs rest False grown acc(1) r bytes
      by (simp add: send_progress_def) (simp add: sm_filled_def)
  qed
qed

lemma send_accepts_next:
  assumes p: "send_progress others st0 work m k st" and k: "0 < k" "k < sm_segments m" and seg: "send_segment m k pkt"
  shows "send_progress others st0 work m (Suc k) (respond pkt st)"
proof -
  let ?n = "sm_segments m" and ?L = "length (sm_data m)" and ?mtu = "sm_mtu m"
  let ?pos = "if Suc k = ?n then Last else Middle"
  let ?e = "psn_of (sm_psn m + int k)"
  let ?w = "recv_sge work" and ?b = "sm_filled m k" and ?len = "length (piece (sm_data m) (sm_mtu m) k)"
  have ready: "send_ready m work st0" and inv: "rc_inv others st"
    and res: "resolve (the_registry st) = resolve (the_registry st0)"
    and mem: "the_store st = write_bytes (the_store st0) (sge_address ?w) (take ?b (sm_data m))"
    and eqs: "machine (the_slot st) = machine (the_slot st0)"
      "expected (qs_receive_psn (the_slot st)) = ?e"
      "inbound_message (the_slot st) = Some (InboundSend work (of_nat ?b))"
      "message_sequence_number (the_slot st) = message_sequence_number (the_slot st0)"
      "ring_list (completion_queue (the_slot st)) = ring_list (completion_queue (the_slot st0))"
      "ring_list (receive_queue (the_slot st)) = tl (ring_list (receive_queue (the_slot st0)))"
    using p k by (simp_all add: send_progress_def)
  note d = send_readyD [OF ready]
  note len = piece_length [OF d(1) k(2) [unfolded sm_segments_def], folded sm_segments_def sm_filled_def]
  have op: "opcode (pr_bth pkt) = (if Suc k = ?n then SendLast else SendMiddle)"
    and pay: "pr_payload pkt = piece (sm_data m) ?mtu k"
    and at: "new_truncated (psn (pr_bth pkt)) = ?e" "partition_key (pr_bth pkt) = DEFAULT_PKEY"
    using seg segment_send_opcode [OF k(2) d(2)] k(1) by (simp_all add: send_segment_def)
  have pos: "position (opcode (pr_bth pkt)) = ?pos" using op by (simp add: position_def)
  have mtu: "slot_mtu (the_slot st) = ?mtu" using ready eqs(1) by (simp add: send_ready_def slot_mtu_def)
  have plen: "valid_request_payload_length ?pos (length (pr_payload pkt)) (slot_mtu (the_slot st))"
    using len(1,2) k(2) by (auto simp: pay mtu)
  have "respond pkt st = fst (handle_send_request pkt ?e st)"
    using respond_expected(2) [of pkt st] at op eqs(2) by simp
  also have "\<dots> = fst (handle_send_continuation pkt ?e ?pos st)"
    using plen by (simp add: handle_send_request_def pos Let_def)
  finally have r: "respond pkt st = fst (handle_send_continuation pkt ?e ?pos st)" .
  have rinv: "registry_inv (the_registry st)" using inv by (simp add: rc_inv_def)
  have val: "validate_local_write (the_registry st) (sge_lkey ?w) (sge_address ?w) ?L = Inr ()"
    using ready by (simp add: validate_local_write_def res send_ready_def)
  note wr = write_local_part [OF rinv val, of ?b "pr_payload pkt", unfolded pay, OF len(3), folded pay]
  have small: "?b < 2 ^ 32" using len(3) d(3) by simp
  have fit: "?b + length (pr_payload pkt) \<le> unat (sge_length ?w)"
    using ready len(3) by (simp add: pay send_ready_def)
  note acc = handle_send_continuation_accepts [OF eqs(3) small fit wr(2) wr(1) eqs(2)]
  let ?mem = "write_bytes (the_store st) (sge_address ?w + of_nat ?b) (pr_payload pkt)"
  have grown: "?mem = write_bytes (the_store st0) (sge_address ?w) (take (sm_filled m (Suc k)) (sm_data m))"
  proof -
    have "length (take ?b (sm_data m)) = ?b" using len(3) by simp
    then show ?thesis
      unfolding sm_filled_def [of m "Suc k"] piece_next [symmetric] write_bytes_append mem pay by (simp add: sm_filled_def)
  qed
  show ?thesis
  proof (cases "Suc k = ?n")
    case True
    let ?s = "(the_slot st)\<lparr>qs_receive_psn := (qs_receive_psn (the_slot st))\<lparr>expected := psn_of (sm_psn m + int k + 1)\<rparr>,
      inbound_message := None, message_sequence_number := psn_next (message_sequence_number (the_slot st))\<rparr>"
    let ?st = "st\<lparr>the_slot := ?s, the_store := ?mem\<rparr>"
    have r': "respond pkt st = fst (finish_receive work Success (of_nat ?L) ?st)"
      using r acc(2) True len(4) by (simp add: pay del: of_nat_add)
    have "rc_step others {#} st {#work#} ?st 0"
      using eqs(3) by (intro rc_step_frame) (simp_all add: slot_pre_def queues_ok_def all_leased_def owed_def
              works_def receives_def inbound_receives_def slot_leases_def)
    then have pre: "rc_pre {#work#} others ?st" using inv by (simp add: rc_step_def rc_inv_pre)
    have e1: "sm_psn m + int k + 1 = sm_psn m + int ?n" using True by simp
    show ?thesis
      using respond_inv [OF inv, of pkt] ready res eqs True grown finish_accepted [OF pre r']
      by (simp add: send_progress_def e1)
  next
    case False
    then have "?len = ?mtu" "Suc k < ?n" using len(1) k(2) by auto
    then have "?b + length (pr_payload pkt) = sm_filled m (Suc k)" by (simp add: pay sm_filled_def)
    then show ?thesis
      using respond_inv [OF inv, of pkt] ready res eqs False grown acc(1) r \<open>Suc k < ?n\<close>
      by (simp add: send_progress_def ac_simps)
  qed
qed


lemma send_ignores:
  assumes p: "send_progress others st0 work m k st" and k: "k \<le> sm_segments m" and i: "i < sm_segments m" "i \<noteq> k"
    and seg: "send_segment m i pkt"
  shows "send_progress others st0 work m k (respond pkt st)"
proof -
  have ready: "send_ready m work st0" and inv: "rc_inv others st"
    and e: "expected (qs_receive_psn (the_slot st)) = psn_of (sm_psn m + int k)"
    using p by (simp_all add: send_progress_def)
  have n: "sm_segments m \<le> 2 ^ 23" using ready by (simp add: send_ready_def)
  have a: "new_truncated (psn (pr_bth pkt)) = psn_of (sm_psn m + int i)" "opcode (pr_bth pkt) \<noteq> RdmaReadRequest"
    using seg segment_send_opcode [OF i(1) send_readyD(2) [OF ready]] by (auto simp: send_segment_def split: if_splits)
  have "the_slot (respond pkt st) = the_slot st" "the_registry (respond pkt st) = the_registry st"
    "the_store (respond pkt st) = the_store st"
    using respond_ignores [OF e a(1) _ _ _ a(2)] k i n by simp_all
  then show ?thesis using p respond_inv [OF inv, of pkt] by (simp add: send_progress_def)
qed

interpretation send_rx: in_order_receiver respond "send_segment m" "send_progress others st0 work m" "sm_segments m"
  for m others st0 work
proof
  fix k st pkt
  assume "send_progress others st0 work m k st" "k < sm_segments m" "send_segment m k pkt"
  then show "send_progress others st0 work m (Suc k) (respond pkt st)"
    using send_accepts_first send_accepts_next by (cases "k = 0") auto
qed (rule send_ignores)

text \<open>
  C4: Whatever the network does to the packets of a SEND (loss, duplication, reordering, in
  any combination), the buffer of the receive at the head of the queue holds exactly the
  packets that arrived in order, that receive is consumed by the first of them and by no
  other, and a completion, successful and with the length of the message, is posted exactly
  when the whole message is in the buffer.
\<close>

theorem send_delivery:
  assumes "rc_inv others st" "send_ready m work st"
    and "list_all (\<lambda>(i, pkt). i < sm_segments m \<and> send_segment m i pkt) ds"
  shows "let k = in_order 0 (map fst ds); st' = deliver_all respond ds st
    in the_store st' = write_bytes (the_store st) (sge_address (recv_sge work)) (take (k * sm_mtu m) (sm_data m)) \<and>
       ring_list (receive_queue (the_slot st')) =
         (if k = 0 then ring_list (receive_queue (the_slot st)) else tl (ring_list (receive_queue (the_slot st)))) \<and>
       ring_list (completion_queue (the_slot st')) = ring_list (completion_queue (the_slot st)) @
         (if k = sm_segments m then [completion_success (recv_id work) CqReceive (of_nat (length (sm_data m)))] else []) \<and>
       expected (qs_receive_psn (the_slot st')) = psn_of (sm_psn m + int k) \<and> rc_inv others st' \<and>
       (subseq [0..<sm_segments m] (map fst ds) \<longrightarrow> k = sm_segments m)"
proof -
  have "send_progress others st work m 0 st"
    using assms(1,2) by (simp add: send_progress_def sm_filled_def) (simp add: send_ready_def)
  from send_rx.prefix_held [OF this _ assms(3)]
  have "send_progress others st work m (in_order 0 (map fst ds)) (deliver_all respond ds st)" by simp
  moreover have "list_all (\<lambda>i. i < sm_segments m) (map fst ds)" using assms(3) by (auto simp: list_all_iff)
  ultimately show ?thesis
    using in_order_complete [of 0 "sm_segments m" "map fst ds"] by (simp add: Let_def send_progress_def sm_filled_def)
qed

definition sample_sm :: send_message where
  "sample_sm = \<lparr>sm_data = [1, 2, 3], sm_psn = 9, sm_mtu = 256\<rparr>"

definition sample_send :: PacketRef where
  "sample_send = \<lparr>pr_bth = bth_new SendOnly 17 9, pr_reth = None, pr_aeth = None, pr_immediate = None,
     pr_payload = [1, 2, 3], pr_padding = [0], pr_icrc = 0\<rparr>"

lemma sample_sm_segments: "sm_segments sample_sm = 1"
  by (simp add: sm_segments_def sample_sm_def segs_def div_ceil_def)

lemma sample_local_resolve: "resolve (sample_live 1) 69794299 LocalKey LOCAL_WRITE 4096 3 = Inr (4096, 0)"
proof -
  have live: "region_live (sample_live 1) 0 (sample_slot 1)" by (simp add: region_live_def sample_live_def)
  show ?thesis
    using resolve_region [OF sample_registry_inv(2) live, of LocalKey LOCAL_WRITE 4096 3]
    by (simp add: key_of_def sample_slot_def access_contains_def LOCAL_WRITE_def)
qed

theorem send_delivery_witness:
  "let st' = deliver_all respond [(0, sample_send), (0, sample_send)] sample_state
   in the_store st' = write_bytes (\<lambda>_. 0) 4096 [1, 2, 3] \<and>
      ring_list (completion_queue (the_slot st')) = [completion_success 7 CqReceive 3]"
proof -
  have "send_ready sample_sm sample_recv sample_state"
    using sample_local_resolve [unfolded numeral_3_eq_3]
    by (simp add: send_ready_def sample_sm_segments sample_state_def validate_local_write_def sample_queue_inv sample_qp_fields)
      (simp add: sample_sm_def sample_recv_def sample_qp_def slot_mtu_def sample_config_def receive_psn_new_def psn_of_def)
  moreover have "send_segment sample_sm 0 sample_send"
    by (simp add: send_segment_def sample_sm_segments segmented_opcode.simps)
      (simp add: sample_sm_def sample_send_def bth_new_def piece_def psn_of_def new_truncated_def PSN_MASK_def)
  ultimately show ?thesis
    using send_delivery [OF sample_state_inv, of sample_sm sample_recv "[(0, sample_send), (0, sample_send)]"]
    by (simp add: sample_sm_segments Let_def) (simp add: sample_sm_def sample_state_def sample_recv_def sample_qp_fields)
qed

end
