(* ===== verification/Rc_Requester.thy ===== *)
theory Rc_Requester
  imports Rc_Delivery
begin

text \<open>
  The requester of the Reliable Connected engine, \<open>rocev2/src/rc.rs\<close>: validation of
  posted work, starting a request, building its packets, and the handlers of
  acknowledgements, READ responses and retries.  Payload is read straight from the explicit
  store instead of through a scratch buffer, whose size the engine checks on entry.
\<close>

section \<open>Model\<close>

definition ticks_or_max :: "u64 option \<Rightarrow> u64" where
  "ticks_or_max t = (case t of Some n \<Rightarrow> n | None \<Rightarrow> - 1)"

definition u32_saturating_add :: "u32 \<Rightarrow> u32 \<Rightarrow> u32" where
  "u32_saturating_add a b = (if unat a + unat b < 2 ^ 32 then a + b else - 1)"

definition validate_posted_work :: "MemoryRegistry \<Rightarrow> WorkRequest \<Rightarrow> usize \<Rightarrow> ApiError + unit" where
  "validate_posted_work r work mtu =
     (let n = packet_count (sge_length (wr_sge work)) mtu;
          sge = wr_sge work;
          len = unat (sge_length sge)
      in
      if n > MAX_OUTSTANDING_PACKETS then Inl (WorkRequestTooLarge n MAX_OUTSTANDING_PACKETS)
      else case wr_kind work of
        WrSend \<Rightarrow> map_err Memory (validate_local_read r (sge_lkey sge) (sge_address sge) len)
      | WrRdmaWrite address _ \<Rightarrow>
          and_then (map_err Memory (validate_local_read r (sge_lkey sge) (sge_address sge) len)) (\<lambda>_.
          and_then (ok_or (u64_checked_add address (ucast (sge_length sge))) ArithmeticOverflow) (\<lambda>_. Inr ()))
      | WrRdmaRead address _ \<Rightarrow>
          and_then (map_err Memory (validate_local_write r (sge_lkey sge) (sge_address sge) len)) (\<lambda>_.
          and_then (ok_or (u64_checked_add address (ucast (sge_length sge))) ArithmeticOverflow) (\<lambda>_. Inr ())))"

definition start_next_request :: "u64 \<Rightarrow> RcQpSlot \<Rightarrow> RcQpSlot" where
  "start_next_request tps s =
     (if active_request s \<noteq> None \<or> \<not> can_send (machine s) then s
      else case ring_front (send_queue s) of
        None \<Rightarrow> s
      | Some posted \<Rightarrow>
        (let work = posted_work posted;
             config = qp_config (machine s);
             n = packet_count (sge_length (wr_sge work)) (mtu_bytes (path_mtu config))
         in case reserve_many (send_window s) n of
              (w, None) \<Rightarrow> s\<lparr>send_window := w\<rparr>
            | (w, Some start) \<Rightarrow>
              (let s = s\<lparr>send_window := w\<rparr>;
                   ticks = ticks_or_max (ack_timeout_ticks (timeout config) tps)
               in case retry_policy_new (retry_count config) (rnr_retry_count config) ticks of
                    None \<Rightarrow> s
                  | Some policy \<Rightarrow>
                    (case ring_pop (send_queue s) of
                       (q, None) \<Rightarrow> s\<lparr>send_queue := q\<rparr>
                     | (q, Some posted) \<Rightarrow>
                         s\<lparr>send_queue := q, active_memory := posted_lease posted,
                           active_request := Some
                             \<lparr>ar_work = work, first_psn = start, last_psn = wrapping_add start (n - 1),
                              packet_count_of = n, next_packet = 0, transmitted_packets = 0,
                              read_packets_received = 0, bytes_received = 0,
                              retry_budget = retry_budget_new policy, ar_timer = timer_new, phase = Sending\<rparr>\<rparr>))))"

definition read_local_segment :: "MemoryRegistry \<Rightarrow> memory \<Rightarrow> WorkRequest \<Rightarrow> usize \<Rightarrow> usize \<Rightarrow> MemoryError + octets" where
  "read_local_segment r mem work offset len =
     and_then (ok_or (u64_try_from offset) AddressOverflow) (\<lambda>offset.
     and_then (ok_or (u64_checked_add (sge_address (wr_sge work)) offset) AddressOverflow) (\<lambda>address.
     read_local r mem (sge_lkey (wr_sge work)) address len))"

definition build_segment_packet ::
  "MemoryRegistry \<Rightarrow> memory \<Rightarrow> ActiveRequest \<Rightarrow> usize \<Rightarrow> u32 \<Rightarrow> TransferDirection \<Rightarrow> (u64 \<times> u32) option
     \<Rightarrow> RequestPacketError + PacketSpec" where
  "build_segment_packet r mem active mtu qpn direction remote =
     and_then (ok_or (segment_bounds (sge_length (wr_sge (ar_work active))) mtu (next_packet active)) PacketOverflow)
       (\<lambda>(offset, len).
     and_then (map_err (\<lambda>_. LocalProtection) (read_local_segment r mem (ar_work active) offset len)) (\<lambda>payload.
     Inr \<lparr>ps_bth = (bth_new (segmented_opcode direction (next_packet active) (packet_count_of active)) qpn
                      (psn_value (wrapping_add (first_psn active) (next_packet active))))
                      \<lparr>ack_request := (next_packet active + 1 = packet_count_of active)\<rparr>,
          ps_reth = (case remote of
              Some (address, rkey) \<Rightarrow>
                if next_packet active = 0
                then Some \<lparr>virtual_address = address, remote_key = rkey,
                           dma_length = sge_length (wr_sge (ar_work active))\<rparr>
                else None
            | None \<Rightarrow> None),
          ps_aeth = None, ps_immediate = None, ps_payload = payload\<rparr>))"

definition build_request_packet ::
  "MemoryRegistry \<Rightarrow> memory \<Rightarrow> ActiveRequest \<Rightarrow> usize \<Rightarrow> u32 \<Rightarrow> RequestPacketError + PacketSpec" where
  "build_request_packet r mem active mtu qpn =
     (case wr_kind (ar_work active) of
        WrSend \<Rightarrow> build_segment_packet r mem active mtu qpn Dir_Send None
      | WrRdmaWrite address rkey \<Rightarrow> build_segment_packet r mem active mtu qpn Dir_Write (Some (address, rkey))
      | WrRdmaRead address rkey \<Rightarrow>
          Inr \<lparr>ps_bth = (bth_new RdmaReadRequest qpn (psn_value (first_psn active)))\<lparr>ack_request := True\<rparr>,
               ps_reth = Some \<lparr>virtual_address = address, remote_key = rkey,
                               dma_length = sge_length (wr_sge (ar_work active))\<rparr>,
               ps_aeth = None, ps_immediate = None, ps_payload = []\<rparr>)"

definition mark_request_packet_sent :: "u64 \<Rightarrow> u64 \<Rightarrow> RcQpSlot \<Rightarrow> RcQpSlot" where
  "mark_request_packet_sent now ticks s =
     (case active_request s of
        None \<Rightarrow> s
      | Some current \<Rightarrow> s\<lparr>active_request := Some (
          case wr_kind (ar_work current) of
            WrRdmaRead _ _ \<Rightarrow>
              current\<lparr>transmitted_packets := max (transmitted_packets current) 1, phase := Waiting,
                      ar_timer := timer_arm (ar_timer current) now ticks\<rparr>
          | _ \<Rightarrow>
              (let current = current\<lparr>next_packet := next_packet current + 1\<rparr>;
                   current = current\<lparr>transmitted_packets := max (transmitted_packets current) (next_packet current)\<rparr>
               in if next_packet current = packet_count_of current
                  then current\<lparr>phase := Waiting, ar_timer := timer_arm (ar_timer current) now ticks\<rparr>
                  else current))\<rparr>)"

section \<open>Responses and retries\<close>

definition fail_active_and_error :: "CompletionStatus \<Rightarrow> rc_state \<Rightarrow> rc_state \<times> usize" where
  "fail_active_and_error status st =
     (let (st, n) = finish_active status 0 st; (st, m) = enter_error st in (st, n + m))"

definition fail_active_and_enter_error :: "CompletionStatus \<Rightarrow> rc_state \<Rightarrow> rc_state \<times> HandlerResult" where
  "fail_active_and_enter_error status st =
     (let (st, n) = fail_active_and_error status st
      in (st, \<lparr>hr_reply = None, hr_completions = n, hr_retransmissions = 0\<rparr>))"

definition fail_active_transport :: "rc_state \<Rightarrow> rc_state \<times> HandlerResult" where
  "fail_active_transport = fail_active_and_enter_error TransportError"

definition schedule_transport_retry :: "rc_state \<Rightarrow> rc_state \<times> HandlerResult" where
  "schedule_transport_retry st =
     (case active_request (the_slot st) of
        None \<Rightarrow> (st, handler_default)
      | Some active \<Rightarrow>
        (case on_failure (retry_budget active) Timeout 0 of
           (b, Retry _) \<Rightarrow>
             (let stats = the_stats st
              in (st\<lparr>the_slot := (the_slot st)\<lparr>active_request := Some (reset_for_retry (active\<lparr>retry_budget := b\<rparr>))\<rparr>,
                     the_stats := stats\<lparr>st_retransmissions := bump (st_retransmissions stats)\<rparr>\<rparr>,
                  \<lparr>hr_reply = None, hr_completions = 0, hr_retransmissions = 1\<rparr>))
         | (b, Exhausted _) \<Rightarrow>
             fail_active_and_enter_error RetryExceeded
               (st\<lparr>the_slot := (the_slot st)\<lparr>active_request := Some (active\<lparr>retry_budget := b\<rparr>)\<rparr>\<rparr>)))"

definition schedule_rnr_retry :: "u8 \<Rightarrow> u64 \<Rightarrow> u64 \<Rightarrow> rc_state \<Rightarrow> rc_state \<times> HandlerResult" where
  "schedule_rnr_retry timer_code now tps st =
     (let delay = ticks_or_max (rnr_timer_ticks timer_code tps)
      in case active_request (the_slot st) of
        None \<Rightarrow> (st, handler_default)
      | Some active \<Rightarrow>
        (case on_failure (retry_budget active) ReceiverNotReady delay of
           (b, Retry ticks) \<Rightarrow>
             (st\<lparr>the_slot := (the_slot st)\<lparr>active_request := Some (active\<lparr>retry_budget := b, phase := RnrWait,
                ar_timer := timer_arm (ar_timer active) now ticks\<rparr>)\<rparr>\<rparr>, handler_default)
         | (b, Exhausted _) \<Rightarrow>
             fail_active_and_enter_error RnrRetryExceeded
               (st\<lparr>the_slot := (the_slot st)\<lparr>active_request := Some (active\<lparr>retry_budget := b\<rparr>)\<rparr>\<rparr>)))"

definition slot_timeout :: "RcQpSlot \<Rightarrow> u64 \<Rightarrow> u64" where
  "slot_timeout s tps = ticks_or_max (ack_timeout_ticks (timeout (qp_config (machine s))) tps)"

definition handle_positive_ack :: "psn \<Rightarrow> u64 \<Rightarrow> u64 \<Rightarrow> rc_state \<Rightarrow> rc_state \<times> HandlerResult" where
  "handle_positive_ack response_psn now tps st =
     (case active_request (the_slot st) of
        None \<Rightarrow> (st, handler_default)
      | Some active \<Rightarrow>
        if (case wr_kind (ar_work active) of WrRdmaRead _ _ \<Rightarrow> True | _ \<Rightarrow> False) then fail_active_transport st
        else if transmitted_packets active = 0 \<or>
          psn_compare response_psn (wrapping_add (first_psn active) (transmitted_packets active - 1)) = After
        then fail_active_transport st
        else case acknowledge (send_window (the_slot st)) response_psn of
          (w, Advanced _ _) \<Rightarrow>
            (let current = active\<lparr>retry_budget := retry_reset (retry_budget active)\<rparr>;
                 s = (the_slot st)\<lparr>send_window := w, active_request := Some current\<rparr>;
                 st = st\<lparr>the_slot := s\<rparr>
             in
             if oldest_unacknowledged w = psn_next (last_psn active) then
               (let (st, n) = finish_active Success (sge_length (wr_sge (ar_work active))) st
                in (st, \<lparr>hr_reply = None, hr_completions = n, hr_retransmissions = 0\<rparr>))
             else
               (st\<lparr>the_slot := s\<lparr>active_request := Some (current\<lparr>ar_timer :=
                  timer_arm (ar_timer current) now (slot_timeout s tps)\<rparr>)\<rparr>\<rparr>, handler_default))
        | (w, AckDuplicate) \<Rightarrow> (st\<lparr>the_slot := (the_slot st)\<lparr>send_window := w\<rparr>\<rparr>, handler_default)
        | (w, AckInvalid) \<Rightarrow> fail_active_transport (st\<lparr>the_slot := (the_slot st)\<lparr>send_window := w\<rparr>\<rparr>))"

definition handle_aeth_response :: "Aeth \<Rightarrow> psn \<Rightarrow> u64 \<Rightarrow> u64 \<Rightarrow> rc_state \<Rightarrow> rc_state \<times> HandlerResult" where
  "handle_aeth_response aeth response_psn now tps st =
     (case aeth_class aeth of
        AckClass _ \<Rightarrow> handle_positive_ack response_psn now tps st
      | RnrNak timer \<Rightarrow>
          (let stats = the_stats st
           in schedule_rnr_retry timer now tps
                (st\<lparr>the_stats := stats\<lparr>st_rnr_naks := bump (st_rnr_naks stats)\<rparr>\<rparr>))
      | Nak PsnSequenceError \<Rightarrow> schedule_transport_retry st
      | Nak InvalidRequest \<Rightarrow> fail_active_and_enter_error RemoteInvalidRequest st
      | Nak NakRemoteAccessError \<Rightarrow> fail_active_and_enter_error RemoteAccessError st
      | _ \<Rightarrow> fail_active_and_enter_error TransportError st)"

definition accept_read_segment :: "ActiveRequest \<Rightarrow> octets \<Rightarrow> psn \<Rightarrow> u64 \<Rightarrow> u64 \<Rightarrow> rc_state \<Rightarrow> rc_state \<times> HandlerResult" where
  "accept_read_segment active payload received_psn now tps st =
     (let s = (the_slot st)\<lparr>send_window := fst (acknowledge (send_window (the_slot st)) received_psn)\<rparr>;
          completed = (read_packets_received active + 1 = packet_count_of active);
          current = active\<lparr>read_packets_received := read_packets_received active + 1,
                           bytes_received := u32_saturating_add (bytes_received active) (u32_or_max (length payload)),
                           retry_budget := retry_reset (retry_budget active)\<rparr>;
          current = (if completed then current
                     else current\<lparr>ar_timer := timer_arm (ar_timer current) now (slot_timeout s tps)\<rparr>);
          st = st\<lparr>the_slot := s\<lparr>active_request := Some current\<rparr>\<rparr>
      in if completed then
           (let (st, n) = finish_active Success (sge_length (wr_sge (ar_work active))) st
            in (st, \<lparr>hr_reply = None, hr_completions = n, hr_retransmissions = 0\<rparr>))
         else (st, handler_default))"

definition handle_read_response :: "PacketRef \<Rightarrow> u64 \<Rightarrow> u64 \<Rightarrow> rc_state \<Rightarrow> rc_state \<times> HandlerResult" where
  "handle_read_response packet now tps st =
     (case active_request (the_slot st) of
        None \<Rightarrow> (st, handler_default)
      | Some active \<Rightarrow>
        if (case wr_kind (ar_work active) of WrRdmaRead _ _ \<Rightarrow> False | _ \<Rightarrow> True) then fail_active_transport st
        else if (case pr_aeth packet of
             Some aeth \<Rightarrow> (case aeth_class aeth of AckClass _ \<Rightarrow> False | _ \<Rightarrow> True) | None \<Rightarrow> False)
        then handle_aeth_response (the (pr_aeth packet)) (new_truncated (psn (pr_bth packet))) now tps st
        else if psn_compare (new_truncated (psn (pr_bth packet)))
             (wrapping_add (first_psn active) (read_packets_received active)) \<noteq> Equal
        then (st, handler_default)
        else if opcode (pr_bth packet) \<noteq>
             segmented_opcode Dir_ReadResponse (read_packets_received active) (packet_count_of active)
        then fail_active_transport st
        else case segment_bounds (sge_length (wr_sge (ar_work active))) (slot_mtu (the_slot st))
               (read_packets_received active) of
          None \<Rightarrow> fail_active_transport st
        | Some (offset, expected_length) \<Rightarrow>
          if length (pr_payload packet) \<noteq> expected_length then fail_active_transport st
          else case u64_checked_add (sge_address (wr_sge (ar_work active))) (ticks_or_max (u64_try_from offset)) of
            None \<Rightarrow> fail_active_and_enter_error LocalLengthError st
          | Some local_address \<Rightarrow>
            (case write_local (the_registry st) (the_store st) (sge_lkey (wr_sge (ar_work active))) local_address
                    (pr_payload packet) of
               Inl _ \<Rightarrow> fail_active_and_enter_error LocalProtectionError st
             | Inr mem \<Rightarrow> accept_read_segment active (pr_payload packet) (new_truncated (psn (pr_bth packet)))
                 now tps (st\<lparr>the_store := mem\<rparr>)))"

definition handle_response_packet :: "PacketRef \<Rightarrow> u64 \<Rightarrow> u64 \<Rightarrow> rc_state \<Rightarrow> rc_state \<times> HandlerResult" where
  "handle_response_packet packet now tps st =
     (if active_request (the_slot st) = None then (st, handler_default)
      else if opcode (pr_bth packet) = Acknowledge then
        (case pr_aeth packet of
           None \<Rightarrow> fail_active_transport st
         | Some aeth \<Rightarrow> handle_aeth_response aeth (new_truncated (psn (pr_bth packet))) now tps st)
      else if opcode (pr_bth packet) \<in>
          {RdmaReadResponseFirst, RdmaReadResponseMiddle, RdmaReadResponseLast, RdmaReadResponseOnly}
      then handle_read_response packet now tps st
      else fail_active_transport st)"

section \<open>The books\<close>

lemma fail_active_keeps:
  assumes "fail_active_and_error status st = (st', n)"
  shows "rc_keeps others st st' n"
proof (rule rc_keeps_step)
  assume inv: "rc_inv others st"
  obtain st1 k where 1: "finish_active status 0 st = (st1, k)" by fastforce
  obtain m where 2: "enter_error st1 = (st', m)" "n = k + m"
    using assms 1 by (auto simp: fail_active_and_error_def split: prod.splits)
  have s1: "rc_step others {#} st {#} st1 k" by (rule finish_active_step(1) [OF 1])
  then have "rc_pre {#} others st1" using inv by (simp add: rc_step_def rc_inv_pre)
  note s2 = enter_error_all(1,2) [OF this 2(1)]
  show "rc_step others {#} st {#} st' n" unfolding 2(2) by (rule rc_step_trans [OF s1 s2(1)])
  show "memory_held (the_slot st')" using emptied_owns [OF s2(2)] by blast
qed

lemma fail_active_enter_keeps:
  "fail_active_and_enter_error status st = (st', res) \<Longrightarrow> rc_keeps others st st' (hr_completions res)"
  by (auto simp: fail_active_and_enter_error_def split: prod.splits intro: fail_active_keeps)

lemma fail_active_transport_keeps:
  "fail_active_transport st = (st', res) \<Longrightarrow> rc_keeps others st st' (hr_completions res)"
  unfolding fail_active_transport_def by (rule fail_active_enter_keeps)

text \<open>Changes to the active request other than its work, and to the window.\<close>

lemma active_update_keeps:
  assumes "active_request (the_slot st) = Some active" "ar_work active' = ar_work active"
  shows "rc_keeps others st (st\<lparr>the_slot := (the_slot st)\<lparr>send_window := w, active_request := Some active'\<rparr>\<rparr>) 0"
    and "rc_keeps others st (st\<lparr>the_slot := (the_slot st)\<lparr>active_request := Some active'\<rparr>\<rparr>) 0"
    and "rc_keeps others st (st\<lparr>the_slot := (the_slot st)\<lparr>send_window := w, active_request := Some active'\<rparr>, the_store := mem\<rparr>) 0"
  by (rule rc_keeps_frame; use assms in \<open>simp add: slot_inv_def slot_pre_def memory_held_def queues_ok_def
    all_leased_def owed_def works_def receives_def slot_leases_def\<close>)+

lemma rc_keeps_stats_after: "rc_keeps others st (st'\<lparr>the_stats := x\<rparr>) n = rc_keeps others st st' n"
  by (simp add: rc_keeps_def rc_inv_def)

lemma finish_active_keeps:
  assumes "finish_active status n st = (st', k)"
  shows "rc_keeps others st st' k"
proof (rule rc_keeps_step)
  assume inv: "rc_inv others st"
  then have pre: "rc_pre {#} others st" by (simp add: rc_inv_pre)
  show "memory_held (the_slot st')"
    using inv finish_active_frame [OF assms] finish_active_step(2) [OF assms pre]
    by (simp add: rc_inv_pre memory_held_def)
qed (rule finish_active_step(1) [OF assms])


lemma schedule_transport_retry_keeps:
  assumes "schedule_transport_retry st = (st', res)"
  shows "rc_keeps others st st' (hr_completions res)"
proof (cases "active_request (the_slot st)")
  case None
  then show ?thesis using assms by (auto simp: schedule_transport_retry_def handler_default_def)
next
  case (Some active)
  obtain b d where b: "on_failure (retry_budget active) Timeout 0 = (b, d)" by fastforce
  show ?thesis
  proof (cases d)
    case (Retry t)
    have "rc_keeps others st (st\<lparr>the_slot := (the_slot st)\<lparr>active_request := Some (reset_for_retry (active\<lparr>retry_budget := b\<rparr>))\<rparr>\<rparr>) 0"
      by (rule active_update_keeps(2) [OF Some]) (simp add: reset_for_retry_def)
    then show ?thesis using assms Some b Retry
      by (auto simp: schedule_transport_retry_def Let_def rc_keeps_stats_after)
  next
    case (Exhausted r)
    let ?st = "st\<lparr>the_slot := (the_slot st)\<lparr>active_request := Some (active\<lparr>retry_budget := b\<rparr>)\<rparr>\<rparr>"
    have 1: "rc_keeps others st ?st 0" by (rule active_update_keeps(2) [OF Some]) simp
    have "fail_active_and_enter_error RetryExceeded ?st = (st', res)"
      using assms Some b Exhausted by (simp add: schedule_transport_retry_def)
    from rc_keeps_trans [OF 1 fail_active_enter_keeps [OF this]] show ?thesis by simp
  qed
qed

lemma schedule_rnr_retry_keeps:
  assumes "schedule_rnr_retry tc now tps st = (st', res)"
  shows "rc_keeps others st st' (hr_completions res)"
proof (cases "active_request (the_slot st)")
  case None
  then show ?thesis using assms by (auto simp: schedule_rnr_retry_def handler_default_def)
next
  case (Some active)
  obtain b d where b: "on_failure (retry_budget active) ReceiverNotReady (ticks_or_max (rnr_timer_ticks tc tps)) = (b, d)"
    by fastforce
  show ?thesis
  proof (cases d)
    case (Retry t)
    have "rc_keeps others st (st\<lparr>the_slot := (the_slot st)\<lparr>active_request := Some (active\<lparr>retry_budget := b, phase := RnrWait,
        ar_timer := timer_arm (ar_timer active) now t\<rparr>)\<rparr>\<rparr>) 0"
      by (rule active_update_keeps(2) [OF Some]) simp
    then show ?thesis using assms Some b Retry by (auto simp: schedule_rnr_retry_def handler_default_def)
  next
    case (Exhausted r)
    let ?st = "st\<lparr>the_slot := (the_slot st)\<lparr>active_request := Some (active\<lparr>retry_budget := b\<rparr>)\<rparr>\<rparr>"
    have 1: "rc_keeps others st ?st 0" by (rule active_update_keeps(2) [OF Some]) simp
    have "fail_active_and_enter_error RnrRetryExceeded ?st = (st', res)"
      using assms Some b Exhausted by (simp add: schedule_rnr_retry_def)
    from rc_keeps_trans [OF 1 fail_active_enter_keeps [OF this]] show ?thesis by simp
  qed
qed

lemma window_update_keeps: "rc_keeps others st (st\<lparr>the_slot := (the_slot st)\<lparr>send_window := w\<rparr>\<rparr>) 0"
  by (rule rc_keeps_frame) simp_all

lemma handle_positive_ack_keeps:
  assumes h: "handle_positive_ack p now tps st = (st', res)"
  shows "rc_keeps others st st' (hr_completions res)"
proof (cases "active_request (the_slot st)")
  case None
  then show ?thesis using h by (auto simp: handle_positive_ack_def handler_default_def)
next
  case (Some active)
  obtain w a where w: "acknowledge (send_window (the_slot st)) p = (w, a)" by fastforce
  let ?bad = "(case wr_kind (ar_work active) of WrRdmaRead _ _ \<Rightarrow> True | _ \<Rightarrow> False) \<or> transmitted_packets active = 0 \<or>
      psn_compare p (wrapping_add (first_psn active) (transmitted_packets active - 1)) = After"
  let ?cur = "active\<lparr>retry_budget := retry_reset (retry_budget active)\<rparr>"
  let ?s = "(the_slot st)\<lparr>send_window := w, active_request := Some ?cur\<rparr>"
  consider (bad) ?bad | (adv) n u where "\<not> ?bad" "a = Advanced n u" | (dup) "\<not> ?bad" "a = AckDuplicate"
    | (inv) "\<not> ?bad" "a = AckInvalid" by (cases a) blast+
  then show ?thesis
  proof cases
    case bad
    then have "fail_active_transport st = (st', res)"
      using h Some by (auto simp: handle_positive_ack_def split: if_splits WorkRequestKind.splits)
    then show ?thesis by (rule fail_active_transport_keeps)
  next
    case adv
    have 1: "rc_keeps others st (st\<lparr>the_slot := ?s\<rparr>) 0" by (rule active_update_keeps(1) [OF Some]) simp
    show ?thesis
    proof (cases "oldest_unacknowledged w = psn_next (last_psn active)")
      case True
      obtain st1 k where fin: "finish_active Success (sge_length (wr_sge (ar_work active))) (st\<lparr>the_slot := ?s\<rparr>) = (st1, k)"
        by fastforce
      have "st' = st1" "hr_completions res = k"
        using h Some adv w True fin by (auto simp: handle_positive_ack_def Let_def)
      then show ?thesis using rc_keeps_trans [OF 1 finish_active_keeps [OF fin]] by simp
    next
      case False
      then have "st' = st\<lparr>the_slot := (the_slot st)\<lparr>send_window := w, active_request := Some (?cur\<lparr>ar_timer :=
          timer_arm (ar_timer ?cur) now (slot_timeout ?s tps)\<rparr>)\<rparr>\<rparr>" "hr_completions res = 0"
        using h Some adv w by (auto simp: handle_positive_ack_def Let_def handler_default_def)
      then show ?thesis using active_update_keeps(1) [OF Some] by simp
    qed
  next
    case dup
    then show ?thesis using h Some w window_update_keeps [of others st w]
      by (auto simp: handle_positive_ack_def handler_default_def)
  next
    case inv
    then have "fail_active_transport (st\<lparr>the_slot := (the_slot st)\<lparr>send_window := w\<rparr>\<rparr>) = (st', res)"
      using h Some w by (auto simp: handle_positive_ack_def)
    from rc_keeps_trans [OF window_update_keeps fail_active_transport_keeps [OF this]] show ?thesis by simp
  qed
qed

lemma handle_aeth_response_keeps:
  "handle_aeth_response aeth p now tps st = (st', res) \<Longrightarrow> rc_keeps others st st' (hr_completions res)"
  by (auto simp: handle_aeth_response_def Let_def rc_keeps_stats split: AethClass.splits NakCode.splits
    intro: handle_positive_ack_keeps schedule_transport_retry_keeps fail_active_enter_keeps
    dest: schedule_rnr_retry_keeps [of _ _ _ _ _ _ others])


lemma accept_read_segment_keeps:
  assumes h: "accept_read_segment active payload p now tps (st\<lparr>the_store := mem\<rparr>) = (st', res)"
    and active: "active_request (the_slot st) = Some active"
  shows "rc_keeps others st st' (hr_completions res)"
proof -
  let ?w = "fst (acknowledge (send_window (the_slot st)) p)"
  let ?done = "read_packets_received active + 1 = packet_count_of active"
  let ?cur = "active\<lparr>read_packets_received := read_packets_received active + 1,
      bytes_received := u32_saturating_add (bytes_received active) (u32_or_max (length payload)),
      retry_budget := retry_reset (retry_budget active)\<rparr>"
  let ?cur' = "if ?done then ?cur else ?cur\<lparr>ar_timer := timer_arm (ar_timer ?cur) now
      (slot_timeout ((the_slot st)\<lparr>send_window := ?w\<rparr>) tps)\<rparr>"
  let ?st = "st\<lparr>the_slot := (the_slot st)\<lparr>send_window := ?w, active_request := Some ?cur'\<rparr>, the_store := mem\<rparr>"
  have 1: "rc_keeps others st ?st 0" by (rule active_update_keeps(3) [OF active]) simp
  have st: "?st = st\<lparr>the_store := mem, the_slot := (the_slot st)\<lparr>send_window := ?w, active_request := Some ?cur'\<rparr>\<rparr>"
    by (cases st) simp
  show ?thesis
  proof (cases ?done)
    case True
    obtain st1 k where fin: "finish_active Success (sge_length (wr_sge (ar_work active))) ?st = (st1, k)" by fastforce
    have "st' = st1" "hr_completions res = k"
      using h True fin unfolding st by (auto simp: accept_read_segment_def Let_def)
    then show ?thesis using rc_keeps_trans [OF 1 finish_active_keeps [OF fin]] by simp
  next
    case False
    then have "st' = ?st" "hr_completions res = 0"
      using h unfolding st by (auto simp: accept_read_segment_def Let_def handler_default_def)
    then show ?thesis using 1 by simp
  qed
qed

lemma handle_read_response_keeps:
  assumes h: "handle_read_response packet now tps st = (st', res)"
  shows "rc_keeps others st st' (hr_completions res)"
proof (cases "active_request (the_slot st)")
  case None
  then show ?thesis using h by (auto simp: handle_read_response_def handler_default_def)
next
  case (Some active)
  show ?thesis using h unfolding handle_read_response_def Some
    by (auto simp: handler_default_def split: if_splits option.splits sum.splits
      intro: fail_active_transport_keeps fail_active_enter_keeps handle_aeth_response_keeps
        accept_read_segment_keeps [OF _ Some])
qed

lemma handle_response_packet_keeps:
  "handle_response_packet packet now tps st = (st', res) \<Longrightarrow> rc_keeps others st st' (hr_completions res)"
  by (auto simp: handle_response_packet_def handler_default_def split: if_splits option.splits
    intro: fail_active_transport_keeps handle_aeth_response_keeps handle_read_response_keeps)

lemma ring_front_pop: "snd (ring_pop q) = ring_front q"
  by (simp add: ring_pop_def ring_front_def)

lemma start_next_request_cases:
  obtains (same) w where "start_next_request tps s = s\<lparr>send_window := w\<rparr>"
  | (started) w q posted active where
      "start_next_request tps s = s\<lparr>send_window := w, send_queue := q, active_memory := posted_lease posted,
         active_request := Some active\<rparr>" "ring_pop (send_queue s) = (q, Some posted)"
      "ar_work active = posted_work posted" "active_request s = None"
proof (cases "active_request s \<noteq> None \<or> \<not> can_send (machine s)")
  case True
  then show ?thesis using same [of "send_window s"] by (simp add: start_next_request_def)
next
  case go: False
  obtain q x where pop: "ring_pop (send_queue s) = (q, x)" by fastforce
  then have front: "ring_front (send_queue s) = x" using ring_front_pop [of "send_queue s"] by simp
  show ?thesis
  proof (cases x)
    case None
    then show ?thesis using same [of "send_window s"] go front by (simp add: start_next_request_def)
  next
    case (Some posted)
    let ?config = "qp_config (machine s)"
    obtain w x where w: "reserve_many (send_window s)
        (packet_count (sge_length (wr_sge (posted_work posted))) (mtu_bytes (path_mtu ?config))) = (w, x)" by fastforce
    let ?policy = "retry_policy_new (retry_count ?config) (rnr_retry_count ?config)
        (ticks_or_max (ack_timeout_ticks (timeout ?config) tps))"
    show ?thesis
    proof (cases "x = None \<or> ?policy = None")
      case True
      then have "start_next_request tps s = s\<lparr>send_window := w\<rparr>"
        using go front w Some by (cases x) (auto simp: start_next_request_def Let_def)
      then show ?thesis by (rule same)
    next
      case False
      then obtain start policy where p: "x = Some start" "?policy = Some policy" by (auto simp: not_None_eq)
      let ?n = "packet_count (sge_length (wr_sge (posted_work posted))) (mtu_bytes (path_mtu ?config))"
      let ?active = "\<lparr>ar_work = posted_work posted, first_psn = start, last_psn = wrapping_add start (?n - 1),
          packet_count_of = ?n, next_packet = 0, transmitted_packets = 0, read_packets_received = 0, bytes_received = 0,
          retry_budget = retry_budget_new policy, ar_timer = timer_new, phase = Sending\<rparr>"
      have "start_next_request tps s = s\<lparr>send_window := w, send_queue := q, active_memory := posted_lease posted,
         active_request := Some ?active\<rparr>"
        using go front w Some pop p by (simp add: start_next_request_def Let_def)
      then show ?thesis using started pop Some go by auto
    qed
  qed
qed

lemma start_request_keeps:
  assumes pop: "ring_pop (send_queue (the_slot st)) = (q, Some posted)" and work: "ar_work active = posted_work posted"
    and none: "active_request (the_slot st) = None"
  shows "rc_keeps others st (st\<lparr>the_slot := (the_slot st)\<lparr>send_window := w, send_queue := q,
    active_memory := posted_lease posted, active_request := Some active\<rparr>\<rparr>) 0"
proof -
  let ?s = "the_slot st"
  let ?s' = "?s\<lparr>send_window := w, send_queue := q, active_memory := posted_lease posted, active_request := Some active\<rparr>"
  have "rc_step others {#} st {#} (st\<lparr>the_slot := ?s'\<rparr>) 0 \<and> memory_held ?s'" if inv: "rc_inv others st"
  proof -
    have slot: "slot_pre {#} ?s" and held: "memory_held ?s" and qinv: "ring_inv (send_queue ?s)"
      using inv by (simp_all add: rc_inv_pre rc_pre_def slot_pre_def queues_ok_def)
    note q = ring.pop_oldest [OF qinv pop]
    have w: "works ?s' = works ?s" "receives ?s' = receives ?s"
      using work none by (simp_all add: works_def receives_def q)
    have "slot_leases ?s' = slot_leases ?s"
      using held none by (simp add: slot_leases_def q memory_held_def)
    moreover have "slot_pre {#} ?s'"
      using slot q w by (simp add: slot_pre_def queues_ok_def all_leased_def owed_def)
    moreover have "memory_held ?s'"
      using held slot q by (simp add: memory_held_def slot_pre_def all_leased_def)
    ultimately show ?thesis using slot w by (auto intro!: rc_step_frame)
  qed
  then show ?thesis by (intro rc_keeps_step) auto
qed

lemma start_next_request_keeps:
  "rc_keeps others st (st\<lparr>the_slot := start_next_request tps (the_slot st)\<rparr>) 0"
proof (cases rule: start_next_request_cases [of tps "the_slot st"])
  case (same w)
  then show ?thesis by (simp add: window_update_keeps)
next
  case (started w q posted active)
  then show ?thesis using start_request_keeps by simp
qed

lemma mark_request_packet_sent_keeps:
  "rc_keeps others st (st\<lparr>the_slot := mark_request_packet_sent now ticks (the_slot st)\<rparr>) 0"
  by (cases "active_request (the_slot st)")
    (auto simp: mark_request_packet_sent_def Let_def split: WorkRequestKind.split intro!: active_update_keeps(2))


lemma start_next_request_active:
  assumes "active_request s = None" "active_request (start_next_request tps s) = Some active"
  shows "first_psn active = next_to_send (send_window s)"
    "packet_count_of active = packet_count (sge_length (wr_sge (ar_work active))) (mtu_bytes (path_mtu (qp_config (machine s))))"
    "last_psn active = wrapping_add (first_psn active) (packet_count_of active - 1)"
    "ring_front (send_queue s) = Some p \<Longrightarrow> ar_work active = posted_work p"
  using assms
  by (auto simp: start_next_request_def reserve_many_def Let_def split: option.splits prod.splits if_splits)

section \<open>The packets of a request\<close>

lemma read_local_part:
  assumes inv: "registry_inv r" and whole: "read_local r mem k address len = Inr bs" and part: "off + n \<le> len"
  shows "read_local r mem k (address + of_nat off) n = Inr (take n (drop off bs))"
    and "u64_checked_add address (of_nat off) = Some (address + of_nat off)" and "length bs = len"
proof -
  obtain p q where x: "resolve r k LocalKey ACCESS_NONE address len = Inr (p, q)"
    and bs: "bs = copy_from_registered mem p q len"
    using whole by (auto simp: read_local_def result_simps)
  have pq: "p + of_nat q = address"
    using resolve_part(1) [OF inv x, of 0 len] x by auto
  obtain p' q' where x': "resolve r k LocalKey ACCESS_NONE (address + of_nat off) n = Inr (p', q')"
    and pq': "p' + of_nat q' = address + of_nat off"
    using resolve_part(1) [OF inv x part] by blast
  have "copy_from_registered mem p' q' n = take n (drop off bs)"
  proof (rule nth_equalityI)
    show "length (copy_from_registered mem p' q' n) = length (take n (drop off bs))"
      using part by (simp add: bs copy_from_registered_def)
    fix i assume "i < length (copy_from_registered mem p' q' n)"
    then have i: "i < n" by (simp add: copy_from_registered_def)
    have "p' + of_nat (q' + i) = p + of_nat (q + (off + i))"
      using pq pq' by (simp add: add.assoc [symmetric])
    moreover have "copy_from_registered mem p' q' n ! i = mem (p' + of_nat (q' + i))"
      using i by (simp add: copy_from_registered_def del: of_nat_add)
    moreover have "take n (drop off bs) ! i = mem (p + of_nat (q + (off + i)))"
      using i part by (simp add: bs copy_from_registered_def del: of_nat_add)
    ultimately show "copy_from_registered mem p' q' n ! i = take n (drop off bs) ! i" by (simp only:)
  qed
  then show "read_local r mem k (address + of_nat off) n = Inr (take n (drop off bs))"
    using x' by (simp add: read_local_def)
  show "u64_checked_add address (of_nat off) = Some (address + of_nat off)"
    by (rule resolve_part(2) [OF inv x part])
  show "length bs = len" by (simp add: bs copy_from_registered_def)
qed

lemma segment_bounds_nat:
  assumes "i < segs (unat len) mtu" "0 < mtu" "mtu \<le> 4096"
  shows "segment_bounds len mtu (of_nat i) = Some (i * mtu, min (unat len - i * mtu) mtu)"
proof -
  have L: "unat len < 2 ^ 32" using unsigned_less [of len, where 'a = nat] by simp
  have n: "segs (unat len) mtu \<le> max 1 (unat len)" by (rule segs_le [OF assms(2)])
  have i: "i < 2 ^ 32" using assms(1) n L by simp
  have le: "i * mtu < unat len \<or> (i = 0 \<and> unat len = 0)" by (rule segs_before [OF assms(2,1)])
  then have "i * mtu < 2 ^ 32" using L by auto
  then show ?thesis using i le assms by (auto simp: segment_bounds_def Let_def unat_of_nat usize_max_def)
qed

lemma piece_bounds: "piece bs mtu i = take (min (length bs - i * mtu) mtu) (drop (i * mtu) bs)"
  by (simp add: piece_def min_def)

text \<open>The packets of an active SEND or WRITE request, as the segments of its message.\<close>

definition request_segment :: "WorkRequest \<Rightarrow> octets \<Rightarrow> int \<Rightarrow> usize \<Rightarrow> nat \<Rightarrow> PacketRef \<Rightarrow> bool" where
  "request_segment work bs f mtu i pkt =
     (case wr_kind work of
        WrSend \<Rightarrow> send_segment \<lparr>sm_data = bs, sm_psn = f, sm_mtu = mtu\<rparr> i pkt
      | WrRdmaWrite address rkey \<Rightarrow>
          write_segment \<lparr>wm_address = address, wm_rkey = rkey, wm_data = bs, wm_psn = f, wm_mtu = mtu\<rparr> i pkt
      | WrRdmaRead _ _ \<Rightarrow> False)"

definition request_for :: "ActiveRequest \<Rightarrow> WorkRequest \<Rightarrow> int \<Rightarrow> usize \<Rightarrow> nat \<Rightarrow> bool" where
  "request_for active work f mtu i \<longleftrightarrow> ar_work active = work \<and> first_psn active = psn_of f \<and>
     packet_count_of active = packet_count (sge_length (wr_sge work)) mtu \<and> next_packet active = of_nat i \<and>
     i < segs (unat (sge_length (wr_sge work))) mtu"


lemma pr_reth_spec [simp]: "pr_reth (spec_packet s icrc) = ps_reth s"
  by (simp add: spec_packet_def)

lemma spec_packet_segment:
  assumes "request_for active work f mtu i" and mtu: "0 < mtu" "mtu \<le> 4096" and bs: "length bs = unat (sge_length (wr_sge work))"
    and spec: "ps_bth spec = (bth_new (segmented_opcode d (of_nat i) (packet_count_of active)) qpn
        (psn_value (wrapping_add (first_psn active) (of_nat i))))\<lparr>ack_request := a\<rparr>"
      "ps_payload spec = piece bs mtu i"
  shows "opcode (pr_bth (spec_packet spec icrc)) = segmented_opcode d (of_nat i) (of_nat (segs (length bs) mtu))"
    "new_truncated (psn (pr_bth (spec_packet spec icrc))) = psn_of (f + int i)"
    "partition_key (pr_bth (spec_packet spec icrc)) = DEFAULT_PKEY"
    "pr_payload (spec_packet spec icrc) = piece bs mtu i"
proof -
  have n: "segs (length bs) mtu \<le> max 1 (length bs)" by (rule segs_le [OF mtu(1)])
  have L: "length bs < 2 ^ 32" using unsigned_less [of "sge_length (wr_sge work)", where 'a = nat] by (simp add: bs)
  have c: "unat (packet_count_of active) = segs (length bs) mtu"
    using assms(1) packet_count_segs [of mtu] mtu by (simp add: request_for_def bs)
  then have "packet_count_of active = of_nat (segs (length bs) mtu)" by (simp flip: c)
  then show "opcode (pr_bth (spec_packet spec icrc)) = segmented_opcode d (of_nat i) (of_nat (segs (length bs) mtu))"
    by (simp add: spec_packet_def spec bth_new_def)
  have "i < 2 ^ 32" using assms(1) n L by (auto simp: request_for_def bs)
  then have "uint (of_nat i :: u32) = int i" by (simp add: uint_nat unat_of_nat)
  then show "new_truncated (psn (pr_bth (spec_packet spec icrc))) = psn_of (f + int i)"
    using assms(1) by (simp add: spec_packet_def spec bth_new_def request_for_def wrapping_add_psn_of new_truncated_eq psn_of_eq_iff)
qed (simp_all add: spec_packet_def spec bth_new_def)

lemma build_request_packet_segment:
  assumes inv: "registry_inv r" and req: "request_for active work f mtu i" and mtu: "0 < mtu" "mtu \<le> 4096"
    and data: "read_local r mem (sge_lkey (wr_sge work)) (sge_address (wr_sge work)) (unat (sge_length (wr_sge work))) = Inr bs"
    and kind: "\<forall>a k. wr_kind work \<noteq> WrRdmaRead a k"
  shows "\<exists>spec. build_request_packet r mem active mtu qpn = Inr spec \<and>
    (\<forall>icrc. request_segment work bs f mtu i (spec_packet spec icrc)) \<and>
    (qpn \<le> QPN_MASK \<longrightarrow> spec_ok spec) \<and> length (ps_payload spec) \<le> mtu \<and>
    ps_aeth spec = None \<and> ps_immediate spec = None \<and> destination_qpn (ps_bth spec) = qpn"
proof -
  have w: "ar_work active = work" "next_packet active = of_nat i" "i < segs (unat (sge_length (wr_sge work))) mtu"
    using req by (simp_all add: request_for_def)
  let ?L = "unat (sge_length (wr_sge work))"
  have L: "?L < 2 ^ 32" using unsigned_less [of "sge_length (wr_sge work)", where 'a = nat] by simp
  note sb = segment_bounds_nat [OF w(3) mtu]
  have fit: "i * mtu + min (?L - i * mtu) mtu \<le> ?L" using segs_before [OF mtu(1) w(3)] by auto
  note rd = read_local_part [OF inv data fit]
  have off: "u64_try_from (i * mtu) = Some (of_nat (i * mtu))"
    using fit L by (simp add: u64_try_from_def)
  have seg: "read_local_segment r mem work (i * mtu) (min (?L - i * mtu) mtu) = Inr (piece bs mtu i)"
    using rd off by (simp add: read_local_segment_def piece_bounds del: of_nat_mult)
  let ?spec = "\<lambda>d reth. \<lparr>ps_bth = (bth_new (segmented_opcode d (of_nat i) (packet_count_of active)) qpn
        (psn_value (wrapping_add (first_psn active) (of_nat i))))\<lparr>ack_request := (of_nat i + 1 = packet_count_of active)\<rparr>,
      ps_reth = reth, ps_aeth = None, ps_immediate = None, ps_payload = piece bs mtu i\<rparr>"
  have built: "build_segment_packet r mem active mtu qpn d remote = Inr (?spec d (case remote of
        Some (a, k) \<Rightarrow> if (of_nat i :: u32) = 0 then Some \<lparr>virtual_address = a, remote_key = k, dma_length = sge_length (wr_sge work)\<rparr> else None
      | None \<Rightarrow> None))" for d remote
    using sb seg by (simp add: build_segment_packet_def w split: option.split)
  have sp: "opcode (pr_bth (spec_packet (?spec d reth) icrc)) = segmented_opcode d (of_nat i) (of_nat (segs (length bs) mtu)) \<and>
      new_truncated (psn (pr_bth (spec_packet (?spec d reth) icrc))) = psn_of (f + int i) \<and>
      partition_key (pr_bth (spec_packet (?spec d reth) icrc)) = DEFAULT_PKEY \<and>
      pr_payload (spec_packet (?spec d reth) icrc) = piece bs mtu i \<and> pr_reth (spec_packet (?spec d reth) icrc) = reth" for d reth icrc
    using spec_packet_segment [OF req mtu rd(3), where spec = "?spec d reth" and d = d and qpn = qpn and icrc = icrc
        and a = "of_nat i + 1 = packet_count_of active"] by simp
  have len: "length (piece bs mtu i) \<le> mtu" by (simp add: piece_def)
  have ok: "spec_ok (?spec d reth)"
    if "qpn \<le> QPN_MASK" "has_reth (segmented_opcode d (of_nat i) (packet_count_of active)) = (reth \<noteq> None)"
      "d \<noteq> Dir_ReadResponse" for d reth
  proof -
    have "psn_value (wrapping_add (first_psn active) (of_nat i)) \<le> WIRE_PSN_MASK"
      using psn_ok_psn_of [of "f + uint (of_nat i :: u32)"] req
      by (simp add: request_for_def wrapping_add_psn_of psn_ok_def PSN_MASK_def WIRE_PSN_MASK_def)
    moreover have "\<not> has_aeth (segmented_opcode d (of_nat i) (packet_count_of active))"
      "\<not> has_immediate (segmented_opcode d (of_nat i) (packet_count_of active))"
      "allows_payload (segmented_opcode d (of_nat i) (packet_count_of active))"
      using that(3) by (cases d; auto simp: segmented_opcode.simps has_aeth_def has_immediate_def allows_payload_def split: bool.splits)+
    ultimately show ?thesis using that(1,2)
      by (simp add: spec_ok_def bth_ok_def bth_new_def headers_match_def)
  qed
  show ?thesis
  proof (cases "wr_kind work")
    case WrSend
    have "request_segment work bs f mtu i (spec_packet (?spec Dir_Send None) icrc)" for icrc
      using sp [where d = Dir_Send and reth = None and icrc = icrc]
      by (simp add: request_segment_def WrSend send_segment_def sm_segments_def)
    moreover have "\<not> has_reth (segmented_opcode Dir_Send (of_nat i) (packet_count_of active))"
      by (auto simp: segmented_opcode.simps has_reth_def split: bool.splits)
    ultimately show ?thesis using built [of Dir_Send None] ok [of Dir_Send None] len
      by (simp add: build_request_packet_def w WrSend bth_new_def)
  next
    case (WrRdmaWrite a k)
    let ?reth = "if (of_nat i :: u32) = 0 then Some \<lparr>virtual_address = a, remote_key = k, dma_length = sge_length (wr_sge work)\<rparr> else None"
    have dl: "of_nat (length bs) = sge_length (wr_sge work)" using rd(3) by simp
    have "request_segment work bs f mtu i (spec_packet (?spec Dir_Write ?reth) icrc)" for icrc
      using sp [where d = Dir_Write and reth = ?reth and icrc = icrc] dl
      by (simp add: request_segment_def WrRdmaWrite write_segment_def wm_segments_def)
    moreover have "has_reth (segmented_opcode Dir_Write (of_nat i) (packet_count_of active)) = (?reth \<noteq> None)"
      by (auto simp: segmented_opcode.simps has_reth_def split: bool.splits)
    ultimately show ?thesis using built [of Dir_Write "Some (a, k)"] ok [of Dir_Write ?reth] len
      by (simp add: build_request_packet_def w WrRdmaWrite bth_new_def)
  qed (use kind in blast)
qed


lemma maximum_packet_for_mtu_eq: "maximum_packet_for_mtu (mtu_bytes m) = Inr (mtu_bytes m + 63)"
  by (cases m) (simp_all add: maximum_packet_for_mtu_def usize_checked_add_def usize_max_def IPV4_HEADER_LEN_def UDP_HEADER_LEN_def
    BTH_LEN_def RETH_LEN_def AETH_LEN_def ICRC_LEN_def)

lemma request_body_length:
  assumes "ps_aeth spec = None" "ps_immediate spec = None"
  shows "length (spec_body spec) \<le> 31 + length (ps_payload spec)"
  using assms spec_pad_less [of spec] by (cases "ps_reth spec") (auto simp: spec_body_def bth.wire_length reth.wire_length)

text \<open>What one transmission carries: the packet is encoded into a buffer and decoded again.\<close>

definition wire_trip :: "Ipv4Path \<Rightarrow> usize \<Rightarrow> PacketSpec \<Rightarrow> DecodedPacket option" where
  "wire_trip path room spec =
     (case encode_ipv4_packet path spec (replicate room 0) of
        Inl _ \<Rightarrow> None
      | Inr (out, n) \<Rightarrow> (case decode_ipv4_packet (take n out) of Inl _ \<Rightarrow> None | Inr d \<Rightarrow> Some d))"

definition sent_packet :: "MemoryRegistry \<Rightarrow> memory \<Rightarrow> ActiveRequest \<Rightarrow> PathMtu \<Rightarrow> u32 \<Rightarrow> Ipv4Path \<Rightarrow> nat \<Rightarrow> PacketRef option" where
  "sent_packet r mem active m qpn path i =
     (case build_request_packet r mem (active\<lparr>next_packet := of_nat i\<rparr>) (mtu_bytes m) qpn of
        Inl _ \<Rightarrow> None
      | Inr spec \<Rightarrow> map_option dp_transport (wire_trip path (mtu_bytes m + 63) spec))"


lemma wire_trip_delivers:
  assumes "spec_ok spec" "ps_aeth spec = None" "ps_immediate spec = None" "length (ps_payload spec) \<le> mtu_bytes m"
  obtains d icrc where "wire_trip path (mtu_bytes m + 63) spec = Some d" "dp_transport d = spec_packet spec icrc"
proof -
  have len: "length (spec_body spec) + 32 \<le> mtu_bytes m + 63"
    using request_body_length [OF assms(2,3)] assms(4) by linarith
  then have "length (spec_body spec) + 32 < 65536" using mtu_bounds(3) [of m] by linarith
  then obtain out where out: "encode_ipv4_packet path spec (replicate (mtu_bytes m + 63) 0) = Inr (out, length (spec_body spec) + 32)"
    using encode_ipv4_packet_ok [OF assms(1), of "replicate (mtu_bytes m + 63) 0" path] len by auto
  from encode_decodes [OF this] obtain icrc where
    "decode_ipv4_packet (take (length (spec_body spec) + 32) out) = Inr \<lparr>dp_ipv4 = path_ipv4 path (length (spec_body spec) + 32),
       dp_udp = path_udp path (length (spec_body spec) + 32 - 20), dp_transport = spec_packet spec icrc\<rparr>" by blast
  then show thesis using that out by (simp add: wire_trip_def)
qed

lemma sent_packet_segment:
  assumes inv: "registry_inv r" and active: "ar_work active = work" "first_psn active = psn_of f"
      "packet_count_of active = packet_count (sge_length (wr_sge work)) (mtu_bytes m)"
    and i: "i < segs (unat (sge_length (wr_sge work))) (mtu_bytes m)" and qpn: "qpn \<le> QPN_MASK"
    and data: "read_local r mem (sge_lkey (wr_sge work)) (sge_address (wr_sge work)) (unat (sge_length (wr_sge work))) = Inr bs"
    and kind: "\<forall>a k. wr_kind work \<noteq> WrRdmaRead a k"
  shows "\<exists>pkt. sent_packet r mem active m qpn path i = Some pkt \<and> request_segment work bs f (mtu_bytes m) i pkt"
proof -
  have req: "request_for (active\<lparr>next_packet := of_nat i\<rparr>) work f (mtu_bytes m) i"
    using active i by (simp add: request_for_def)
  obtain spec where spec: "build_request_packet r mem (active\<lparr>next_packet := of_nat i\<rparr>) (mtu_bytes m) qpn = Inr spec"
    "\<And>icrc. request_segment work bs f (mtu_bytes m) i (spec_packet spec icrc)"
    "spec_ok spec" "length (ps_payload spec) \<le> mtu_bytes m" "ps_aeth spec = None" "ps_immediate spec = None"
    using build_request_packet_segment [OF inv req mtu_bounds(1,3) data kind] qpn by blast
  obtain d icrc where "wire_trip path (mtu_bytes m + 63) spec = Some d" "dp_transport d = spec_packet spec icrc"
    using spec(3,5,6,4) by (rule wire_trip_delivers)
  then show ?thesis using spec(1,2) by (simp add: sent_packet_def)
qed

text \<open>
  C6: Every packet of an active SEND or WRITE request survives the wire as the segment it
  stands for: for each index below the packet count the requester builds a packet, the
  packet fits the buffer size the engine computes for the path MTU, and after encoding and
  decoding it is exactly segment \<open>i\<close> of the message in local memory, with its opcode, PSN,
  addressing header and payload.  So the packets together carry the message, each octet once.
\<close>

theorem requester_sends_segments:
  assumes "registry_inv r" and "ar_work active = work" "first_psn active = psn_of f"
      "packet_count_of active = packet_count (sge_length (wr_sge work)) (mtu_bytes m)"
    and "read_local r mem (sge_lkey (wr_sge work)) (sge_address (wr_sge work)) (unat (sge_length (wr_sge work))) = Inr bs"
    and "\<forall>a k. wr_kind work \<noteq> WrRdmaRead a k" and "qpn \<le> QPN_MASK"
  shows "maximum_packet_for_mtu (mtu_bytes m) = Inr (mtu_bytes m + 63) \<and>
    (\<forall>i < unat (packet_count_of active). \<exists>pkt. sent_packet r mem active m qpn path i = Some pkt \<and>
       request_segment work bs f (mtu_bytes m) i pkt) \<and>
    concat (map (piece bs (mtu_bytes m)) [0..<unat (packet_count_of active)]) = bs"
proof -
  have n: "unat (packet_count_of active) = segs (unat (sge_length (wr_sge work))) (mtu_bytes m)"
    using assms(4) packet_count_segs [of "mtu_bytes m"] by simp
  have len: "length bs = unat (sge_length (wr_sge work))"
    by (rule read_local_part(3) [OF assms(1,5), of 0 0]) simp
  have "concat (map (piece bs (mtu_bytes m)) [0..<k]) = take (k * mtu_bytes m) bs" for k
  proof (induction k)
    case (Suc k)
    then show ?case using piece_next [of k "mtu_bytes m" bs] by simp
  qed simp
  then show ?thesis
    using sent_packet_segment [OF assms(1-4) _ assms(7,5,6)] segs_cover [of "mtu_bytes m" "length bs"]
    by (simp add: n maximum_packet_for_mtu_eq len)
qed


definition sample_work :: WorkRequest where
  "sample_work = \<lparr>wr_id = 3, wr_kind = WrRdmaWrite 8192 55,
     wr_sge = \<lparr>sge_address = 4096, sge_length = 3, sge_lkey = 69794299\<rparr>, wr_signaled = True\<rparr>"

definition sample_active :: ActiveRequest where
  "sample_active = \<lparr>ar_work = sample_work, first_psn = Psn 5, last_psn = Psn 5, packet_count_of = 1, next_packet = 0,
     transmitted_packets = 0, read_packets_received = 0, bytes_received = 0,
     retry_budget = retry_budget_new \<lparr>policy_retry_count = 3, policy_rnr_retry_count = 3, timeout_ticks = 100\<rparr>,
     ar_timer = timer_new, phase = Sending\<rparr>"

lemma sample_read: "read_local (sample_live 1) (\<lambda>_. b) 69794299 4096 3 = Inr [b, b, b]"
proof -
  have live: "region_live (sample_live 1) 0 (sample_slot 1)" by (simp add: region_live_def sample_live_def)
  have "resolve (sample_live 1) 69794299 LocalKey ACCESS_NONE 4096 3 = Inr (4096, 0)"
    using resolve_region [OF sample_registry_inv(2) live, of LocalKey ACCESS_NONE 4096 3]
    by (simp add: key_of_def sample_slot_def access_contains_def ACCESS_NONE_def)
  then show ?thesis by (simp add: read_local_def copy_from_registered_def upt_rec)
qed

theorem requester_sends_segments_witness:
  "\<exists>pkt. sent_packet (sample_live 1) (\<lambda>_. 0) sample_active Mtu256 18 sample_path 0 = Some pkt \<and> pr_payload pkt = [0, 0, 0]"
proof -
  have "packet_count_of sample_active = packet_count (sge_length (wr_sge sample_work)) (mtu_bytes Mtu256)"
    by (simp add: sample_active_def sample_work_def packet_count_def u64_try_from_def u32_try_from_def div_ceil_def unat_of_nat)
  then obtain pkt where "sent_packet (sample_live 1) (\<lambda>_. 0) sample_active Mtu256 18 sample_path 0 = Some pkt"
    "request_segment sample_work [0, 0, 0] 5 (mtu_bytes Mtu256) 0 pkt"
    using requester_sends_segments [OF sample_registry_inv(2), of sample_active sample_work 5 Mtu256 "\<lambda>_. 0" "[0, 0, 0]" 18 sample_path]
      sample_read
    by (auto simp: sample_active_def sample_work_def psn_of_def QPN_MASK_def)
  then show ?thesis by (auto simp: request_segment_def sample_work_def write_segment_def piece_def)
qed

end
