(* ===== verification/Rc_Recovery.thy ===== *)
theory Rc_Recovery
  imports Rc_Requester
begin

text \<open>
  How the requester of \<open>rocev2/src/rc.rs\<close> recovers from loss and gives up: sequence NAKs and
  timeouts charged to the retry budget, acknowledgements of the packets of a request, and
  the two sides running against each other over a lossy network.
\<close>

section \<open>Giving up\<close>

lemma fail_active_settles:
  assumes inv: "rc_inv others st" and active: "active_request (the_slot st) = Some a" and "status \<noteq> Success"
    and fail: "fail_active_and_error status st = (st', n)"
  shows "qp_state (machine (the_slot st')) = Error" "emptied (the_slot st')" "rc_inv others st'"
    "\<exists>cs. ring_list (completion_queue (the_slot st')) = ring_list (completion_queue (the_slot st)) @
       completion_failure (wr_id (ar_work a)) (completion_opcode a) status # cs"
    "n = size (owed (the_slot st))"
proof -
  have pre: "rc_pre {#} others st" using inv by (simp add: rc_inv_pre)
  let ?s = "the_slot st"
  let ?M = "opt_mset (inbound_memory ?s) + opt_mset (read_memory ?s) + queue_leases (ring_list (send_queue ?s))
     + queue_leases (ring_list (receive_queue ?s)) + others"
  obtain st1 k where fin: "finish_active status 0 st = (st1, k)" by fastforce
  have 1: "leased (the_registry st) (opt_mset (active_memory ?s) + ?M)" "registry_inv (the_registry st)"
    "ring_inv (completion_queue ?s)"
    using pre by (simp_all add: rc_pre_def slot_leases_def slot_pre_def queues_ok_def ac_simps)
  have room: "length (ring_list (completion_queue ?s)) < ring_capacity (completion_queue ?s)"
    using pre active by (simp add: rc_pre_def slot_pre_def owed_def works_def)
  have st1: "ring_list (completion_queue (the_slot st1)) = ring_list (completion_queue ?s) @
      [completion_failure (wr_id (ar_work a)) (completion_opcode a) status]" "k = 1"
    "owed ?s = add_mset (work_id (ar_work a)) (owed (the_slot st1))"
    by (rule finish_active_eval [OF 1(2,1,3) room active, of status 0];
        use fin assms(3) active in \<open>simp add: owed_def works_def receives_def\<close>)+
  obtain m where m: "enter_error st1 = (st', m)" "n = k + m"
    using fail fin by (auto simp: fail_active_and_error_def split: prod.splits)
  have pre1: "rc_pre {#} others st1" using finish_active_step(1) [OF fin] pre by (simp add: rc_step_def)
  note e = enter_error_all [OF pre1 m(1)]
  show "qp_state (machine (the_slot st')) = Error" using e(3) by (simp add: rc_frame_def split: if_splits)
  show "emptied (the_slot st')" by (rule e(2))
  show "rc_inv others st'" using e(1) pre1 emptied_owns [OF e(2)] by (simp add: rc_inv_pre rc_step_def)
  show "\<exists>cs. ring_list (completion_queue (the_slot st')) = ring_list (completion_queue ?s) @
       completion_failure (wr_id (ar_work a)) (completion_opcode a) status # cs"
    using e(1) pre1 by (auto simp: rc_step_def rc_books_def st1(1))
  show "n = size (owed ?s)" by (simp add: m(2) e(4) st1(2,3))
qed

section \<open>Sequence NAKs\<close>

definition sequence_nak :: "PacketRef \<Rightarrow> bool" where
  "sequence_nak pkt \<longleftrightarrow> opcode (pr_bth pkt) = Acknowledge \<and>
     (\<exists>aeth. pr_aeth pkt = Some aeth \<and> aeth_class aeth = Nak PsnSequenceError)"

definition react :: "u64 \<Rightarrow> u64 \<Rightarrow> PacketRef \<Rightarrow> rc_state \<Rightarrow> rc_state" where
  "react now tps pkt st = fst (handle_response_packet pkt now tps st)"

lemma react_idle [simp]: "active_request (the_slot st) = None \<Longrightarrow> react now tps pkt st = st"
  by (simp add: react_def handle_response_packet_def)

lemma react_sequence_nak:
  assumes "sequence_nak pkt" "active_request (the_slot st) = Some a"
  shows "react now tps pkt st = fst (schedule_transport_retry st)"
  using assms by (auto simp: sequence_nak_def react_def handle_response_packet_def handle_aeth_response_def)

definition restarted :: "ActiveRequest \<Rightarrow> nat \<Rightarrow> ActiveRequest" where
  "restarted a k = (if k = 0 then a else reset_for_retry (a\<lparr>retry_budget := (retry_budget a)
     \<lparr>remaining_timeout := remaining_timeout (retry_budget a) - of_nat k\<rparr>\<rparr>))"

lemma restarted_next:
  "reset_for_retry ((restarted a k)\<lparr>retry_budget := (retry_budget (restarted a k))
     \<lparr>remaining_timeout := remaining_timeout (retry_budget (restarted a k)) - 1\<rparr>\<rparr>) = restarted a (Suc k)"
  by (cases "k = 0") (simp_all add: restarted_def reset_for_retry_def timer_cancel_def algebra_simps)

lemma restarted_budget [simp]:
  "remaining_timeout (retry_budget (restarted a k)) = remaining_timeout (retry_budget a) - of_nat k"
  "retry_policy (retry_budget (restarted a k)) = retry_policy (retry_budget a)"
  "ar_work (restarted a k) = ar_work a"
  by (simp_all add: restarted_def reset_for_retry_def)


lemma sequence_nak_restarts:
  assumes "sequence_nak pkt" "active_request (the_slot st) = Some (restarted a k)"
    and "policy_retry_count (retry_policy (retry_budget a)) \<noteq> UNLIMITED_RETRY_CODE"
    and "k < unat (remaining_timeout (retry_budget a))"
  shows "the_slot (react now tps pkt st) = (the_slot st)\<lparr>active_request := Some (restarted a (Suc k))\<rparr>"
    "the_registry (react now tps pkt st) = the_registry st"
proof -
  have "remaining_timeout (retry_budget a) - of_nat k \<noteq> 0"
  proof
    assume "remaining_timeout (retry_budget a) - of_nat k = 0"
    then have "unat (remaining_timeout (retry_budget a)) = unat (of_nat k :: u8)" by simp
    moreover have "unat (of_nat k :: u8) \<le> k" by (simp add: unat_of_nat)
    ultimately show False using assms(4) by simp
  qed
  then have "schedule_transport_retry st = (st\<lparr>the_slot := (the_slot st)\<lparr>active_request := Some (restarted a (Suc k))\<rparr>,
      the_stats := (the_stats st)\<lparr>st_retransmissions := bump (st_retransmissions (the_stats st))\<rparr>\<rparr>,
      \<lparr>hr_reply = None, hr_completions = 0, hr_retransmissions = 1\<rparr>)"
    using assms(2,3) restarted_next [of a k] by (simp add: schedule_transport_retry_def Let_def)
  then show "the_slot (react now tps pkt st) = (the_slot st)\<lparr>active_request := Some (restarted a (Suc k))\<rparr>"
    "the_registry (react now tps pkt st) = the_registry st"
    by (simp_all add: react_sequence_nak [OF assms(1,2)])
qed

lemma sequence_nak_gives_up:
  assumes "sequence_nak pkt" "active_request (the_slot st) = Some a" "rc_inv others st"
    and "policy_retry_count (retry_policy (retry_budget a)) \<noteq> UNLIMITED_RETRY_CODE"
    and "remaining_timeout (retry_budget a) = 0"
  shows "qp_state (machine (the_slot (react now tps pkt st))) = Error" "emptied (the_slot (react now tps pkt st))"
    "\<exists>cs. ring_list (completion_queue (the_slot (react now tps pkt st))) = ring_list (completion_queue (the_slot st)) @
       completion_failure (wr_id (ar_work a)) (completion_opcode a) RetryExceeded # cs"
proof -
  obtain st' n where f: "fail_active_and_error RetryExceeded st = (st', n)" by fastforce
  have same: "st\<lparr>the_slot := (the_slot st)\<lparr>active_request := Some a\<rparr>\<rparr> = st" using assms(2) by simp
  have "react now tps pkt st = st'"
    using assms(2,4,5) f by (simp add: react_sequence_nak [OF assms(1,2)] schedule_transport_retry_def
      fail_active_and_enter_error_def same)
  then show "qp_state (machine (the_slot (react now tps pkt st))) = Error" "emptied (the_slot (react now tps pkt st))"
    "\<exists>cs. ring_list (completion_queue (the_slot (react now tps pkt st))) = ring_list (completion_queue (the_slot st)) @
       completion_failure (wr_id (ar_work a)) (completion_opcode a) RetryExceeded # cs"
    using fail_active_settles [OF assms(3,2) _ f] by simp_all
qed

text \<open>The requester after a run of sequence NAKs: still trying, or failed for good.\<close>

definition after_naks :: "rc_state \<Rightarrow> ActiveRequest \<Rightarrow> nat \<Rightarrow> rc_state \<Rightarrow> bool" where
  "after_naks st a k st' \<longleftrightarrow>
     (if k \<le> unat (remaining_timeout (retry_budget a))
      then the_slot st' = (the_slot st)\<lparr>active_request := Some (restarted a k)\<rparr> \<and> the_registry st' = the_registry st
      else qp_state (machine (the_slot st')) = Error \<and> emptied (the_slot st') \<and>
        (\<exists>cs. ring_list (completion_queue (the_slot st')) = ring_list (completion_queue (the_slot st)) @
           completion_failure (wr_id (ar_work a)) (completion_opcode a) RetryExceeded # cs))"

lemma after_naks_step:
  assumes "rc_inv others st" "active_request (the_slot st) = Some a"
    and "policy_retry_count (retry_policy (retry_budget a)) \<noteq> UNLIMITED_RETRY_CODE"
    and "after_naks st a k st'" "sequence_nak pkt"
  shows "after_naks st a (Suc k) (react now tps pkt st')"
proof -
  let ?n = "unat (remaining_timeout (retry_budget a))"
  consider "k < ?n" | "k = ?n" | "k > ?n" by linarith
  then show ?thesis
  proof cases
    case 1
    then show ?thesis using assms(3,4) sequence_nak_restarts [OF assms(5), of st' a k now tps] by (simp add: after_naks_def)
  next
    case 2
    then have st': "the_slot st' = (the_slot st)\<lparr>active_request := Some (restarted a k)\<rparr>" "the_registry st' = the_registry st"
      using assms(4) by (simp_all add: after_naks_def)
    then have a': "active_request (the_slot st') = Some (restarted a k)" by simp
    have "rc_inv others (st\<lparr>the_slot := (the_slot st)\<lparr>active_request := Some (restarted a k)\<rparr>\<rparr>)"
      using active_update_keeps(2) [OF assms(2), of "restarted a k" others] assms(1) by (simp add: rc_keeps_def)
    then have "rc_inv others st'" by (simp add: rc_inv_def st')
    from sequence_nak_gives_up [OF assms(5) a' this] assms(3) 2 show ?thesis
      by (simp add: after_naks_def st' completion_opcode_def)
  next
    case 3
    then have "react now tps pkt st' = st'" using assms(4) by (simp add: after_naks_def emptied_def)
    then show ?thesis using 3 assms(4) by (simp add: after_naks_def)
  qed
qed

text \<open>
  C8: A requester whose packets keep being refused restarts its request exactly as often as
  its retry budget allows and then gives up: after \<open>k\<close> sequence NAKs it has restarted \<open>k\<close>
  times and is otherwise unchanged, as long as \<open>k\<close> does not exceed the remaining budget; the
  next NAK fails the request with \<open>RetryExceeded\<close>, moves the queue pair to \<open>Error\<close> and leaves
  no work, lease or partial message behind, whatever arrives afterwards.
\<close>

theorem retries_are_bounded:
  assumes "rc_inv others st" "active_request (the_slot st) = Some a"
    and "policy_retry_count (retry_policy (retry_budget a)) \<noteq> UNLIMITED_RETRY_CODE"
    and "list_all sequence_nak pkts"
  shows "let st' = fold (react now tps) pkts st in
    if length pkts \<le> unat (remaining_timeout (retry_budget a))
    then the_slot st' = (the_slot st)\<lparr>active_request := Some (restarted a (length pkts))\<rparr>
    else qp_state (machine (the_slot st')) = Error \<and> emptied (the_slot st') \<and>
      (\<exists>cs. ring_list (completion_queue (the_slot st')) = ring_list (completion_queue (the_slot st)) @
         completion_failure (wr_id (ar_work a)) (completion_opcode a) RetryExceeded # cs)"
proof -
  have "after_naks st a (length pkts) (fold (react now tps) pkts st)"
    using assms(4)
  proof (induction pkts rule: rev_induct)
    case Nil
    then show ?case using assms(2) by (simp add: after_naks_def restarted_def)
  next
    case (snoc pkt pkts)
    then show ?case using after_naks_step [OF assms(1-3)] by simp
  qed
  then show ?thesis by (simp add: after_naks_def Let_def)
qed


definition sample_requester :: rc_state where
  "sample_requester = \<lparr>the_slot = (sample_qp [])\<lparr>active_request := Some sample_active, active_memory := Some sample_lease,
     completion_reservations := 1\<rparr>, the_registry = sample_live 1, the_store = (\<lambda>_. 7), the_stats = stats_default\<rparr>"

lemma sample_requester_inv: "rc_inv {#} sample_requester"
proof -
  have z: "ring_len (ring_new 4) = 0" by (simp add: ring_new_def)
  have q: "receive_queue (sample_qp []) = ring_new 2" by (simp add: sample_qp_def)
  then have "owed (the_slot sample_requester) = {#work_id sample_work#}"
    by (simp add: sample_requester_def owed_def works_def receives_def sample_qp_fields inbound_receives_def sample_active_def)
  then show ?thesis using sample_registry_inv q
    by (simp add: rc_inv_def slot_inv_def slot_pre_def)
      (simp add: sample_requester_def queues_ok_def all_leased_def memory_held_def slot_leases_def sample_qp_fields z)
qed

definition sample_nak :: PacketRef where
  "sample_nak = \<lparr>pr_bth = bth_new Acknowledge 17 5, pr_reth = None, pr_aeth = Some (aeth_psn_nak 0), pr_immediate = None,
     pr_payload = [], pr_padding = [], pr_icrc = 0\<rparr>"

theorem retries_are_bounded_witness:
  "qp_state (machine (the_slot (fold (react 0 1000) (replicate 4 sample_nak) sample_requester))) = Error \<and>
   qp_state (machine (the_slot (fold (react 0 1000) (replicate 3 sample_nak) sample_requester))) = Rts"
proof -
  have nak: "sequence_nak sample_nak"
    by (simp add: sequence_nak_def sample_nak_def bth_new_def aeth_psn_nak_def aeth_class_def NAK_PSN_SEQUENCE_ERROR_def Let_def)
  have a: "active_request (the_slot sample_requester) = Some sample_active"
    "policy_retry_count (retry_policy (retry_budget sample_active)) \<noteq> UNLIMITED_RETRY_CODE"
    "unat (remaining_timeout (retry_budget sample_active)) = 3"
    "qp_state (machine (the_slot sample_requester)) = Rts"
    by (simp_all add: sample_requester_def sample_active_def retry_budget_new_def UNLIMITED_RETRY_CODE_def sample_qp_def)
  have "list_all sequence_nak (replicate n sample_nak)" for n using nak by (simp add: list_all_iff)
  then show ?thesis
    using retries_are_bounded [OF sample_requester_inv a(1,2), of "replicate 4 sample_nak" 0 1000]
      retries_are_bounded [OF sample_requester_inv a(1,2), of "replicate 3 sample_nak" 0 1000] a(3,4)
    by (simp add: Let_def)
qed

section \<open>Both sides\<close>

definition control_packet :: "ControlReply \<Rightarrow> PacketSpec" where
  "control_packet reply =
     \<lparr>ps_bth = bth_new Acknowledge (cr_destination_qpn reply) (psn_value (cr_psn reply)),
      ps_reth = None, ps_aeth = Some (cr_aeth reply), ps_immediate = None, ps_payload = []\<rparr>"

text \<open>
  One request packet reaches the responder, and the reply it provokes, if any, is encoded,
  carried back and handled by the requester.
\<close>

definition exchange :: "u64 \<Rightarrow> u64 \<Rightarrow> PacketRef \<Rightarrow> rc_state \<times> rc_state \<Rightarrow> rc_state \<times> rc_state" where
  "exchange now tps pkt s =
     (let (sp, sq) = s; (sp', res) = handle_request_packet pkt sp
      in case hr_reply res of
           None \<Rightarrow> (sp', sq)
         | Some reply \<Rightarrow>
             (case wire_trip (cr_path reply) 319 (control_packet reply) of
                None \<Rightarrow> (sp', sq)
              | Some d \<Rightarrow> (sp', react now tps (dp_transport d) sq)))"

lemma control_packet_trip:
  assumes "cr_destination_qpn reply \<le> QPN_MASK" "psn_ok (cr_psn reply)" "aeth_ok (cr_aeth reply)"
  obtains d where "wire_trip (cr_path reply) 319 (control_packet reply) = Some d"
    "opcode (pr_bth (dp_transport d)) = Acknowledge" "pr_aeth (dp_transport d) = Some (cr_aeth reply)"
    "psn (pr_bth (dp_transport d)) = psn_value (cr_psn reply)"
proof -
  let ?spec = "control_packet reply"
  have ok: "spec_ok ?spec"
    using assms by (simp add: spec_ok_def control_packet_def bth_ok_def bth_new_def headers_match_def has_reth_def has_aeth_def
      has_immediate_def psn_ok_def PSN_MASK_def WIRE_PSN_MASK_def)
  have len: "length (spec_body ?spec) \<le> 24"
    using spec_pad_less [of ?spec] by (simp add: spec_body_def control_packet_def bth.wire_length aeth.wire_length)
  then obtain out where "encode_ipv4_packet (cr_path reply) ?spec (replicate 319 0) = Inr (out, length (spec_body ?spec) + 32)"
    using encode_ipv4_packet_ok [OF ok, of "replicate 319 0" "cr_path reply"] by auto
  moreover from encode_decodes [OF this] obtain icrc where
    "decode_ipv4_packet (take (length (spec_body ?spec) + 32) out) = Inr \<lparr>dp_ipv4 = path_ipv4 (cr_path reply) (length (spec_body ?spec) + 32),
       dp_udp = path_udp (cr_path reply) (length (spec_body ?spec) + 32 - 20), dp_transport = spec_packet ?spec icrc\<rparr>" by blast
  ultimately show thesis using that by (simp add: wire_trip_def spec_packet_def control_packet_def bth_new_def)
qed


lemma exchange_future:
  assumes sp: "expected (qs_receive_psn (the_slot sp)) = psn_of e" "remote_qpn (qp_config (machine (the_slot sp))) \<le> QPN_MASK"
      "psn_ok (message_sequence_number (the_slot sp))"
    and pkt: "new_truncated (psn (pr_bth pkt)) = psn_of k" "e < k" "k < e + 2 ^ 23"
  obtains sp' nak where "exchange now tps pkt (sp, sq) = (sp', react now tps nak sq)" "sequence_nak nak"
    "the_slot sp' = the_slot sp" "the_registry sp' = the_registry sp" "the_store sp' = the_store sp"
proof -
  let ?s = "the_slot sp"
  let ?reply = "control_reply ?s (psn_of e) (aeth_psn_nak (psn_value (message_sequence_number ?s)))"
  let ?sp = "sp\<lparr>the_stats := (the_stats sp)\<lparr>st_sequence_errors := bump (st_sequence_errors (the_stats sp))\<rparr>\<rparr>"
  have "classify (qs_receive_psn ?s) (psn_of k) = Future"
    using classify_rep [OF sp(1), of k] pkt(2,3) by simp
  then have h: "handle_request_packet pkt sp = (?sp, handler_default\<lparr>hr_reply := Some ?reply\<rparr>)"
    using pkt(1) sp(1) by (simp add: handle_request_packet_def Let_def)
  have ok: "cr_destination_qpn ?reply \<le> QPN_MASK" "psn_ok (cr_psn ?reply)" using sp(2) by (simp_all add: control_reply_def)
  have "aeth_ok (cr_aeth ?reply)"
    using sp(3) by (simp add: control_reply_def aeth_ok_def aeth_psn_nak_def psn_ok_def PSN_MASK_def WIRE_PSN_MASK_def)
  from control_packet_trip [OF ok this]
  obtain d where d: "wire_trip (cr_path ?reply) 319 (control_packet ?reply) = Some d"
    "opcode (pr_bth (dp_transport d)) = Acknowledge" "pr_aeth (dp_transport d) = Some (cr_aeth ?reply)" by blast
  have "sequence_nak (dp_transport d)"
    using d(2,3) by (simp add: sequence_nak_def control_reply_def aeth_psn_nak_def aeth_class_def NAK_PSN_SEQUENCE_ERROR_def Let_def)
  moreover have "exchange now tps pkt (sp, sq) = (?sp, react now tps (dp_transport d) sq)"
    using h d(1) by (simp add: exchange_def)
  ultimately show thesis using that by simp
qed

text \<open>
  C9: One lost packet can end the connection.  When a packet of a request is lost and more
  packets than the remaining retry budget follow it, each of them is answered by a sequence
  NAK, and each NAK is charged to the budget as a retry of its own: the responder has not
  changed, nothing but that one packet is missing, and the requester has failed the request
  with \<open>RetryExceeded\<close> and is in the error state.
\<close>

theorem lost_packet_exhausts_retries:
  assumes sq: "rc_inv others sq" "active_request (the_slot sq) = Some a"
      "policy_retry_count (retry_policy (retry_budget a)) \<noteq> UNLIMITED_RETRY_CODE"
    and sp: "expected (qs_receive_psn (the_slot sp)) = psn_of e" "remote_qpn (qp_config (machine (the_slot sp))) \<le> QPN_MASK"
      "psn_ok (message_sequence_number (the_slot sp))"
    and pkts: "list_all (\<lambda>pkt. \<exists>k. new_truncated (psn (pr_bth pkt)) = psn_of k \<and> e < k \<and> k < e + 2 ^ 23) pkts"
      "unat (remaining_timeout (retry_budget a)) < length pkts"
  shows "let (sp', sq') = fold (exchange now tps) pkts (sp, sq)
    in the_slot sp' = the_slot sp \<and> the_store sp' = the_store sp \<and> qp_state (machine (the_slot sq')) = Error \<and>
      (\<exists>cs. ring_list (completion_queue (the_slot sq')) = ring_list (completion_queue (the_slot sq)) @
         completion_failure (wr_id (ar_work a)) (completion_opcode a) RetryExceeded # cs)"
proof -
  have "the_slot (fst (fold (exchange now tps) pkts (sp, sq))) = the_slot sp \<and>
      the_store (fst (fold (exchange now tps) pkts (sp, sq))) = the_store sp \<and>
      after_naks sq a (length pkts) (snd (fold (exchange now tps) pkts (sp, sq)))"
    using pkts(1)
  proof (induction pkts rule: rev_induct)
    case Nil
    then show ?case using sq(2) by (simp add: after_naks_def restarted_def)
  next
    case (snoc pkt pkts)
    obtain sp1 sq1 where run: "fold (exchange now tps) pkts (sp, sq) = (sp1, sq1)" by fastforce
    have IH: "the_slot sp1 = the_slot sp" "the_store sp1 = the_store sp" "after_naks sq a (length pkts) sq1"
      using snoc run by simp_all
    obtain k where k: "new_truncated (psn (pr_bth pkt)) = psn_of k" "e < k" "k < e + 2 ^ 23" using snoc.prems by auto
    obtain sp2 nak where x: "exchange now tps pkt (sp1, sq1) = (sp2, react now tps nak sq1)" "sequence_nak nak"
      "the_slot sp2 = the_slot sp1" "the_store sp2 = the_store sp1"
      by (rule exchange_future [of sp1 e pkt k now tps sq1]) (use sp IH(1) k in simp_all)
    then show ?case using run IH after_naks_step [OF sq IH(3) x(2)] by simp
  qed
  then show ?thesis using pkts(2) by (auto simp: after_naks_def split: prod.split)
qed


definition sample_future :: PacketRef where
  "sample_future = \<lparr>pr_bth = bth_new RdmaWriteMiddle 17 10, pr_reth = None, pr_aeth = None,
     pr_immediate = None, pr_payload = replicate 256 1, pr_padding = [], pr_icrc = 0\<rparr>"

lemma sample_responder_fields: "expected (qs_receive_psn (the_slot sample_state)) = psn_of 9"
    "remote_qpn (qp_config (machine (the_slot sample_state))) \<le> QPN_MASK" "psn_ok (message_sequence_number (the_slot sample_state))"
  by (simp_all add: sample_state_def sample_qp_def sample_config_def receive_psn_new_def psn_of_def QPN_MASK_def psn_ok_def
    psn_zero_def PSN_MASK_def)

theorem lost_packet_exhausts_retries_witness:
  "qp_state (machine (the_slot (snd (fold (exchange 0 1000) (replicate 4 sample_future) (sample_state, sample_requester))))) = Error"
proof -
  have a: "active_request (the_slot sample_requester) = Some sample_active"
    "policy_retry_count (retry_policy (retry_budget sample_active)) \<noteq> UNLIMITED_RETRY_CODE"
    "unat (remaining_timeout (retry_budget sample_active)) = 3"
    by (simp_all add: sample_requester_def sample_active_def retry_budget_new_def UNLIMITED_RETRY_CODE_def)
  have "new_truncated (psn (pr_bth sample_future)) = psn_of 10"
    by (simp add: sample_future_def bth_new_def psn_of_def new_truncated_def PSN_MASK_def)
  then have "list_all (\<lambda>pkt. \<exists>k. new_truncated (psn (pr_bth pkt)) = psn_of k \<and> 9 < k \<and> k < 9 + 2 ^ 23) (replicate 4 sample_future)"
    by (auto simp: list_all_iff intro!: exI [of _ 10])
  from lost_packet_exhausts_retries [OF sample_requester_inv a(1,2) sample_responder_fields this, of 0 1000] a(3)
  show ?thesis by (auto simp: Let_def split: prod.splits)
qed


section \<open>Acknowledgements\<close>

definition positive_ack :: "PacketRef \<Rightarrow> int \<Rightarrow> bool" where
  "positive_ack pkt k \<longleftrightarrow> opcode (pr_bth pkt) = Acknowledge \<and> new_truncated (psn (pr_bth pkt)) = psn_of k \<and>
     (\<exists>aeth credits. pr_aeth pkt = Some aeth \<and> aeth_class aeth = AckClass credits)"

definition is_read :: "ActiveRequest \<Rightarrow> bool" where
  "is_read a = (case wr_kind (ar_work a) of WrRdmaRead _ _ \<Rightarrow> True | _ \<Rightarrow> False)"

text \<open>
  A request on packets \<open>f\<close>, \<open>f + 1\<close>, ... of the unbounded numbering, the first \<open>u - f\<close> of
  them acknowledged.
\<close>

definition in_flight :: "RcQpSlot \<Rightarrow> ActiveRequest \<Rightarrow> int \<Rightarrow> int \<Rightarrow> bool" where
  "in_flight s a f u \<longleftrightarrow> first_psn a = psn_of f \<and> last_psn a = psn_of (f + uint (packet_count_of a) - 1) \<and>
     window_rep (send_window s) u (f + uint (packet_count_of a)) \<and> f \<le> u \<and> u < f + uint (packet_count_of a) \<and>
     transmitted_packets a \<le> packet_count_of a"

lemma react_positive_ack:
  assumes "positive_ack pkt k" "active_request (the_slot st) = Some a"
  shows "react now tps pkt st = fst (handle_positive_ack (psn_of k) now tps st)"
  using assms by (auto simp: positive_ack_def react_def handle_response_packet_def handle_aeth_response_def)

lemma beyond_transmitted:
  assumes "first_psn a = psn_of f" "0 < uint (transmitted_packets a)"
    and "f + uint (transmitted_packets a) - 1 - 2 ^ 23 \<le> k" "k < f + uint (transmitted_packets a) - 1 + 2 ^ 23"
  shows "psn_compare (psn_of k) (wrapping_add (first_psn a) (transmitted_packets a - 1)) = After \<longleftrightarrow>
    f + uint (transmitted_packets a) \<le> k" "transmitted_packets a \<noteq> 0"
proof -
  show nz: "transmitted_packets a \<noteq> 0" using assms(2) by auto
  then have "uint (transmitted_packets a - 1) = uint (transmitted_packets a) - 1"
    using assms(2) by (simp add: uint_minus_simple_alt [THEN iffD1] word_le_def)
  then have "wrapping_add (first_psn a) (transmitted_packets a - 1) = psn_of (f + uint (transmitted_packets a) - 1)"
    by (simp add: assms(1) wrapping_add_psn_of add_diff_eq)
  then show "psn_compare (psn_of k) (wrapping_add (first_psn a) (transmitted_packets a - 1)) = After \<longleftrightarrow>
      f + uint (transmitted_packets a) \<le> k"
    using psn_compare_psn_of [of k "f + uint (transmitted_packets a) - 1"] assms(3,4) by auto
qed

lemma transport_failure:
  assumes "rc_inv others st" "active_request (the_slot st) = Some a"
  shows "qp_state (machine (the_slot (fst (fail_active_transport st)))) = Error" "emptied (the_slot (fst (fail_active_transport st)))"
    "\<exists>cs. ring_list (completion_queue (the_slot (fst (fail_active_transport st)))) = ring_list (completion_queue (the_slot st)) @
       completion_failure (wr_id (ar_work a)) (completion_opcode a) TransportError # cs"
proof -
  obtain st' n where f: "fail_active_and_error TransportError st = (st', n)" by fastforce
  then have "fst (fail_active_transport st) = st'" by (simp add: fail_active_transport_def fail_active_and_enter_error_def)
  then show "qp_state (machine (the_slot (fst (fail_active_transport st)))) = Error" "emptied (the_slot (fst (fail_active_transport st)))"
    "\<exists>cs. ring_list (completion_queue (the_slot (fst (fail_active_transport st)))) = ring_list (completion_queue (the_slot st)) @
       completion_failure (wr_id (ar_work a)) (completion_opcode a) TransportError # cs"
    using fail_active_settles [OF assms _ f] by simp_all
qed

lemma finish_success:
  assumes "rc_inv others st" "active_request (the_slot st) = Some a"
  obtains st' cs where "finish_active Success n st = (st', length cs)" "active_request (the_slot st') = None"
    "machine (the_slot st') = machine (the_slot st)" "send_window (the_slot st') = send_window (the_slot st)"
    "ring_list (completion_queue (the_slot st')) = ring_list (completion_queue (the_slot st)) @ cs"
    "cs = (if wr_signaled (ar_work a) then [completion_success (wr_id (ar_work a)) (completion_opcode a) n] else [])"
    "the_store st' = the_store st"
proof -
  let ?s = "the_slot st"
  let ?M = "opt_mset (inbound_memory ?s) + opt_mset (read_memory ?s) + queue_leases (ring_list (send_queue ?s))
     + queue_leases (ring_list (receive_queue ?s)) + others"
  have 1: "leased (the_registry st) (opt_mset (active_memory ?s) + ?M)" "registry_inv (the_registry st)"
    "ring_inv (completion_queue ?s)" "length (ring_list (completion_queue ?s)) < ring_capacity (completion_queue ?s)"
    using assms by (simp_all add: rc_inv_def slot_inv_def slot_leases_def slot_pre_def queues_ok_def owed_def works_def ac_simps)
  obtain r q cs where fin: "finish_active Success n st = (st\<lparr>the_slot := ?s\<lparr>active_memory := None, active_request := None,
        completion_reservations := completion_reservations ?s - 1, completion_queue := q\<rparr>, the_registry := r\<rparr>, length cs)"
    "ring_list q = ring_list (completion_queue ?s) @ cs"
    "cs = (if wr_signaled (ar_work a) then [completion_success (wr_id (ar_work a)) (completion_opcode a) n] else [])"
    by (rule finish_active_eval [OF 1(2,1,3,4) assms(2), of Success n]) simp
  show thesis by (rule that [OF fin(1)]) (simp_all add: fin(2,3))
qed

text \<open>
  C7: An acknowledgement has exactly the effect its PSN calls for.  For an active SEND or
  WRITE of which packets have been sent, an ACK of a packet already acknowledged (or of an
  earlier request) changes nothing; an ACK of the last packet completes the request, with a
  success completion of the full length exactly if it is signaled, and empties the window;
  an ACK of any other outstanding packet moves the window just past it, restores the retry
  budget and rearms the timer; and an ACK of a packet that was never sent fails the
  connection.
\<close>

theorem acknowledgement_exact:
  assumes inv: "rc_inv others st" and a: "active_request (the_slot st) = Some a" "\<not> is_read a" "0 < uint (transmitted_packets a)"
    and fl: "in_flight (the_slot st) a f u" and ack: "positive_ack pkt k"
    and near: "f + uint (packet_count_of a) - 2 ^ 23 \<le> k" "k < f + uint (transmitted_packets a) - 1 + 2 ^ 23"
  shows "let s = the_slot st; s' = the_slot (react now tps pkt st) in
    if f + uint (transmitted_packets a) \<le> k then qp_state (machine s') = Error \<and> emptied s'
    else if k < u then s' = s
    else if k + 1 = f + uint (packet_count_of a) then
      active_request s' = None \<and> machine s' = machine s \<and>
      window_rep (send_window s') (f + uint (packet_count_of a)) (f + uint (packet_count_of a)) \<and>
      ring_list (completion_queue s') = ring_list (completion_queue s) @
        (if wr_signaled (ar_work a)
         then [completion_success (wr_id (ar_work a)) (completion_opcode a) (sge_length (wr_sge (ar_work a)))] else [])
    else (\<exists>a'. s' = s\<lparr>send_window := send_window s', active_request := Some a'\<rparr> \<and> in_flight s' a' f (k + 1) \<and>
      a' = a\<lparr>retry_budget := retry_reset (retry_budget a), ar_timer := timer_arm (ar_timer a) now (slot_timeout s tps)\<rparr>)"
proof -
  let ?s = "the_slot st" and ?c = "uint (packet_count_of a)" and ?t = "uint (transmitted_packets a)"
  have fields: "first_psn a = psn_of f" "psn_next (last_psn a) = psn_of (f + ?c)" "window_rep (send_window ?s) u (f + ?c)"
      "f \<le> u" "u < f + ?c" "?t \<le> ?c" "f + ?c - u \<le> 2 ^ 23 - 1"
    using fl by (simp_all add: in_flight_def psn_next_psn_of word_le_def window_rep_def)
  have r: "react now tps pkt st = fst (handle_positive_ack (psn_of k) now tps st)" by (rule react_positive_ack [OF ack a(1)])
  have late: "psn_compare (psn_of k) (wrapping_add (first_psn a) (transmitted_packets a - 1)) = After \<longleftrightarrow> f + ?t \<le> k"
    and nz: "transmitted_packets a \<noteq> 0"
  proof -
    have "f + ?t - 1 - 2 ^ 23 \<le> k" using near(1) fields(6) by linarith
    from beyond_transmitted [OF fields(1) a(3) this near(2)] show "transmitted_packets a \<noteq> 0"
      "psn_compare (psn_of k) (wrapping_add (first_psn a) (transmitted_packets a - 1)) = After \<longleftrightarrow> f + ?t \<le> k" by blast+
  qed
  have nr: "(case wr_kind (ar_work a) of WrRdmaRead _ _ \<Rightarrow> True | _ \<Rightarrow> False) = False" using a(2) by (simp add: is_read_def)
  show ?thesis
  proof (cases "f + ?t \<le> k")
    case True
    then have "react now tps pkt st = fst (fail_active_transport st)"
      using a(1) late by (simp add: r handle_positive_ack_def nr)
    then show ?thesis using True transport_failure [OF inv a(1)] by simp
  next
    case sent: False
    have "u - 2 ^ 23 \<le> k" "k < u + 2 ^ 23" "\<not> f + ?c \<le> k" using sent near fields by linarith+
    then have w: "acknowledge (send_window ?s) (psn_of k) = (if k < u then (send_window ?s, AckDuplicate)
        else ((send_window ?s)\<lparr>oldest_unacknowledged := psn_of (k + 1)\<rparr>, Advanced (word_of_int (k - u + 1)) (psn_of (k + 1))))"
      using acknowledge_rep [OF fields(3), of k] by simp
    show ?thesis
    proof (cases "k < u")
      case True
      then have "the_slot (react now tps pkt st) = ?s" using a(1) sent late w nz by (simp add: r handle_positive_ack_def nr)
      then show ?thesis using True sent by simp
    next
      case False
      let ?w = "(send_window ?s)\<lparr>oldest_unacknowledged := psn_of (k + 1)\<rparr>"
      let ?cur = "a\<lparr>retry_budget := retry_reset (retry_budget a)\<rparr>"
      let ?st = "st\<lparr>the_slot := ?s\<lparr>send_window := ?w, active_request := Some ?cur\<rparr>\<rparr>"
      have rep: "window_rep ?w (k + 1) (f + ?c)"
        using acknowledge_keeps_rep [OF fields(3), of k] False sent fields(6) w by simp
      have last: "psn_of (k + 1) = psn_of (f + ?c) \<longleftrightarrow> k + 1 = f + ?c"
      proof
        assume "psn_of (k + 1) = psn_of (f + ?c)"
        then show "k + 1 = f + ?c"
          using psn_compare_psn_of [of "k + 1" "f + ?c"] psn_compare_psn_of [of "f + ?c" "f + ?c"] False sent fields
          by (auto split: if_splits)
      qed simp
      show ?thesis
      proof (cases "k + 1 = f + ?c")
        case True
        have "rc_inv others ?st" using active_update_keeps(1) [OF a(1), of ?cur others ?w] inv by (simp add: rc_keeps_def)
        then obtain st' cs where fin: "finish_active Success (sge_length (wr_sge (ar_work a))) ?st = (st', length cs)"
          "active_request (the_slot st') = None" "machine (the_slot st') = machine ?s" "send_window (the_slot st') = ?w"
          "ring_list (completion_queue (the_slot st')) = ring_list (completion_queue ?s) @ cs"
          "cs = (if wr_signaled (ar_work a)
             then [completion_success (wr_id (ar_work a)) (completion_opcode a) (sge_length (wr_sge (ar_work a)))] else [])"
          by (rule finish_success [where a = ?cur and n = "sge_length (wr_sge (ar_work a))"]) (simp_all add: completion_opcode_def)
        have "react now tps pkt st = st'"
          using a(1) sent late w nz False True fields(2) last fin(1) by (simp add: r handle_positive_ack_def nr Let_def)
        then show ?thesis using fin True False sent rep by simp
      next
        case more: False
        have "the_slot (react now tps pkt st) = ?s\<lparr>send_window := ?w, active_request := Some (?cur\<lparr>ar_timer :=
            timer_arm (ar_timer a) now (slot_timeout ?s tps)\<rparr>)\<rparr>"
          using a(1) sent late w nz False more fields(2) last by (simp add: r handle_positive_ack_def nr Let_def slot_timeout_def)
        moreover have "in_flight (?s\<lparr>send_window := ?w, active_request := Some (?cur\<lparr>ar_timer :=
            timer_arm (ar_timer a) now (slot_timeout ?s tps)\<rparr>)\<rparr>) (?cur\<lparr>ar_timer := timer_arm (ar_timer a) now (slot_timeout ?s tps)\<rparr>) f (k + 1)"
          using fl rep False more sent fields by (simp add: in_flight_def)
        ultimately show ?thesis using False more sent by simp
      qed
    qed
  qed
qed


definition sample_ack :: PacketRef where
  "sample_ack = \<lparr>pr_bth = bth_new Acknowledge 17 5, pr_reth = None, pr_aeth = Some (aeth_ack 1), pr_immediate = None,
     pr_payload = [], pr_padding = [], pr_icrc = 0\<rparr>"

definition sample_sent :: rc_state where
  "sample_sent = sample_requester\<lparr>the_slot := (the_slot sample_requester)\<lparr>
     send_window := \<lparr>oldest_unacknowledged = Psn 5, next_to_send = Psn 6\<rparr>,
     active_request := Some (sample_active\<lparr>next_packet := 1, transmitted_packets := 1, phase := Waiting\<rparr>)\<rparr>\<rparr>"

lemma sample_sent_inv: "rc_inv {#} sample_sent"
  using active_update_keeps(1) [of sample_requester sample_active _ "{#}"] sample_requester_inv
  by (simp add: sample_sent_def rc_keeps_def) (simp add: sample_requester_def)

theorem acknowledgement_exact_witness:
  "let s' = the_slot (react 0 1000 sample_ack sample_sent)
   in active_request s' = None \<and> ring_list (completion_queue s') = [completion_success 3 CqRdmaWrite 3]"
proof -
  let ?a = "sample_active\<lparr>next_packet := 1, transmitted_packets := 1, phase := Waiting\<rparr>"
  have a: "active_request (the_slot sample_sent) = Some ?a" "\<not> is_read ?a" "0 < uint (transmitted_packets ?a)"
    by (simp_all add: sample_sent_def is_read_def sample_active_def sample_work_def)
  have fl: "in_flight (the_slot sample_sent) ?a 5 5"
    by (simp add: in_flight_def sample_sent_def window_rep_def sample_active_def psn_of_def)
  have ack: "positive_ack sample_ack 5"
    by (simp add: positive_ack_def sample_ack_def bth_new_def aeth_ack_def aeth_class_def ACK_UNLIMITED_def Let_def psn_of_def
      new_truncated_def PSN_MASK_def)
  have "ring_list (completion_queue (the_slot sample_sent)) = []"
    by (simp add: sample_sent_def sample_requester_def sample_qp_fields)
  then show ?thesis
    using acknowledgement_exact [OF sample_sent_inv a fl ack, of 0 1000]
    by (simp add: Let_def sample_active_def sample_work_def completion_opcode_def)
qed


text \<open>
  C10: A packet the network delivers a second time can end the connection.  The responder
  answers a duplicate of an earlier SEND or WRITE packet with another ACK and does nothing
  else; a requester that by then is executing a READ, or has started its next request without
  having sent a packet of it yet, takes that ACK for a protocol violation, fails the request
  with \<open>TransportError\<close> and enters the error state.
\<close>

theorem duplicate_packet_fails_next_request:
  assumes sq: "rc_inv others sq" "active_request (the_slot sq) = Some a" "is_read a \<or> transmitted_packets a = 0"
    and sp: "expected (qs_receive_psn (the_slot sp)) = psn_of e" "remote_qpn (qp_config (machine (the_slot sp))) \<le> QPN_MASK"
      "psn_ok (message_sequence_number (the_slot sp))"
    and pkt: "new_truncated (psn (pr_bth pkt)) = psn_of k" "e - 2 ^ 23 \<le> k" "k < e" "opcode (pr_bth pkt) \<noteq> RdmaReadRequest"
  shows "let (sp', sq') = exchange now tps pkt (sp, sq)
    in the_slot sp' = the_slot sp \<and> the_store sp' = the_store sp \<and> qp_state (machine (the_slot sq')) = Error \<and>
      (\<exists>cs. ring_list (completion_queue (the_slot sq')) = ring_list (completion_queue (the_slot sq)) @
         completion_failure (wr_id (ar_work a)) (completion_opcode a) TransportError # cs)"
proof -
  let ?s = "the_slot sp"
  let ?reply = "ack_reply ?s (psn_of k)"
  let ?sp = "sp\<lparr>the_stats := (the_stats sp)\<lparr>st_duplicate_requests := bump (st_duplicate_requests (the_stats sp))\<rparr>\<rparr>"
  have "classify (qs_receive_psn ?s) (psn_of k) = Duplicate"
    using classify_rep [OF sp(1) pkt(2)] pkt(3) by simp
  then have h: "handle_request_packet pkt sp = (?sp, handler_default\<lparr>hr_reply := Some ?reply\<rparr>)"
    using pkt(1,4) by (simp add: handle_request_packet_def Let_def)
  have ok: "cr_destination_qpn ?reply \<le> QPN_MASK" "psn_ok (cr_psn ?reply)"
    using sp(2) by (simp_all add: ack_reply_def control_reply_def)
  have "aeth_ok (cr_aeth ?reply)"
    using sp(3) by (simp add: ack_reply_def control_reply_def aeth_ok_def aeth_ack_def psn_ok_def PSN_MASK_def WIRE_PSN_MASK_def)
  from control_packet_trip [OF ok this]
  obtain d where d: "wire_trip (cr_path ?reply) 319 (control_packet ?reply) = Some d"
    "opcode (pr_bth (dp_transport d)) = Acknowledge" "pr_aeth (dp_transport d) = Some (cr_aeth ?reply)"
    "psn (pr_bth (dp_transport d)) = psn_value (cr_psn ?reply)" by blast
  have "positive_ack (dp_transport d) k"
    using d(2-4) by (simp add: positive_ack_def ack_reply_def control_reply_def aeth_ack_def aeth_class_def ACK_UNLIMITED_def
      Let_def new_truncated_eq psn_of_eq_iff)
  from react_positive_ack [OF this sq(2)]
  have "react now tps (dp_transport d) sq = fst (fail_active_transport sq)"
    using sq(2,3) by (auto simp: handle_positive_ack_def is_read_def split: WorkRequestKind.splits)
  then have "exchange now tps pkt (sp, sq) = (?sp, fst (fail_active_transport sq))"
    using h d(1) by (simp add: exchange_def)
  then show ?thesis using transport_failure [OF sq(1,2)] by simp
qed

theorem duplicate_packet_fails_next_request_witness:
  "qp_state (machine (the_slot (snd (exchange 0 1000 (sample_write\<lparr>pr_bth := bth_new RdmaWriteOnly 17 8\<rparr>) (sample_state, sample_requester))))) = Error"
proof -
  have a: "active_request (the_slot sample_requester) = Some sample_active" "is_read sample_active \<or> transmitted_packets sample_active = 0"
    by (simp_all add: sample_requester_def sample_active_def)
  have "new_truncated (psn (pr_bth (sample_write\<lparr>pr_bth := bth_new RdmaWriteOnly 17 8\<rparr>))) = psn_of 8"
    by (simp add: bth_new_def psn_of_def new_truncated_def PSN_MASK_def)
  from duplicate_packet_fails_next_request [OF sample_requester_inv a sample_responder_fields this, of 0 1000]
  show ?thesis by (auto simp: bth_new_def Let_def split: prod.splits)
qed

end
