(* ===== verification/Rc_Read.thy ===== *)
theory Rc_Read
  imports Rc_Recovery
begin

text \<open>
  RDMA READ on the requester of \<open>rocev2/src/rc.rs\<close>: what its response handler leaves in
  local memory when the network loses, duplicates and reorders the response packets.
\<close>

section \<open>The responses of a READ\<close>

record read_message =
  rm_data :: octets
  rm_psn :: int
  rm_mtu :: usize

definition rm_segments :: "read_message \<Rightarrow> nat" where
  "rm_segments m = segs (length (rm_data m)) (rm_mtu m)"

definition rm_filled :: "read_message \<Rightarrow> nat \<Rightarrow> nat" where
  "rm_filled m k = k * rm_mtu m"

definition read_segment :: "read_message \<Rightarrow> nat \<Rightarrow> PacketRef \<Rightarrow> bool" where
  "read_segment m i pkt \<longleftrightarrow>
     opcode (pr_bth pkt) = segmented_opcode Dir_ReadResponse (of_nat i) (of_nat (rm_segments m)) \<and>
     new_truncated (psn (pr_bth pkt)) = psn_of (rm_psn m + int i) \<and>
     (\<forall>aeth. pr_aeth pkt = Some aeth \<longrightarrow> (\<exists>credits. aeth_class aeth = AckClass credits)) \<and>
     pr_payload pkt = piece (rm_data m) (rm_mtu m) i"

definition read_ready :: "read_message \<Rightarrow> ActiveRequest \<Rightarrow> rc_state \<Rightarrow> bool" where
  "read_ready m a st \<longleftrightarrow>
     rm_segments m \<le> 2 ^ 23 \<and> rm_mtu m = slot_mtu (the_slot st) \<and> active_request (the_slot st) = Some a \<and> is_read a \<and>
     first_psn a = psn_of (rm_psn m) \<and> packet_count_of a = of_nat (rm_segments m) \<and> read_packets_received a = 0 \<and>
     unat (sge_length (wr_sge (ar_work a))) = length (rm_data m) \<and>
     validate_local_write (the_registry st) (sge_lkey (wr_sge (ar_work a))) (sge_address (wr_sge (ar_work a)))
       (length (rm_data m)) = Inr ()"

definition read_completion :: "ActiveRequest \<Rightarrow> Completion list" where
  "read_completion a = (if wr_signaled (ar_work a)
     then [completion_success (wr_id (ar_work a)) (completion_opcode a) (sge_length (wr_sge (ar_work a)))] else [])"

definition read_progress ::
  "RegionLease multiset \<Rightarrow> rc_state \<Rightarrow> ActiveRequest \<Rightarrow> read_message \<Rightarrow> nat \<Rightarrow> rc_state \<Rightarrow> bool" where
  "read_progress others st0 a m k st \<longleftrightarrow> rc_inv others st \<and> read_ready m a st0 \<and>
     resolve (the_registry st) = resolve (the_registry st0) \<and> machine (the_slot st) = machine (the_slot st0) \<and>
     the_store st = write_bytes (the_store st0) (sge_address (wr_sge (ar_work a))) (take (rm_filled m k) (rm_data m)) \<and>
     ring_list (completion_queue (the_slot st)) = ring_list (completion_queue (the_slot st0)) @
       (if k = rm_segments m then read_completion a else []) \<and>
     (if k = rm_segments m then active_request (the_slot st) = None
      else \<exists>a'. active_request (the_slot st) = Some a' \<and> ar_work a' = ar_work a \<and> first_psn a' = first_psn a \<and>
        packet_count_of a' = packet_count_of a \<and> read_packets_received a' = of_nat k)"

lemma rm_segments_pos: "0 < rm_segments m"
  by (simp add: rm_segments_def)

lemma rm_segments_neq [simp]: "rm_segments m \<noteq> 0"
  using rm_segments_pos [of m] by linarith

lemma segment_read_opcode:
  assumes "i < n" "n < 2 ^ 32"
  shows "segmented_opcode Dir_ReadResponse (of_nat i) (of_nat n) =
    (if i = 0 then if n = 1 then RdmaReadResponseOnly else RdmaReadResponseFirst
     else if Suc i = n then RdmaReadResponseLast else RdmaReadResponseMiddle)"
  using assms by (auto simp: segmented_opcode.simps index_words [OF assms] split: bool.splits)

lemma react_inv: "rc_inv others st \<Longrightarrow> rc_inv others (react now tps pkt st)"
  using handle_response_packet_keeps [of pkt now tps st, OF prod.collapse [symmetric]] by (simp add: react_def rc_keeps_def)

lemma read_psn:
  assumes "i < n" "k < n" "n \<le> 2 ^ 23"
  shows "psn_compare (psn_of (f + int i)) (wrapping_add (psn_of f) (of_nat k)) = Equal \<longleftrightarrow> i = k"
proof -
  have "uint (of_nat k :: u32) = int k" using assms by (simp add: uint_nat unat_of_nat)
  then show ?thesis using assms psn_compare_psn_of [of "f + int i" "f + int k"] by (simp add: wrapping_add_psn_of)
qed

lemma react_read_segment:
  assumes active: "active_request (the_slot st) = Some a'" "is_read a'" and seg: "read_segment m i pkt" "i < rm_segments m"
    and n: "rm_segments m \<le> 2 ^ 23"
  shows "react now tps pkt st = fst (if psn_compare (psn_of (rm_psn m + int i))
             (wrapping_add (first_psn a') (read_packets_received a')) \<noteq> Equal
        then (st, handler_default)
        else if opcode (pr_bth pkt) \<noteq>
             segmented_opcode Dir_ReadResponse (read_packets_received a') (packet_count_of a')
        then fail_active_transport st
        else case segment_bounds (sge_length (wr_sge (ar_work a'))) (slot_mtu (the_slot st))
               (read_packets_received a') of
          None \<Rightarrow> fail_active_transport st
        | Some (offset, expected_length) \<Rightarrow>
          if length (pr_payload pkt) \<noteq> expected_length then fail_active_transport st
          else case u64_checked_add (sge_address (wr_sge (ar_work a'))) (ticks_or_max (u64_try_from offset)) of
            None \<Rightarrow> fail_active_and_enter_error LocalLengthError st
          | Some local_address \<Rightarrow>
            (case write_local (the_registry st) (the_store st) (sge_lkey (wr_sge (ar_work a'))) local_address
                    (pr_payload pkt) of
               Inl _ \<Rightarrow> fail_active_and_enter_error LocalProtectionError st
             | Inr mem \<Rightarrow> accept_read_segment a' (pr_payload pkt) (psn_of (rm_psn m + int i))
                 now tps (st\<lparr>the_store := mem\<rparr>)))"
proof -
  have op: "opcode (pr_bth pkt) \<in> {RdmaReadResponseFirst, RdmaReadResponseMiddle, RdmaReadResponseLast, RdmaReadResponseOnly}"
    "opcode (pr_bth pkt) \<noteq> Acknowledge"
    using seg segment_read_opcode [OF seg(2)] n by (auto simp: read_segment_def)
  then have r: "react now tps pkt st = fst (handle_read_response pkt now tps st)"
    using active(1) by (simp add: react_def handle_response_packet_def)
  have ack: "(case pr_aeth pkt of
      Some aeth \<Rightarrow> (case aeth_class aeth of AckClass _ \<Rightarrow> False | _ \<Rightarrow> True) | None \<Rightarrow> False) = False"
    using seg(1) by (auto simp: read_segment_def split: option.split)
  have rd: "(case wr_kind (ar_work a') of WrRdmaRead _ _ \<Rightarrow> False | _ \<Rightarrow> True) = False"
    using active(2) by (auto simp: is_read_def split: WorkRequestKind.splits)
  have p: "new_truncated (psn (pr_bth pkt)) = psn_of (rm_psn m + int i)" using seg(1) by (simp add: read_segment_def)
  show ?thesis unfolding r handle_read_response_def active(1) option.case ack rd p by simp
qed

lemma read_ignores:
  assumes p: "read_progress others st0 a m k st" and i: "i < rm_segments m" "i \<noteq> k" "k \<le> rm_segments m" and seg: "read_segment m i pkt"
  shows "read_progress others st0 a m k (react now tps pkt st)"
proof (cases "k = rm_segments m")
  case True
  then show ?thesis using p by (simp add: read_progress_def)
next
  case False
  then obtain a' where a': "active_request (the_slot st) = Some a'" "ar_work a' = ar_work a" "first_psn a' = first_psn a"
    "read_packets_received a' = of_nat k" using p by (auto simp: read_progress_def)
  have ready: "read_ready m a st0" using p by (simp add: read_progress_def)
  then have "is_read a'" "rm_segments m \<le> 2 ^ 23" "first_psn a = psn_of (rm_psn m)"
    by (simp_all add: read_ready_def is_read_def a'(2))
  then have "react now tps pkt st = st"
    using react_read_segment [OF a'(1) _ seg i(1)] read_psn [OF i(1), of k "rm_psn m"] i False by (simp add: a'(3,4))
  then show ?thesis using p by simp
qed


lemma finish_active_resolve:
  "finish_active status n st = (st', k) \<Longrightarrow> resolve (the_registry st') = resolve (the_registry st)"
  using resolve_release [of "active_memory (the_slot st)" "the_registry st"]
  by (auto simp: finish_active_def release_lease_def Let_def split: prod.splits option.splits)

text \<open>What accepting a segment does to the request: one more packet, or the end.\<close>

lemma accept_read_segment_result:
  assumes inv: "rc_inv others st" and active: "active_request (the_slot st) = Some a'"
    and k: "read_packets_received a' = of_nat k" "packet_count_of a' = of_nat n" "k < n" "n < 2 ^ 32"
    and st'_def: "st' = fst (accept_read_segment a' payload p now tps st)"
  shows "resolve (the_registry st') = resolve (the_registry st)" "machine (the_slot st') = machine (the_slot st)"
    "the_store st' = the_store st"
    "ring_list (completion_queue (the_slot st')) = ring_list (completion_queue (the_slot st)) @
       (if Suc k = n then read_completion a' else [])"
    "if Suc k = n then active_request (the_slot st') = None
     else \<exists>b. active_request (the_slot st') = Some b \<and> ar_work b = ar_work a' \<and> first_psn b = first_psn a' \<and>
       packet_count_of b = packet_count_of a' \<and> read_packets_received b = of_nat (Suc k)"
proof -
  let ?w = "fst (acknowledge (send_window (the_slot st)) p)"
  let ?s = "(the_slot st)\<lparr>send_window := ?w\<rparr>"
  let ?cur = "a'\<lparr>read_packets_received := of_nat k + 1,
      bytes_received := u32_saturating_add (bytes_received a') (u32_or_max (length payload)),
      retry_budget := retry_reset (retry_budget a')\<rparr>"
  have all: "(of_nat k + 1 :: u32) = of_nat n \<longleftrightarrow> Suc k = n" using index_words(2) [OF k(3,4)] .
  have "resolve (the_registry st') = resolve (the_registry st) \<and> machine (the_slot st') = machine (the_slot st) \<and>
      the_store st' = the_store st \<and>
      ring_list (completion_queue (the_slot st')) = ring_list (completion_queue (the_slot st)) @
        (if Suc k = n then read_completion a' else []) \<and>
      (if Suc k = n then active_request (the_slot st') = None
       else \<exists>b. active_request (the_slot st') = Some b \<and> ar_work b = ar_work a' \<and> first_psn b = first_psn a' \<and>
         packet_count_of b = packet_count_of a' \<and> read_packets_received b = of_nat (Suc k))"
  proof (cases "Suc k = n")
    case True
    let ?st = "st\<lparr>the_slot := ?s\<lparr>active_request := Some ?cur\<rparr>\<rparr>"
    have "rc_inv others ?st" using active_update_keeps(1) [OF active, of ?cur others ?w] inv by (simp add: rc_keeps_def)
    then obtain st1 cs where fin: "finish_active Success (sge_length (wr_sge (ar_work a'))) ?st = (st1, length cs)"
      "active_request (the_slot st1) = None" "machine (the_slot st1) = machine (the_slot st)"
      "ring_list (completion_queue (the_slot st1)) = ring_list (completion_queue (the_slot st)) @ cs"
      "cs = (if wr_signaled (ar_work a')
         then [completion_success (wr_id (ar_work a')) (completion_opcode a') (sge_length (wr_sge (ar_work a')))] else [])"
      "the_store st1 = the_store st"
      by (rule finish_success [where a = ?cur and n = "sge_length (wr_sge (ar_work a'))"]) (simp_all add: completion_opcode_def)
    have "st' = st1" using fin(1) True by (simp add: st'_def accept_read_segment_def k(1,2) all Let_def)
    moreover have "resolve (the_registry st1) = resolve (the_registry st)" using finish_active_resolve [OF fin(1)] by simp
    ultimately show ?thesis using fin True by (simp add: read_completion_def)
  next
    case False
    then have "st' = st\<lparr>the_slot := ?s\<lparr>active_request := Some (?cur\<lparr>ar_timer :=
        timer_arm (ar_timer ?cur) now (slot_timeout ?s tps)\<rparr>)\<rparr>\<rparr>"
      by (simp add: st'_def accept_read_segment_def k(1,2) all Let_def)
    then show ?thesis using False by simp
  qed
  then show "resolve (the_registry st') = resolve (the_registry st)" "machine (the_slot st') = machine (the_slot st)"
    "the_store st' = the_store st"
    "ring_list (completion_queue (the_slot st')) = ring_list (completion_queue (the_slot st)) @
       (if Suc k = n then read_completion a' else [])"
    "if Suc k = n then active_request (the_slot st') = None
     else \<exists>b. active_request (the_slot st') = Some b \<and> ar_work b = ar_work a' \<and> first_psn b = first_psn a' \<and>
       packet_count_of b = packet_count_of a' \<and> read_packets_received b = of_nat (Suc k)"
    by blast+
qed

lemma read_accepts:
  assumes p: "read_progress others st0 a m k st" and k: "k < rm_segments m" and seg: "read_segment m k pkt"
  shows "read_progress others st0 a m (Suc k) (react now tps pkt st)"
proof -
  let ?n = "rm_segments m" and ?L = "length (rm_data m)" and ?mtu = "rm_mtu m" and ?sge = "wr_sge (ar_work a)"
  have ready: "read_ready m a st0" and inv: "rc_inv others st" and mach: "machine (the_slot st) = machine (the_slot st0)"
    and res: "resolve (the_registry st) = resolve (the_registry st0)"
    and mem: "the_store st = write_bytes (the_store st0) (sge_address ?sge) (take (rm_filled m k) (rm_data m))"
    and cq: "ring_list (completion_queue (the_slot st)) = ring_list (completion_queue (the_slot st0))"
    using p k by (simp_all add: read_progress_def)
  obtain a' where a': "active_request (the_slot st) = Some a'" "ar_work a' = ar_work a" "first_psn a' = first_psn a"
    "packet_count_of a' = packet_count_of a" "read_packets_received a' = of_nat k" using p k by (auto simp: read_progress_def)
  have f: "first_psn a = psn_of (rm_psn m)" "packet_count_of a = of_nat ?n" "?n \<le> 2 ^ 23" "is_read a'"
    "unat (sge_length ?sge) = ?L" "slot_mtu (the_slot st) = ?mtu"
    using ready by (simp_all add: read_ready_def is_read_def a'(2) slot_mtu_def mach)
  have mtu: "0 < ?mtu" "?mtu \<le> 4096" unfolding f(6) [symmetric] slot_mtu_def by simp_all
  have n32: "?n < 2 ^ 32" using f(3) by simp
  note len = piece_length [OF mtu(1) k [unfolded rm_segments_def], folded rm_segments_def rm_filled_def]
  have bounds: "segment_bounds (sge_length ?sge) ?mtu (of_nat k) = Some (rm_filled m k, min (?L - rm_filled m k) ?mtu)"
    using segment_bounds_nat [OF _ mtu, of k "sge_length ?sge"] k by (simp add: f(5) rm_segments_def rm_filled_def)
  have pay: "pr_payload pkt = piece (rm_data m) ?mtu k" and op: "opcode (pr_bth pkt) = segmented_opcode Dir_ReadResponse (of_nat k) (of_nat ?n)"
    using seg by (simp_all add: read_segment_def)
  have plen: "length (pr_payload pkt) = min (?L - rm_filled m k) ?mtu" by (simp add: pay piece_def rm_filled_def min.commute)
  have L32: "?L < 2 ^ 32" using unsigned_less [of "sge_length ?sge", where 'a = nat] by (simp add: f(5))
  have rinv: "registry_inv (the_registry st)" using inv by (simp add: rc_inv_def)
  have val: "validate_local_write (the_registry st) (sge_lkey ?sge) (sge_address ?sge) ?L = Inr ()"
    using ready by (simp add: validate_local_write_def res read_ready_def)
  have fit: "rm_filled m k + length (pr_payload pkt) \<le> ?L" using len(3) by (simp add: pay)
  note wr = write_local_part [OF rinv val fit]
  have off: "u64_try_from (rm_filled m k) = Some (of_nat (rm_filled m k))" using fit L32 by (simp add: u64_try_from_def)
  let ?mem = "write_bytes (the_store st) (sge_address ?sge + of_nat (rm_filled m k)) (pr_payload pkt)"
  have r: "react now tps pkt st = fst (accept_read_segment a' (pr_payload pkt) (psn_of (rm_psn m + int k)) now tps (st\<lparr>the_store := ?mem\<rparr>))"
    using react_read_segment [OF a'(1) f(4) seg k f(3), of now tps] read_psn [OF k k f(3), of "rm_psn m"]
    by (simp add: a' f bounds plen op off wr ticks_or_max_def)
  have "length (take (rm_filled m k) (rm_data m)) = rm_filled m k" using fit by simp
  then have grown: "?mem = write_bytes (the_store st0) (sge_address ?sge) (take (rm_filled m (Suc k)) (rm_data m))"
    unfolding rm_filled_def [of m "Suc k"] piece_next [symmetric] write_bytes_append mem pay by (simp add: rm_filled_def)
  have inv': "rc_inv others (st\<lparr>the_store := ?mem\<rparr>)" using inv by (simp add: rc_inv_def)
  have act: "active_request (the_slot (st\<lparr>the_store := ?mem\<rparr>)) = Some a'" using a'(1) by simp
  note acc = accept_read_segment_result [OF inv' act a'(5) _ k n32 r]
  have "packet_count_of a' = of_nat ?n" by (simp add: a'(4) f(2))
  from acc [OF this] show ?thesis
    using react_inv [OF inv, of now tps pkt] ready res mach cq grown a'
    by (auto simp: read_progress_def read_completion_def completion_opcode_def)
qed

interpretation read_rx: in_order_receiver "react now tps" "read_segment m" "read_progress others st0 a m" "rm_segments m"
  by unfold_locales (rule read_accepts, assumption+, rule read_ignores, assumption+)

text \<open>
  C5: Whatever the network does to the responses of an RDMA READ (loss, duplication,
  reordering, in any combination), the local buffer holds exactly the segments that arrived
  in order and the rest of memory is unchanged; the request completes, successfully and with
  its full length if it is signaled, exactly when the last of them has arrived, and not
  before.
\<close>

theorem read_delivery:
  assumes "rc_inv others st" "read_ready m a st"
    and "list_all (\<lambda>(i, pkt). i < rm_segments m \<and> read_segment m i pkt) ds"
  shows "let k = in_order 0 (map fst ds); st' = deliver_all (react now tps) ds st
    in the_store st' = write_bytes (the_store st) (sge_address (wr_sge (ar_work a))) (take (k * rm_mtu m) (rm_data m)) \<and>
       ring_list (completion_queue (the_slot st')) = ring_list (completion_queue (the_slot st)) @
         (if k = rm_segments m then read_completion a else []) \<and>
       (active_request (the_slot st') = None \<longleftrightarrow> k = rm_segments m) \<and>
       machine (the_slot st') = machine (the_slot st) \<and> rc_inv others st' \<and>
       (subseq [0..<rm_segments m] (map fst ds) \<longrightarrow> k = rm_segments m)"
proof -
  have "read_progress others st a m 0 st"
    using assms(1,2) by (simp add: read_progress_def rm_filled_def) (simp add: read_ready_def)
  from read_rx.prefix_held [OF this _ assms(3)]
  have "read_progress others st a m (in_order 0 (map fst ds)) (deliver_all (react now tps) ds st)" by simp
  moreover have "list_all (\<lambda>i. i < rm_segments m) (map fst ds)" using assms(3) by (auto simp: list_all_iff)
  ultimately show ?thesis
    using in_order_complete [of 0 "rm_segments m" "map fst ds"]
    by (auto simp: Let_def read_progress_def rm_filled_def split: if_splits)
qed


definition sample_rm :: read_message where
  "sample_rm = \<lparr>rm_data = [1, 2, 3], rm_psn = 5, rm_mtu = 256\<rparr>"

definition sample_read_active :: ActiveRequest where
  "sample_read_active = sample_active\<lparr>ar_work := sample_work\<lparr>wr_kind := WrRdmaRead 8192 55\<rparr>, transmitted_packets := 1, phase := Waiting\<rparr>"

definition sample_reader :: rc_state where
  "sample_reader = sample_requester\<lparr>the_slot := (the_slot sample_requester)\<lparr>active_request := Some sample_read_active\<rparr>\<rparr>"

definition sample_read_response :: PacketRef where
  "sample_read_response = \<lparr>pr_bth = bth_new RdmaReadResponseOnly 17 5, pr_reth = None, pr_aeth = Some (aeth_ack 1),
     pr_immediate = None, pr_payload = [1, 2, 3], pr_padding = [0], pr_icrc = 0\<rparr>"

lemma sample_reader_inv: "rc_inv {#} sample_reader"
proof -
  have q: "receive_queue (sample_qp []) = ring_new 2" by (simp add: sample_qp_def)
  have "owed (the_slot sample_reader) = {#(3, CqRdmaRead)#}"
    by (simp add: sample_reader_def sample_requester_def owed_def works_def receives_def sample_qp_fields inbound_receives_def
      sample_read_active_def work_id_def sample_work_def q)
  moreover have "owed (the_slot sample_requester) = {#(3, CqRdmaWrite)#}"
    by (simp add: sample_requester_def owed_def works_def receives_def sample_qp_fields inbound_receives_def
      sample_active_def work_id_def sample_work_def q)
  ultimately show ?thesis using sample_requester_inv
    by (simp add: rc_inv_def slot_inv_def slot_pre_def)
      (simp add: sample_reader_def sample_requester_def queues_ok_def all_leased_def memory_held_def slot_leases_def)
qed

theorem read_delivery_witness:
  "let st' = deliver_all (react 0 1000) [(0, sample_read_response), (0, sample_read_response)] sample_reader
   in the_store st' = write_bytes (\<lambda>_. 7) 4096 [1, 2, 3] \<and>
      ring_list (completion_queue (the_slot st')) = [completion_success 3 CqRdmaRead 3]"
proof -
  have n: "rm_segments sample_rm = 1" by (simp add: rm_segments_def sample_rm_def segs_def div_ceil_def)
  have ready: "read_ready sample_rm sample_read_active sample_reader"
    using sample_local_resolve [unfolded numeral_3_eq_3]
    by (simp add: read_ready_def n sample_reader_def sample_requester_def validate_local_write_def is_read_def)
      (simp add: sample_rm_def sample_read_active_def sample_active_def sample_work_def sample_qp_def slot_mtu_def sample_config_def psn_of_def)
  have seg: "read_segment sample_rm 0 sample_read_response"
    by (simp add: read_segment_def n segmented_opcode.simps)
      (simp add: sample_rm_def sample_read_response_def bth_new_def piece_def psn_of_def new_truncated_def PSN_MASK_def
        aeth_ack_def aeth_class_def ACK_UNLIMITED_def Let_def)
  have cq: "ring_list (completion_queue (the_slot sample_reader)) = []" "the_store sample_reader = (\<lambda>_. 7)"
    by (simp_all add: sample_reader_def sample_requester_def sample_qp_fields)
  show ?thesis
    using read_delivery [OF sample_reader_inv ready, of "[(0, sample_read_response), (0, sample_read_response)]" 0 1000] seg cq
    by (simp add: n Let_def)
      (simp add: sample_rm_def sample_read_active_def sample_active_def sample_work_def read_completion_def completion_opcode_def)
qed

end
