(* ===== verification/Rc_Endpoint.thy ===== *)
theory Rc_Endpoint
  imports Rc_Recovery
begin

text \<open>
  The posted-work endpoint of \<open>rocev2/src/rc.rs\<close>, \<open>RcEndpoint\<close>: its table of queue pairs,
  the control plane (creating, configuring, removing queue pairs, posting work, polling
  completions) and the scalar data path \<open>progress\<close>.  The packet backend is the parameter
  \<open>ops\<close>, a record with the three operations of the trait \<open>PacketIo\<close> over a backend state
  \<open>'io\<close> with errors \<open>'e\<close>.  The const generics are arguments of the operations that use them.
  A handler borrows one queue pair together with the registry, the memory and the counters;
  \<open>on_slot\<close> is that borrow.  The three loops that pop a queue until it is empty are partial
  functions; that they return is proved in \<open>Rc_Progress\<close>.  Receive and transmit buffers
  belong to the caller: their contents are inputs, and what a call leaves in them is not
  part of the result.
\<close>

section \<open>Data\<close>

record ('io, 'e) PacketIo =
  max_ipv4_packet :: "'io \<Rightarrow> usize"
  transmit_ipv4 :: "octets \<Rightarrow> 'io \<Rightarrow> 'io \<times> ('e + unit)"
  receive_ipv4 :: "octets \<Rightarrow> 'io \<Rightarrow> 'io \<times> octets \<times> ('e + usize option)"

datatype DataTxClass = Requester_Class | Responder_Class

fun other_class :: "DataTxClass \<Rightarrow> DataTxClass" where
  "other_class Requester_Class = Responder_Class"
| "other_class Responder_Class = Requester_Class"

record RcProgress =
  pg_received :: usize
  pg_transmitted :: usize
  pg_completions :: usize
  pg_retransmissions :: usize

definition progress_default :: RcProgress where
  "progress_default = \<lparr>pg_received = 0, pg_transmitted = 0, pg_completions = 0, pg_retransmissions = 0\<rparr>"

definition made_progress :: "RcProgress \<Rightarrow> bool" where
  "made_progress p \<longleftrightarrow> pg_received p \<noteq> 0 \<or> pg_transmitted p \<noteq> 0 \<or> pg_completions p \<noteq> 0 \<or> pg_retransmissions p \<noteq> 0"

datatype ReceiveOne = Rx_Empty | Rx_Dropped | Rx_Packet DecodedPacket

record ReadyReadResponse =
  rd_index :: usize
  rd_path :: Ipv4Path
  rd_remote_qpn :: u32
  rd_response :: ReadResponseState
  rd_msn :: psn
  rd_mtu :: usize

record EmitResult =
  er_transmitted :: bool
  er_completions :: usize

record 'io RcEndpoint =
  ep_io :: 'io
  ep_config :: RcEndpointConfig
  ep_stats :: RcEndpointStats
  ep_memory :: MemoryRegistry
  ep_store :: memory
  ep_qps :: "RcQpSlot option list"
  ep_generations :: "u32 list"
  ep_qpn_index :: QpnTable
  requester_ready :: ReadyQueue
  responder_ready :: ReadyQueue
  timer_scheduler :: TimerScheduler
  pending_control :: "ControlReply Ring"
  next_data_tx_class :: DataTxClass

definition endpoint_new ::
  "('io, 'e) PacketIo \<Rightarrow> usize \<Rightarrow> usize \<Rightarrow> usize \<Rightarrow> u32 \<Rightarrow> memory \<Rightarrow> 'io \<Rightarrow> RcEndpointConfig
     \<Rightarrow> u32 \<times> (ApiError + 'io RcEndpoint)" where
  "endpoint_new ops qps mrs qpn_room next_id mem io config =
     (if maximum_packet_size config < MIN_ROCE_IPV4_PACKET
      then (next_id, Inl (ApiError.BufferTooShort MIN_ROCE_IPV4_PACKET (maximum_packet_size config)))
      else if maximum_packet_size config > max_ipv4_packet ops io
      then (next_id, Inl (UnsupportedMaximumPacket (maximum_packet_size config) (max_ipv4_packet ops io)))
      else if ticks_per_second config = 0 then (next_id, Inl InvalidTicksPerSecond)
      else case validate_qpn_index qps qpn_room of
        Inl e \<Rightarrow> (next_id, Inl e)
      | Inr _ \<Rightarrow>
        (case registry_new mrs (memory_key_seed config) next_id of
           (next_id, Inl e) \<Rightarrow> (next_id, Inl (Memory e))
         | (next_id, Inr r) \<Rightarrow> (next_id, Inr
             \<lparr>ep_io = io, ep_config = config, ep_stats = stats_default, ep_memory = r, ep_store = mem,
              ep_qps = replicate qps None, ep_generations = replicate qps 0,
              ep_qpn_index = qpn_new qpn_room, requester_ready = ready_new qps,
              responder_ready = ready_new qps, timer_scheduler = timer_sched_new qps,
              pending_control = ring_new MAX_BATCH_PACKETS, next_data_tx_class = Responder_Class\<rparr>)))"

section \<open>The table of queue pairs\<close>

definition qp_at :: "'io RcEndpoint \<Rightarrow> usize \<Rightarrow> RcQpSlot option" where
  "qp_at ep i = (if i < length (ep_qps ep) then ep_qps ep ! i else None)"

definition set_qp :: "usize \<Rightarrow> RcQpSlot option \<Rightarrow> 'io RcEndpoint \<Rightarrow> 'io RcEndpoint" where
  "set_qp i s ep = ep\<lparr>ep_qps := (ep_qps ep)[i := s]\<rparr>"

definition on_slot :: "usize \<Rightarrow> 'r \<Rightarrow> (rc_state \<Rightarrow> rc_state \<times> 'r) \<Rightarrow> 'io RcEndpoint \<Rightarrow> 'io RcEndpoint \<times> 'r" where
  "on_slot i absent f ep =
     (case qp_at ep i of
        None \<Rightarrow> (ep, absent)
      | Some s \<Rightarrow>
          (let (st, x) = f \<lparr>the_slot = s, the_registry = ep_memory ep, the_store = ep_store ep, the_stats = ep_stats ep\<rparr>
           in ((set_qp i (Some (the_slot st)) ep)\<lparr>ep_memory := the_registry st, ep_store := the_store st,
                  ep_stats := the_stats st\<rparr>, x)))"

definition qp_index :: "'io RcEndpoint \<Rightarrow> QpHandle \<Rightarrow> ApiError + usize" where
  "qp_index ep h =
     (let i = unat (handle_slot h)
      in case qp_at ep i of
           None \<Rightarrow> Inl InvalidQpHandle
         | Some s \<Rightarrow> if qs_generation s \<noteq> handle_generation h then Inl InvalidQpHandle else Inr i)"

definition count_completions :: "usize \<Rightarrow> 'io RcEndpoint \<Rightarrow> 'io RcEndpoint" where
  "count_completions n ep = (let stats = ep_stats ep
     in ep\<lparr>ep_stats := stats\<lparr>st_completions := bump_by n (st_completions stats)\<rparr>\<rparr>)"

definition deschedule_qp :: "usize \<Rightarrow> 'io RcEndpoint \<Rightarrow> 'io RcEndpoint" where
  "deschedule_qp i ep =
     (let ep = ep\<lparr>requester_ready := fst (ready_cancel (requester_ready ep) i),
                  responder_ready := fst (ready_cancel (responder_ready ep) i)\<rparr>;
          ep = (case u32_try_from i of
              Some q \<Rightarrow> ep\<lparr>timer_scheduler := fst (timer_sched_cancel (timer_scheduler ep) q)\<rparr>
            | None \<Rightarrow> ep)
      in case qp_at ep i of
           Some s \<Rightarrow> set_qp i (Some (s\<lparr>requester_scheduled := False, responder_scheduled := False,
              timer_sequence := next_timer_sequence (timer_sequence s)\<rparr>)) ep
         | None \<Rightarrow> ep)"

definition synchronize_timer :: "usize \<Rightarrow> RcQpSlot \<Rightarrow> TimerScheduler \<Rightarrow> TimerScheduler \<times> u32" where
  "synchronize_timer i s timers =
     (case u32_try_from i of
        None \<Rightarrow> (timers, timer_sequence s)
      | Some q \<Rightarrow>
        (case timer_deadline s of
           Some d \<Rightarrow>
             if (case timer_get timers q of
                   Some entry \<Rightarrow> te_deadline entry = d \<and> te_generation entry = qs_generation s \<and>
                     te_sequence entry = timer_sequence s
                 | None \<Rightarrow> False)
             then (timers, timer_sequence s)
             else (let sequence = next_timer_sequence (timer_sequence s)
                   in (fst (timer_schedule timers (TimerEntry d q (qs_generation s) sequence)), sequence))
         | None \<Rightarrow>
             (case timer_sched_cancel timers q of
                (timers, Some _) \<Rightarrow> (timers, next_timer_sequence (timer_sequence s))
              | (timers, None) \<Rightarrow> (timers, timer_sequence s))))"

definition synchronize_qp :: "usize \<Rightarrow> 'io RcEndpoint \<Rightarrow> 'io RcEndpoint" where
  "synchronize_qp i ep =
     (case qp_at ep i of
        None \<Rightarrow> deschedule_qp i ep
      | Some s \<Rightarrow>
        (let ep = ep\<lparr>requester_ready := (if requester_is_runnable s
               then fst (ready_schedule (requester_ready ep) i) else fst (ready_cancel (requester_ready ep) i))\<rparr>;
             ep = ep\<lparr>responder_ready := (if responder_is_runnable s
               then fst (ready_schedule (responder_ready ep) i) else fst (ready_cancel (responder_ready ep) i))\<rparr>;
             (timers, sequence) = synchronize_timer i s (timer_scheduler ep)
         in set_qp i (Some (s\<lparr>timer_sequence := sequence,
               requester_scheduled := is_scheduled (requester_ready ep) i,
               responder_scheduled := is_scheduled (responder_ready ep) i\<rparr>))
              (ep\<lparr>timer_scheduler := timers\<rparr>)))"

section \<open>Control plane\<close>

definition register_memory :: "u64 \<times> usize \<Rightarrow> AccessFlags \<Rightarrow> 'io RcEndpoint \<Rightarrow> 'io RcEndpoint \<times> (ApiError + RegionHandle)" where
  "register_memory region access ep =
     (let (r, res) = register region access (ep_memory ep) in (ep\<lparr>ep_memory := r\<rparr>, map_err Memory res))"

definition register_memory_with_key_generator ::
  "('g \<Rightarrow> 'g \<times> (MemoryError + u32)) \<Rightarrow> u64 \<times> usize \<Rightarrow> AccessFlags \<Rightarrow> 'g \<Rightarrow> 'io RcEndpoint
     \<Rightarrow> 'io RcEndpoint \<times> 'g \<times> (ApiError + RegionHandle)" where
  "register_memory_with_key_generator generator region access g ep =
     (let (r, g, res) = register_with_key_generator generator region access (ep_memory ep) g
      in (ep\<lparr>ep_memory := r\<rparr>, g, map_err Memory res))"

definition deregister_memory :: "RegionHandle \<Rightarrow> 'io RcEndpoint \<Rightarrow> 'io RcEndpoint \<times> (ApiError + (u64 \<times> usize))" where
  "deregister_memory h ep =
     (let (r, res) = deregister h (ep_memory ep) in (ep\<lparr>ep_memory := r\<rparr>, map_err Memory res))"

definition free_qp :: "'io RcEndpoint \<Rightarrow> usize option" where
  "free_qp ep = List.find (\<lambda>i. Option.is_none (ep_qps ep ! i)) [0..<length (ep_qps ep)]"

definition check_qp_limits :: "RcQpConfig \<Rightarrow> 'io RcEndpoint \<Rightarrow> ApiError + unit" where
  "check_qp_limits config ep =
     and_then (maximum_packet_for_mtu (mtu_bytes (path_mtu (transport config)))) (\<lambda>required.
       if required > maximum_packet_size (ep_config ep)
       then Inl (PathMtuExceedsPacketLimit required (maximum_packet_size (ep_config ep))) else Inr ())"

definition create_qp :: "usize \<Rightarrow> usize \<Rightarrow> usize \<Rightarrow> RcQpConfig \<Rightarrow> 'io RcEndpoint \<Rightarrow> 'io RcEndpoint \<times> (ApiError + QpHandle)" where
  "create_qp sq rq cq config ep =
     (if qc_rnr_nak_timer config > MAX_RNR_TIMER then (ep, Inl (InvalidRnrNakTimer (qc_rnr_nak_timer config)))
      else if qpn_get (ep_qpn_index ep) (local_qpn (transport config)) \<noteq> None
      then (ep, Inl (DuplicateLocalQpn (local_qpn (transport config))))
      else case check_qp_limits config ep of
        Inl e \<Rightarrow> (ep, Inl e)
      | Inr _ \<Rightarrow>
        (case free_qp ep of
           None \<Rightarrow> (ep, Inl QpTableFull)
         | Some i \<Rightarrow>
           (let gen = max (ep_generations ep ! i + 1) 1
            in case slot_new sq rq cq gen config of
              Inl e \<Rightarrow> (ep, Inl e)
            | Inr s \<Rightarrow>
              (case insert_qpn (ep_qpn_index ep) (local_qpn (transport config)) i of
                 (index, Inl e) \<Rightarrow> (ep\<lparr>ep_qpn_index := index\<rparr>, Inl e)
               | (index, Inr slot_number) \<Rightarrow>
                   (set_qp i (Some s) (ep\<lparr>ep_qpn_index := index, ep_generations := (ep_generations ep)[i := gen]\<rparr>),
                    Inr \<lparr>handle_slot = slot_number, handle_generation = gen\<rparr>)))))"

definition remove_qp :: "QpHandle \<Rightarrow> 'io RcEndpoint \<Rightarrow> 'io RcEndpoint \<times> (ApiError + RcQpConfig)" where
  "remove_qp h ep =
     (case qp_index ep h of
        Inl e \<Rightarrow> (ep, Inl e)
      | Inr i \<Rightarrow>
        (case qp_at ep i of
           None \<Rightarrow> (ep, Inl InvalidQpHandle)
         | Some s \<Rightarrow>
           if is_busy s then (ep, Inl QpBusy)
           else let ep = deschedule_qp i ep
             in case qp_at ep i of
                  None \<Rightarrow> (ep, Inl InvalidQpHandle)
                | Some s \<Rightarrow>
                    (let config = slot_config s
                     in ((set_qp i None ep)\<lparr>ep_qpn_index := fst (qpn_remove (ep_qpn_index ep) (local_qpn (transport config)))\<rparr>,
                         Inr config))))"

definition reconfigure_qp :: "QpHandle \<Rightarrow> RcQpConfig \<Rightarrow> 'io RcEndpoint \<Rightarrow> 'io RcEndpoint \<times> (ApiError + unit)" where
  "reconfigure_qp h config ep =
     (if qc_rnr_nak_timer config > MAX_RNR_TIMER then (ep, Inl (InvalidRnrNakTimer (qc_rnr_nak_timer config)))
      else case check_qp_limits config ep of
        Inl e \<Rightarrow> (ep, Inl e)
      | Inr _ \<Rightarrow>
      (case qp_index ep h of
         Inl e \<Rightarrow> (ep, Inl e)
       | Inr i \<Rightarrow>
         if (case qpn_get (ep_qpn_index ep) (local_qpn (transport config)) of
               Some owner \<Rightarrow> owner \<noteq> handle_slot h | None \<Rightarrow> False)
         then (ep, Inl (DuplicateLocalQpn (local_qpn (transport config))))
         else case qp_at ep i of
           None \<Rightarrow> (ep, Inl InvalidQpHandle)
         | Some s \<Rightarrow>
           if is_busy s then (ep, Inl QpBusy)
           else (case qp_reconfigure (machine s) (transport config) of
             (_, Inl e) \<Rightarrow> (ep, Inl (QpState e))
           | (m, Inr _) \<Rightarrow>
             (let previous = local_qpn (qp_config (machine s));
                  (index, res) = (if previous \<noteq> local_qpn (transport config)
                    then (case insert_qpn (ep_qpn_index ep) (local_qpn (transport config)) i of
                        (index, Inl e) \<Rightarrow> (index, Inl e)
                      | (index, Inr _) \<Rightarrow> (fst (qpn_remove index previous), Inr ()))
                    else (ep_qpn_index ep, Inr ()));
                  ep = ep\<lparr>ep_qpn_index := index\<rparr>
              in case res of
                   Inl e \<Rightarrow> (ep, Inl e)
                 | Inr _ \<Rightarrow>
                   (synchronize_qp i (set_qp i (Some (reset_transport_state (s\<lparr>machine := m, qs_path := qc_path config,
                      qs_rnr_nak_timer := qc_rnr_nak_timer config\<rparr>))) ep), Inr ())))))"

definition transition_slot :: "QpState \<Rightarrow> rc_state \<Rightarrow> rc_state \<times> (ApiError + usize)" where
  "transition_slot destination st =
     (case qp_transition (machine (the_slot st)) destination of
        (_, Inl e) \<Rightarrow> (st, Inl (QpState e))
      | (m, Inr _) \<Rightarrow>
        (let st = st\<lparr>the_slot := (the_slot st)\<lparr>machine := m\<rparr>\<rparr>
         in if destination = Error then (let (st, n) = flush_pending st in (st, Inr n))
            else if destination = Reset
            then (let (st, n) = flush_pending st in (st\<lparr>the_slot := reset_transport_state (the_slot st)\<rparr>, Inr n))
            else (st, Inr 0)))"

definition transition_qp :: "QpHandle \<Rightarrow> QpState \<Rightarrow> 'io RcEndpoint \<Rightarrow> 'io RcEndpoint \<times> (ApiError + unit)" where
  "transition_qp h destination ep =
     (case qp_index ep h of
        Inl e \<Rightarrow> (ep, Inl e)
      | Inr i \<Rightarrow>
        (case on_slot i (Inl InvalidQpHandle) (transition_slot destination) ep of
           (ep, Inl e) \<Rightarrow> (ep, Inl e)
         | (ep, Inr generated) \<Rightarrow> (count_completions generated (synchronize_qp i ep), Inr ())))"


section \<open>Posting and polling\<close>

definition drop_reservation :: "RcQpSlot \<Rightarrow> RcQpSlot" where
  "drop_reservation s = s\<lparr>completion_reservations := completion_reservations s - 1\<rparr>"

definition post_send :: "WorkRequest \<Rightarrow> rc_state \<Rightarrow> rc_state \<times> (ApiError + unit)" where
  "post_send work st =
     (if ring_is_full (send_queue (the_slot st)) then (st, Inl (QueueFull Send_Queue))
      else case reserve_completion (the_slot st) of
        (_, Inl e) \<Rightarrow> (st, Inl e)
      | (s, Inr _) \<Rightarrow>
        (case retain_local (sge_lkey (wr_sge work)) (the_registry st) of
           (r, Inl e) \<Rightarrow> (st\<lparr>the_slot := drop_reservation s, the_registry := r\<rparr>, Inl (Memory e))
         | (r, Inr lease) \<Rightarrow>
           (case ring_push (send_queue s) \<lparr>posted_work = work, posted_lease = Some lease\<rparr> of
              (q, Inr _) \<Rightarrow> (st\<lparr>the_slot := s\<lparr>send_queue := q\<rparr>, the_registry := r\<rparr>, Inr ())
            | (q, Inl _) \<Rightarrow>
                (st\<lparr>the_slot := drop_reservation (s\<lparr>send_queue := q\<rparr>),
                    the_registry := fst (release_lease r (Some lease))\<rparr>, Inl (QueueFull Send_Queue)))))"

definition post_work :: "QpHandle \<Rightarrow> WorkRequest \<Rightarrow> 'io RcEndpoint \<Rightarrow> 'io RcEndpoint \<times> (ApiError + unit)" where
  "post_work h work ep =
     (case qp_index ep h of
        Inl e \<Rightarrow> (ep, Inl e)
      | Inr i \<Rightarrow>
        (case qp_at ep i of
           None \<Rightarrow> (ep, Inl InvalidQpHandle)
         | Some s \<Rightarrow>
           if qp_state (machine s) \<noteq> Rts then (ep, Inl (QpNotReady (qp_state (machine s))))
           else case validate_posted_work (ep_memory ep) work (mtu_bytes (path_mtu (qp_config (machine s)))) of
             Inl e \<Rightarrow> (ep, Inl e)
           | Inr _ \<Rightarrow>
             (case on_slot i (Inl InvalidQpHandle) (post_send work) ep of
                (ep, Inl e) \<Rightarrow> (ep, Inl e)
              | (ep, Inr _) \<Rightarrow>
                (let ep = synchronize_qp i ep; stats = ep_stats ep
                 in (ep\<lparr>ep_stats := stats\<lparr>st_posted_work_requests := bump (st_posted_work_requests stats)\<rparr>\<rparr>, Inr ())))))"

fun retain_batch :: "MemoryRegistry \<Rightarrow> RegionLease option list \<Rightarrow> u32 list \<Rightarrow> MemoryRegistry \<times> (ApiError + RegionLease option list)" where
  "retain_batch r leases [] = (r, Inr leases)"
| "retain_batch r leases (k # ks) =
     (case retain_local k r of
        (r, Inr lease) \<Rightarrow> retain_batch r (leases @ [Some lease]) ks
      | (r, Inl e) \<Rightarrow> (fold (\<lambda>lease r. fst (release_lease r lease)) leases r, Inl (Memory e)))"

definition completion_room :: "RcQpSlot \<Rightarrow> usize" where
  "completion_room s = ring_capacity (completion_queue s) - (ring_len (completion_queue s) + completion_reservations s)"

fun first_error :: "('a \<Rightarrow> 'e + 'b) \<Rightarrow> 'a list \<Rightarrow> 'e + unit" where
  "first_error f [] = Inr ()"
| "first_error f (x # xs) = and_then (f x) (\<lambda>_. first_error f xs)"

definition push_all :: "('w \<times> RegionLease option) list \<Rightarrow> 'w PostedWork Ring \<Rightarrow> 'w PostedWork Ring" where
  "push_all ps q = fold (\<lambda>(work, lease) q. fst (ring_push q \<lparr>posted_work = work, posted_lease = lease\<rparr>)) ps q"

definition post_send_batch :: "WorkRequest list \<Rightarrow> rc_state \<Rightarrow> rc_state \<times> (ApiError + unit)" where
  "post_send_batch batch st =
     (case retain_batch (the_registry st) [] (map (\<lambda>w. sge_lkey (wr_sge w)) batch) of
        (r, Inl e) \<Rightarrow> (st\<lparr>the_registry := r\<rparr>, Inl e)
      | (r, Inr leases) \<Rightarrow>
        (let s = the_slot st
         in (st\<lparr>the_slot := s\<lparr>completion_reservations := completion_reservations s + length batch,
                 send_queue := push_all (zip batch leases) (send_queue s)\<rparr>, the_registry := r\<rparr>, Inr ())))"

definition post_work_batch :: "QpHandle \<Rightarrow> WorkRequest list \<Rightarrow> 'io RcEndpoint \<Rightarrow> 'io RcEndpoint \<times> (ApiError + usize)" where
  "post_work_batch h batch ep =
     (if batch = [] then (ep, Inr 0)
      else case qp_index ep h of
        Inl e \<Rightarrow> (ep, Inl e)
      | Inr i \<Rightarrow>
        (case qp_at ep i of
           None \<Rightarrow> (ep, Inl InvalidQpHandle)
         | Some s \<Rightarrow>
           if qp_state (machine s) \<noteq> Rts then (ep, Inl (QpNotReady (qp_state (machine s))))
           else if length batch > ring_remaining_capacity (send_queue s) then (ep, Inl (QueueFull Send_Queue))
           else if length batch > completion_room s then (ep, Inl (QueueFull Completion_Queue))
           else case first_error (\<lambda>work. validate_posted_work (ep_memory ep) work
               (mtu_bytes (path_mtu (qp_config (machine s))))) batch of
             Inl e \<Rightarrow> (ep, Inl e)
           | Inr _ \<Rightarrow>
             (case on_slot i (Inl InvalidQpHandle) (post_send_batch batch) ep of
                (ep, Inl e) \<Rightarrow> (ep, Inl e)
              | (ep, Inr _) \<Rightarrow>
                (let ep = synchronize_qp i ep; stats = ep_stats ep
                 in (ep\<lparr>ep_stats := stats\<lparr>st_posted_work_requests :=
                       bump_by (length batch) (st_posted_work_requests stats)\<rparr>\<rparr>, Inr (length batch))))))"

definition post_recv :: "RecvWorkRequest \<Rightarrow> rc_state \<Rightarrow> rc_state \<times> (ApiError + unit)" where
  "post_recv work st =
     (if ring_is_full (receive_queue (the_slot st)) then (st, Inl (QueueFull Receive_Queue))
      else case reserve_completion (the_slot st) of
        (_, Inl e) \<Rightarrow> (st, Inl e)
      | (s, Inr _) \<Rightarrow>
        (case retain_local (sge_lkey (recv_sge work)) (the_registry st) of
           (r, Inl e) \<Rightarrow> (st\<lparr>the_slot := drop_reservation s, the_registry := r\<rparr>, Inl (Memory e))
         | (r, Inr lease) \<Rightarrow>
           (case ring_push (receive_queue s) \<lparr>posted_work = work, posted_lease = Some lease\<rparr> of
              (q, Inr _) \<Rightarrow> (st\<lparr>the_slot := s\<lparr>receive_queue := q\<rparr>, the_registry := r\<rparr>, Inr ())
            | (q, Inl _) \<Rightarrow>
                (st\<lparr>the_slot := drop_reservation (s\<lparr>receive_queue := q\<rparr>),
                    the_registry := fst (release_lease r (Some lease))\<rparr>, Inl (QueueFull Receive_Queue)))))"

definition validate_receive :: "MemoryRegistry \<Rightarrow> RecvWorkRequest \<Rightarrow> ApiError + unit" where
  "validate_receive r work = map_err Memory (validate_local_write r (sge_lkey (recv_sge work)) (sge_address (recv_sge work))
     (unat (sge_length (recv_sge work))))"

definition post_receive :: "QpHandle \<Rightarrow> RecvWorkRequest \<Rightarrow> 'io RcEndpoint \<Rightarrow> 'io RcEndpoint \<times> (ApiError + unit)" where
  "post_receive h work ep =
     (case qp_index ep h of
        Inl e \<Rightarrow> (ep, Inl e)
      | Inr i \<Rightarrow>
        (case qp_at ep i of
           None \<Rightarrow> (ep, Inl InvalidQpHandle)
         | Some s \<Rightarrow>
           if qp_state (machine s) \<notin> {Rtr, Rts, Sqd, Sqe} then (ep, Inl (QpNotReady (qp_state (machine s))))
           else case validate_receive (ep_memory ep) work of
             Inl e \<Rightarrow> (ep, Inl e)
           | Inr _ \<Rightarrow>
             (case on_slot i (Inl InvalidQpHandle) (post_recv work) ep of
                (ep, Inl e) \<Rightarrow> (ep, Inl e)
              | (ep, Inr _) \<Rightarrow>
                (let stats = ep_stats ep
                 in (ep\<lparr>ep_stats := stats\<lparr>st_posted_receive_requests := bump (st_posted_receive_requests stats)\<rparr>\<rparr>, Inr ())))))"

definition post_recv_batch :: "RecvWorkRequest list \<Rightarrow> rc_state \<Rightarrow> rc_state \<times> (ApiError + unit)" where
  "post_recv_batch batch st =
     (case retain_batch (the_registry st) [] (map (\<lambda>w. sge_lkey (recv_sge w)) batch) of
        (r, Inl e) \<Rightarrow> (st\<lparr>the_registry := r\<rparr>, Inl e)
      | (r, Inr leases) \<Rightarrow>
        (let s = the_slot st
         in (st\<lparr>the_slot := s\<lparr>completion_reservations := completion_reservations s + length batch,
                 receive_queue := push_all (zip batch leases) (receive_queue s)\<rparr>, the_registry := r\<rparr>, Inr ())))"

definition post_receive_batch :: "QpHandle \<Rightarrow> RecvWorkRequest list \<Rightarrow> 'io RcEndpoint \<Rightarrow> 'io RcEndpoint \<times> (ApiError + usize)" where
  "post_receive_batch h batch ep =
     (if batch = [] then (ep, Inr 0)
      else case qp_index ep h of
        Inl e \<Rightarrow> (ep, Inl e)
      | Inr i \<Rightarrow>
        (case qp_at ep i of
           None \<Rightarrow> (ep, Inl InvalidQpHandle)
         | Some s \<Rightarrow>
           if qp_state (machine s) \<notin> {Rtr, Rts, Sqd, Sqe} then (ep, Inl (QpNotReady (qp_state (machine s))))
           else if length batch > ring_remaining_capacity (receive_queue s) then (ep, Inl (QueueFull Receive_Queue))
           else if length batch > completion_room s then (ep, Inl (QueueFull Completion_Queue))
           else case first_error (validate_receive (ep_memory ep)) batch of
             Inl e \<Rightarrow> (ep, Inl e)
           | Inr _ \<Rightarrow>
             (case on_slot i (Inl InvalidQpHandle) (post_recv_batch batch) ep of
                (ep, Inl e) \<Rightarrow> (ep, Inl e)
              | (ep, Inr _) \<Rightarrow>
                (let stats = ep_stats ep
                 in (ep\<lparr>ep_stats := stats\<lparr>st_posted_receive_requests :=
                       bump_by (length batch) (st_posted_receive_requests stats)\<rparr>\<rparr>, Inr (length batch))))))"

definition pop_completion :: "rc_state \<Rightarrow> rc_state \<times> Completion option" where
  "pop_completion st =
     (let (q, c) = ring_pop (completion_queue (the_slot st))
      in (st\<lparr>the_slot := (the_slot st)\<lparr>completion_queue := q\<rparr>\<rparr>, c))"

definition poll_completion :: "QpHandle \<Rightarrow> 'io RcEndpoint \<Rightarrow> 'io RcEndpoint \<times> (ApiError + Completion option)" where
  "poll_completion h ep =
     (case qp_index ep h of
        Inl e \<Rightarrow> (ep, Inl e)
      | Inr i \<Rightarrow> on_slot i (Inl InvalidQpHandle) (\<lambda>st. let (st, c) = pop_completion st in (st, Inr c)) ep)"

text \<open>\<open>poll_completions\<close> fills the caller's slice; the completions written to it are returned.\<close>

fun pop_completions :: "nat \<Rightarrow> rc_state \<Rightarrow> rc_state \<times> Completion list" where
  "pop_completions 0 st = (st, [])"
| "pop_completions (Suc n) st =
     (case pop_completion st of
        (st, None) \<Rightarrow> (st, [])
      | (st, Some c) \<Rightarrow> (let (st, cs) = pop_completions n st in (st, c # cs)))"

definition poll_completions :: "QpHandle \<Rightarrow> usize \<Rightarrow> 'io RcEndpoint \<Rightarrow> 'io RcEndpoint \<times> (ApiError + Completion list)" where
  "poll_completions h n ep =
     (case qp_index ep h of
        Inl e \<Rightarrow> (ep, Inl e)
      | Inr i \<Rightarrow> on_slot i (Inl InvalidQpHandle) (\<lambda>st. let (st, cs) = pop_completions n st in (st, Inr cs)) ep)"


section \<open>Receiving\<close>

definition validate_poll_buffers :: "octets \<Rightarrow> octets \<Rightarrow> 'io RcEndpoint \<Rightarrow> ApiError + unit" where
  "validate_poll_buffers receive_buffer transmit_buffer ep =
     (let needed = maximum_packet_size (ep_config ep)
      in if length receive_buffer < needed then Inl (ApiError.BufferTooShort needed (length receive_buffer))
         else if length transmit_buffer < needed then Inl (ApiError.BufferTooShort needed (length transmit_buffer))
         else Inr ())"

definition record_invalid_drop :: "'io RcEndpoint \<Rightarrow> 'io RcEndpoint" where
  "record_invalid_drop ep = (let stats = ep_stats ep
     in ep\<lparr>ep_stats := stats\<lparr>st_invalid_packets := bump (st_invalid_packets stats),
          st_dropped_packets := bump (st_dropped_packets stats)\<rparr>\<rparr>)"

definition record_io_error :: "'io RcEndpoint \<Rightarrow> 'io RcEndpoint" where
  "record_io_error ep = (let stats = ep_stats ep in ep\<lparr>ep_stats := stats\<lparr>st_io_errors := bump (st_io_errors stats)\<rparr>\<rparr>)"

definition receive_one :: "('io, 'e) PacketIo \<Rightarrow> octets \<Rightarrow> 'io RcEndpoint \<Rightarrow> 'io RcEndpoint \<times> ('e PollError + ReceiveOne)" where
  "receive_one ops buffer ep =
     (let (io, buffer, res) = receive_ipv4 ops buffer (ep_io ep); ep = ep\<lparr>ep_io := io\<rparr>
      in case res of
           Inl e \<Rightarrow> (record_io_error ep, Inl (Io e))
         | Inr None \<Rightarrow> (ep, Inr Rx_Empty)
         | Inr (Some n) \<Rightarrow>
             if n > length buffer then (ep, Inl (Api PacketIoContractViolation))
             else if n > maximum_packet_size (ep_config ep) then (record_invalid_drop ep, Inr Rx_Dropped)
             else case decode_ipv4_packet (take n buffer) of
               Inl _ \<Rightarrow> (record_invalid_drop ep, Inr Rx_Dropped)
             | Inr decoded \<Rightarrow>
                 (let stats = ep_stats ep
                  in (ep\<lparr>ep_stats := stats\<lparr>st_receive_packets := bump (st_receive_packets stats),
                        st_receive_bytes := bump_by n (st_receive_bytes stats)\<rparr>\<rparr>, Inr (Rx_Packet decoded))))"

definition handle_packet :: "u64 \<Rightarrow> u64 \<Rightarrow> PacketRef \<Rightarrow> rc_state \<Rightarrow> rc_state \<times> HandlerResult" where
  "handle_packet now tps packet st =
     (if is_request (opcode (pr_bth packet)) then handle_request_packet packet st
      else handle_response_packet packet now tps st)"

definition process_incoming_state :: "u64 \<Rightarrow> DecodedPacket \<Rightarrow> 'io RcEndpoint \<Rightarrow> 'io RcEndpoint \<times> (ApiError + usize \<times> HandlerResult)" where
  "process_incoming_state now decoded ep =
     (let qpn = destination_qpn (pr_bth (dp_transport decoded)); stats = ep_stats ep;
          stats = stats\<lparr>st_dropped_packets := bump (st_dropped_packets stats)\<rparr>
      in case qpn_slot (ep_qpn_index ep) qpn of
           None \<Rightarrow> (ep\<lparr>ep_stats := stats\<lparr>st_unknown_qp_packets := bump (st_unknown_qp_packets stats)\<rparr>\<rparr>,
                   Inl (UnknownDestinationQpn qpn))
         | Some i \<Rightarrow>
           (case qp_at ep i of
              None \<Rightarrow> (ep, Inl InvalidQpHandle)
            | Some s \<Rightarrow>
              if ip_source (dp_ipv4 decoded) \<noteq> path_destination (qs_path s) \<or>
                 ip_destination (dp_ipv4 decoded) \<noteq> path_source (qs_path s)
              then (ep\<lparr>ep_stats := stats\<lparr>st_peer_mismatch_packets := bump (st_peer_mismatch_packets stats)\<rparr>\<rparr>,
                    Inl (PeerAddressMismatch (ip_source (dp_ipv4 decoded)) (ip_destination (dp_ipv4 decoded))))
              else if \<not> can_receive (machine s)
              then (ep\<lparr>ep_stats := stats\<lparr>st_qp_not_ready_packets := bump (st_qp_not_ready_packets stats)\<rparr>\<rparr>,
                    Inl (QpNotReady (qp_state (machine s))))
              else
                (let (ep, res) = on_slot i handler_default
                       (handle_packet now (ticks_per_second (ep_config ep)) (dp_transport decoded)) ep
                 in (ep, Inr (i, res)))))"

definition process_incoming :: "u64 \<Rightarrow> DecodedPacket \<Rightarrow> 'io RcEndpoint \<Rightarrow> 'io RcEndpoint \<times> (ApiError + HandlerResult option)" where
  "process_incoming now decoded ep =
     (case process_incoming_state now decoded ep of
        (ep, Inr (i, res)) \<Rightarrow> (count_completions (hr_completions res) (synchronize_qp i ep), Inr (Some res))
      | (ep, Inl (UnknownDestinationQpn _)) \<Rightarrow> (ep, Inr None)
      | (ep, Inl (PeerAddressMismatch _ _)) \<Rightarrow> (ep, Inr None)
      | (ep, Inl (QpNotReady _)) \<Rightarrow> (ep, Inr None)
      | (ep, Inl e) \<Rightarrow> (ep, Inl e))"

section \<open>Transmitting\<close>

definition transmit_packet ::
  "('io, 'e) PacketIo \<Rightarrow> Ipv4Path \<Rightarrow> PacketSpec \<Rightarrow> octets \<Rightarrow> 'io RcEndpoint \<Rightarrow> 'io RcEndpoint \<times> ('e PollError + usize)" where
  "transmit_packet ops path spec output ep =
     (case encode_ipv4_packet path spec output of
        Inl e \<Rightarrow> (ep, Inl (Api e))
      | Inr (output, n) \<Rightarrow>
        if n > maximum_packet_size (ep_config ep) then (ep, Inl (Api (PacketTooLarge n (maximum_packet_size (ep_config ep)))))
        else case transmit_ipv4 ops (take n output) (ep_io ep) of
          (io, Inl e) \<Rightarrow> (record_io_error (ep\<lparr>ep_io := io\<rparr>), Inl (Io e))
        | (io, Inr _) \<Rightarrow>
            (let stats = ep_stats ep
             in (ep\<lparr>ep_io := io, ep_stats := stats\<lparr>st_transmit_packets := bump (st_transmit_packets stats),
                   st_transmit_bytes := bump_by n (st_transmit_bytes stats)\<rparr>\<rparr>, Inr n)))"

definition record_control_transmit :: "ControlReply \<Rightarrow> 'io RcEndpoint \<Rightarrow> 'io RcEndpoint" where
  "record_control_transmit reply ep = (let stats = ep_stats ep
     in ep\<lparr>ep_stats := (case aeth_class (cr_aeth reply) of
          AckClass _ \<Rightarrow> stats\<lparr>st_acknowledgements := bump (st_acknowledgements stats)\<rparr>
        | RnrNak _ \<Rightarrow> stats\<lparr>st_rnr_naks := bump (st_rnr_naks stats)\<rparr>
        | _ \<Rightarrow> stats\<lparr>st_negative_acknowledgements := bump (st_negative_acknowledgements stats)\<rparr>)\<rparr>)"

definition transmit_control :: "('io, 'e) PacketIo \<Rightarrow> ControlReply \<Rightarrow> octets \<Rightarrow> 'io RcEndpoint \<Rightarrow> 'io RcEndpoint \<times> ('e PollError + unit)" where
  "transmit_control ops reply output ep =
     (case transmit_packet ops (cr_path reply) (control_packet reply) output ep of
        (ep, Inl e) \<Rightarrow> (ep, Inl e)
      | (ep, Inr _) \<Rightarrow> (record_control_transmit reply ep, Inr ()))"

definition transmit_pending_control :: "('io, 'e) PacketIo \<Rightarrow> octets \<Rightarrow> 'io RcEndpoint \<Rightarrow> 'io RcEndpoint \<times> ('e PollError + bool)" where
  "transmit_pending_control ops output ep =
     (case ring_front (pending_control ep) of
        None \<Rightarrow> (ep, Inr False)
      | Some reply \<Rightarrow>
        (case transmit_control ops reply output ep of
           (ep, Inl e) \<Rightarrow> (ep, Inl e)
         | (ep, Inr _) \<Rightarrow> (ep\<lparr>pending_control := fst (ring_pop (pending_control ep))\<rparr>, Inr True)))"

section \<open>Timers\<close>

fun timer_action :: "RequestPhase \<Rightarrow> rc_state \<Rightarrow> rc_state \<times> usize \<times> usize" where
  "timer_action Waiting st =
     (let stats = the_stats st;
          (st, retry) = schedule_transport_retry (st\<lparr>the_stats := stats\<lparr>st_timeout_events := bump (st_timeout_events stats)\<rparr>\<rparr>)
      in (st, hr_completions retry, hr_retransmissions retry))"
| "timer_action RnrWait st =
     (case active_request (the_slot st) of
        None \<Rightarrow> (st, 0, 0)
      | Some active \<Rightarrow>
          (let stats = the_stats st
           in (st\<lparr>the_slot := (the_slot st)\<lparr>active_request := Some (reset_for_retry active)\<rparr>,
                  the_stats := stats\<lparr>st_retransmissions := bump (st_retransmissions stats)\<rparr>\<rparr>, 0, 1)))"
| "timer_action Sending st =
     (st\<lparr>the_slot := (the_slot st)\<lparr>active_request :=
        map_option (\<lambda>active. active\<lparr>ar_timer := timer_cancel (ar_timer active)\<rparr>) (active_request (the_slot st))\<rparr>\<rparr>, 0, 0)"

definition expired_phase :: "u64 \<Rightarrow> TimerEntry \<Rightarrow> RcQpSlot \<Rightarrow> RequestPhase option" where
  "expired_phase now entry s =
     (if qs_generation s \<noteq> te_generation entry \<or> timer_sequence s \<noteq> te_sequence entry then None
      else Option.bind (active_request s) (\<lambda>active.
        if timer_deadline s \<noteq> Some (te_deadline entry) \<or> \<not> timer_expired (ar_timer active) now then None
        else Some (phase active)))"

definition service_timer :: "u64 \<Rightarrow> TimerEntry \<Rightarrow> 'io RcEndpoint \<Rightarrow> 'io RcEndpoint \<times> (usize \<times> usize) option" where
  "service_timer now entry ep =
     (let i = unat (te_slot entry)
      in case Option.bind (qp_at ep i) (expired_phase now entry) of
           None \<Rightarrow> (synchronize_qp i ep, None)
         | Some action \<Rightarrow>
             (let (ep, res) = on_slot i None (\<lambda>st. let (st, x) = timer_action action st in (st, Some x)) ep
              in (synchronize_qp i ep, res)))"

partial_function (option) service_timers_loop ::
  "u64 \<Rightarrow> nat \<Rightarrow> usize \<times> usize \<Rightarrow> 'io RcEndpoint \<Rightarrow> ('io RcEndpoint \<times> usize \<times> usize) option" where
  "service_timers_loop now budget counts ep =
     (if budget = 0 then Some (ep, counts)
      else case pop_expired (timer_scheduler ep) now of
        (timers, None) \<Rightarrow> Some (ep\<lparr>timer_scheduler := timers\<rparr>, counts)
      | (timers, Some entry) \<Rightarrow>
        (case service_timer now entry (ep\<lparr>timer_scheduler := timers\<rparr>) of
           (ep, None) \<Rightarrow> service_timers_loop now budget counts ep
         | (ep, Some (completions, retransmissions)) \<Rightarrow>
             service_timers_loop now (budget - 1) (fst counts + completions, snd counts + retransmissions) ep))"

definition service_timers :: "u64 \<Rightarrow> nat \<Rightarrow> 'io RcEndpoint \<Rightarrow> ('io RcEndpoint \<times> usize \<times> usize) option" where
  "service_timers now budget ep =
     map_option (\<lambda>(ep, counts). (count_completions (fst counts) ep, counts)) (service_timers_loop now budget (0, 0) ep)"


section \<open>READ responses\<close>

definition ready_read_response :: "usize \<Rightarrow> RcQpSlot \<Rightarrow> ReadyReadResponse option" where
  "ready_read_response i s =
     Option.bind (read_response s) (\<lambda>response.
       if responder_is_runnable s
       then Some \<lparr>rd_index = i, rd_path = qs_path s, rd_remote_qpn = remote_qpn (qp_config (machine s)),
              rd_response = response, rd_msn = message_sequence_number s, rd_mtu = slot_mtu s\<rparr>
       else None)"

partial_function (option) dequeue_read_response :: "'io RcEndpoint \<Rightarrow> ('io RcEndpoint \<times> ReadyReadResponse option) option" where
  "dequeue_read_response ep =
     (case ready_pop (responder_ready ep) of
        (q, None) \<Rightarrow> Some (ep\<lparr>responder_ready := q\<rparr>, None)
      | (q, Some i) \<Rightarrow>
        (case on_slot i None (\<lambda>st. let s = (the_slot st)\<lparr>responder_scheduled := False\<rparr>
                 in (st\<lparr>the_slot := s\<rparr>, ready_read_response i s)) (ep\<lparr>responder_ready := q\<rparr>) of
           (ep, Some ready) \<Rightarrow> Some (ep, Some ready)
         | (ep, None) \<Rightarrow> dequeue_read_response (synchronize_qp i ep)))"

definition fail_read_responder :: "usize \<Rightarrow> 'io RcEndpoint \<Rightarrow> 'io RcEndpoint \<times> EmitResult" where
  "fail_read_responder i ep =
     (let (ep, n) = on_slot i 0 enter_error ep
      in (count_completions n (synchronize_qp i ep), \<lparr>er_transmitted = False, er_completions = n\<rparr>))"

definition advance_read_slot :: "rc_state \<Rightarrow> rc_state" where
  "advance_read_slot st =
     (case read_response (the_slot st) of
        None \<Rightarrow> st
      | Some active \<Rightarrow>
        (let active = active\<lparr>rr_next_packet := rr_next_packet active + 1\<rparr>
         in if rr_next_packet active = rr_packet_count active
            then release_read (st\<lparr>the_slot := (the_slot st)\<lparr>read_response := None\<rparr>\<rparr>)
            else st\<lparr>the_slot := (the_slot st)\<lparr>read_response := Some active\<rparr>\<rparr>))"

definition advance_read_response :: "usize \<Rightarrow> 'io RcEndpoint \<Rightarrow> 'io RcEndpoint \<times> (ApiError + unit)" where
  "advance_read_response i ep =
     (case on_slot i (Inl InvalidQpHandle) (\<lambda>st. (advance_read_slot st, Inr ())) ep of
        (ep, Inl e) \<Rightarrow> (ep, Inl e)
      | (ep, Inr _) \<Rightarrow> (synchronize_qp i ep, Inr ()))"

definition read_response_packet :: "ReadyReadResponse \<Rightarrow> octets \<Rightarrow> PacketSpec" where
  "read_response_packet ready payload =
     (let response = rd_response ready;
          opc = segmented_opcode Dir_ReadResponse (rr_next_packet response) (rr_packet_count response)
      in \<lparr>ps_bth = bth_new opc (rd_remote_qpn ready)
            (psn_value (wrapping_add (rr_request_psn response) (rr_next_packet response))),
          ps_reth = None, ps_aeth = (if has_aeth opc then Some (aeth_ack (psn_value (rd_msn ready))) else None),
          ps_immediate = None, ps_payload = payload\<rparr>)"

definition emit_ready_response ::
  "('io, 'e) PacketIo \<Rightarrow> octets \<Rightarrow> ReadyReadResponse \<Rightarrow> 'io RcEndpoint \<Rightarrow> 'io RcEndpoint \<times> ('e PollError + EmitResult)" where
  "emit_ready_response ops output ready ep =
     (case read_response_segment (rd_response ready) (rd_mtu ready) of
        Inl e \<Rightarrow> (synchronize_qp (rd_index ready) ep, Inl (Api e))
      | Inr (address, payload_length) \<Rightarrow>
        (case read_remote (ep_memory ep) (ep_store ep) (rr_rkey (rd_response ready)) address payload_length of
           Inl _ \<Rightarrow> (let (ep, res) = fail_read_responder (rd_index ready) ep in (ep, Inr res))
         | Inr payload \<Rightarrow>
           (case transmit_packet ops (rd_path ready) (read_response_packet ready payload) output ep of
              (ep, Inl e) \<Rightarrow> (synchronize_qp (rd_index ready) ep, Inl e)
            | (ep, Inr _) \<Rightarrow>
              (case advance_read_response (rd_index ready) ep of
                 (ep, Inl e) \<Rightarrow> (ep, Inl (Api e))
               | (ep, Inr _) \<Rightarrow> (ep, Inr \<lparr>er_transmitted = True, er_completions = 0\<rparr>)))))"

definition emit_read_response ::
  "('io, 'e) PacketIo \<Rightarrow> octets \<Rightarrow> 'io RcEndpoint \<Rightarrow> ('io RcEndpoint \<times> ('e PollError + EmitResult)) option" where
  "emit_read_response ops output ep =
     map_option (\<lambda>(ep, ready). case ready of
         None \<Rightarrow> (ep, Inr \<lparr>er_transmitted = False, er_completions = 0\<rparr>)
       | Some ready \<Rightarrow> emit_ready_response ops output ready ep) (dequeue_read_response ep)"

section \<open>Requests\<close>

text \<open>One turn of the loop of \<open>emit_requester\<close>: it returns (\<open>Inl\<close>) or goes on (\<open>Inr\<close>).\<close>

definition emit_request_packet ::
  "('io, 'e) PacketIo \<Rightarrow> u64 \<Rightarrow> octets \<Rightarrow> usize \<Rightarrow> ActiveRequest \<Rightarrow> RcQpSlot \<Rightarrow> usize \<Rightarrow> 'io RcEndpoint
     \<Rightarrow> 'io RcEndpoint \<times> (('e PollError + EmitResult) + usize)" where
  "emit_request_packet ops now output i active s generated ep =
     (let config = qp_config (machine s) in
      case ack_timeout_ticks (timeout config) (ticks_per_second (ep_config ep)) of
        None \<Rightarrow> (ep, Inl (Inl (Api InvalidTicksPerSecond)))
      | Some ticks \<Rightarrow>
        (case build_request_packet (ep_memory ep) (ep_store ep) active (mtu_bytes (path_mtu config)) (remote_qpn config) of
           Inl PacketOverflow \<Rightarrow>
             (count_completions generated (synchronize_qp i ep), Inl (Inl (Api ArithmeticOverflow)))
         | Inl LocalProtection \<Rightarrow>
             (case on_slot i None (\<lambda>st. let (st, n) = fail_active_and_error LocalProtectionError st in (st, Some n)) ep of
                (ep, None) \<Rightarrow> (ep, Inl (Inl (Api InvalidQpHandle)))
              | (ep, Some n) \<Rightarrow> (synchronize_qp i ep, Inr (generated + n)))
         | Inr spec \<Rightarrow>
             (case transmit_packet ops (qs_path s) spec output ep of
                (ep, Inl e) \<Rightarrow> (count_completions generated (synchronize_qp i ep), Inl (Inl e))
              | (ep, Inr _) \<Rightarrow>
                (case on_slot i None (\<lambda>st. (st\<lparr>the_slot := mark_request_packet_sent now ticks (the_slot st)\<rparr>, Some ())) ep of
                   (ep, None) \<Rightarrow> (ep, Inl (Inl (Api InvalidQpHandle)))
                 | (ep, Some _) \<Rightarrow>
                     (count_completions generated (synchronize_qp i ep),
                      Inl (Inr \<lparr>er_transmitted = True, er_completions = generated\<rparr>))))))"

definition emit_requester_step ::
  "('io, 'e) PacketIo \<Rightarrow> u64 \<Rightarrow> octets \<Rightarrow> usize \<Rightarrow> usize \<Rightarrow> 'io RcEndpoint
     \<Rightarrow> 'io RcEndpoint \<times> (('e PollError + EmitResult) + usize)" where
  "emit_requester_step ops now output i generated ep =
     (case qp_at ep i of
        None \<Rightarrow> (ep, Inr generated)
      | Some s \<Rightarrow>
        (let s = start_next_request (ticks_per_second (ep_config ep)) (s\<lparr>requester_scheduled := False\<rparr>);
             ep = set_qp i (Some s) ep
         in case active_request s of
              None \<Rightarrow> (synchronize_qp i ep, Inr generated)
            | Some active \<Rightarrow>
                if phase active \<noteq> Sending then (synchronize_qp i ep, Inr generated)
                else emit_request_packet ops now output i active s generated ep))"

partial_function (option) emit_requester_loop ::
  "('io, 'e) PacketIo \<Rightarrow> u64 \<Rightarrow> octets \<Rightarrow> usize \<Rightarrow> 'io RcEndpoint
     \<Rightarrow> ('io RcEndpoint \<times> ('e PollError + EmitResult)) option" where
  "emit_requester_loop ops now output generated ep =
     (case ready_pop (requester_ready ep) of
        (q, None) \<Rightarrow>
          Some (count_completions generated (ep\<lparr>requester_ready := q\<rparr>),
                Inr \<lparr>er_transmitted = False, er_completions = generated\<rparr>)
      | (q, Some i) \<Rightarrow>
        (case emit_requester_step ops now output i generated (ep\<lparr>requester_ready := q\<rparr>) of
           (ep, Inl res) \<Rightarrow> Some (ep, res)
         | (ep, Inr generated) \<Rightarrow> emit_requester_loop ops now output generated ep))"

definition emit_requester ::
  "('io, 'e) PacketIo \<Rightarrow> u64 \<Rightarrow> octets \<Rightarrow> 'io RcEndpoint \<Rightarrow> ('io RcEndpoint \<times> ('e PollError + EmitResult)) option" where
  "emit_requester ops now output = emit_requester_loop ops now output 0"

section \<open>Progress\<close>

fun emit_data_class ::
  "('io, 'e) PacketIo \<Rightarrow> DataTxClass \<Rightarrow> u64 \<Rightarrow> octets \<Rightarrow> 'io RcEndpoint \<Rightarrow> ('io RcEndpoint \<times> ('e PollError + EmitResult)) option" where
  "emit_data_class ops Requester_Class now output ep = emit_requester ops now output ep"
| "emit_data_class ops Responder_Class now output ep = emit_read_response ops output ep"

definition emit_data_packet ::
  "('io, 'e) PacketIo \<Rightarrow> u64 \<Rightarrow> octets \<Rightarrow> 'io RcEndpoint \<Rightarrow> ('io RcEndpoint \<times> ('e PollError + EmitResult)) option" where
  "emit_data_packet ops now output ep =
     (let preferred = next_data_tx_class ep; fallback = other_class preferred in
      case emit_data_class ops preferred now output ep of
        None \<Rightarrow> None
      | Some (ep, Inl e) \<Rightarrow> Some (ep, Inl e)
      | Some (ep, Inr res) \<Rightarrow>
        if er_transmitted res then Some (ep\<lparr>next_data_tx_class := fallback\<rparr>, Inr res)
        else (case emit_data_class ops fallback now output ep of
           None \<Rightarrow> None
         | Some (ep, Inl e) \<Rightarrow> Some (ep, Inl e)
         | Some (ep, Inr res2) \<Rightarrow>
             Some (if er_transmitted res2 then ep\<lparr>next_data_tx_class := preferred\<rparr> else ep,
                   Inr \<lparr>er_transmitted = er_transmitted res2, er_completions = min usize_max (er_completions res + er_completions res2)\<rparr>)))"

definition progress_emit ::
  "('io, 'e) PacketIo \<Rightarrow> u64 \<Rightarrow> octets \<Rightarrow> RcProgress \<Rightarrow> 'io RcEndpoint \<Rightarrow> ('io RcEndpoint \<times> ('e PollError + RcProgress)) option" where
  "progress_emit ops now output progress ep =
     map_option (\<lambda>(ep, res). (ep, case res of
         Inl e \<Rightarrow> Inl e
       | Inr data \<Rightarrow>
           (let progress = progress\<lparr>pg_completions := pg_completions progress + er_completions data\<rparr>
            in Inr (if er_transmitted data then progress\<lparr>pg_transmitted := 1\<rparr> else progress))))
       (emit_data_packet ops now output ep)"

definition progress_receive ::
  "('io, 'e) PacketIo \<Rightarrow> u64 \<Rightarrow> DecodedPacket \<Rightarrow> octets \<Rightarrow> RcProgress \<Rightarrow> 'io RcEndpoint
     \<Rightarrow> ('io RcEndpoint \<times> ('e PollError + RcProgress)) option" where
  "progress_receive ops now decoded output progress ep =
     (case process_incoming now decoded ep of
        (ep, Inl e) \<Rightarrow> Some (ep, Inl (Api e))
      | (ep, Inr None) \<Rightarrow> progress_emit ops now output progress ep
      | (ep, Inr (Some res)) \<Rightarrow>
        (let progress = progress\<lparr>pg_completions := pg_completions progress + hr_completions res,
                          pg_retransmissions := pg_retransmissions progress + hr_retransmissions res\<rparr>
         in case hr_reply res of
              None \<Rightarrow> progress_emit ops now output progress ep
            | Some reply \<Rightarrow>
              (case transmit_pending_control ops output (ep\<lparr>pending_control := fst (ring_push (pending_control ep) reply)\<rparr>) of
                 (ep, Inl e) \<Rightarrow> Some (ep, Inl e)
               | (ep, Inr True) \<Rightarrow> Some (ep, Inr (progress\<lparr>pg_transmitted := 1\<rparr>))
               | (ep, Inr False) \<Rightarrow> progress_emit ops now output progress ep)))"

definition rc_progress ::
  "('io, 'e) PacketIo \<Rightarrow> u64 \<Rightarrow> octets \<Rightarrow> octets \<Rightarrow> 'io RcEndpoint \<Rightarrow> ('io RcEndpoint \<times> ('e PollError + RcProgress)) option" where
  "rc_progress ops now receive_buffer transmit_buffer ep =
     (case validate_poll_buffers receive_buffer transmit_buffer ep of
        Inl e \<Rightarrow> Some (ep, Inl (Api e))
      | Inr _ \<Rightarrow>
        (case service_timers now 1 ep of
           None \<Rightarrow> None
         | Some (ep, completions, retransmissions) \<Rightarrow>
           (let progress = progress_default\<lparr>pg_completions := completions, pg_retransmissions := retransmissions\<rparr>
            in case transmit_pending_control ops transmit_buffer ep of
                 (ep, Inl e) \<Rightarrow> Some (ep, Inl e)
               | (ep, Inr True) \<Rightarrow> Some (ep, Inr (progress\<lparr>pg_transmitted := 1\<rparr>))
               | (ep, Inr False) \<Rightarrow>
                 (case receive_one ops receive_buffer ep of
                    (ep, Inl e) \<Rightarrow> Some (ep, Inl e)
                  | (ep, Inr Rx_Empty) \<Rightarrow> progress_emit ops now transmit_buffer progress ep
                  | (ep, Inr Rx_Dropped) \<Rightarrow> progress_emit ops now transmit_buffer (progress\<lparr>pg_received := 1\<rparr>) ep
                  | (ep, Inr (Rx_Packet decoded)) \<Rightarrow>
                      progress_receive ops now decoded transmit_buffer (progress\<lparr>pg_received := 1\<rparr>) ep))))"

end
