(* ===== verification/Rc_Accounts.thy ===== *)
theory Rc_Accounts
  imports Rc_Endpoint
begin

text \<open>
  The books of an endpoint.  A ledger per queue pair records the work the endpoint accepted
  and the completions it handed out; the invariant says that the registry's leases are
  exactly those the queue pairs hold, that every queue pair satisfies the engine's invariant,
  and that each accepted work request is either still outstanding or completed, once.  Every
  operation of the endpoint keeps it, whatever the packet backend does; \<open>Rc_Run\<close> draws the
  conclusion for whole runs.
\<close>

section \<open>Ledgers\<close>

record ledger =
  posted_sends :: "WorkRequest multiset"
  posted_recvs :: "RecvWorkRequest multiset"
  polled :: "Completion list"

definition ledger_new :: ledger where
  "ledger_new = \<lparr>posted_sends = {#}, posted_recvs = {#}, polled = []\<rparr>"

definition settled :: "ledger \<Rightarrow> RcQpSlot \<Rightarrow> bool" where
  "settled l s \<longleftrightarrow> (\<exists>W R silent. posted_sends l = works s + W + silent \<and> posted_recvs l = receives s + R \<and>
     image_mset completion_id (mset (polled l @ ring_list (completion_queue s))) = image_mset work_id W + image_mset recv_key R \<and>
     (\<forall>w \<in># silent. \<not> wr_signaled w))"

lemma settled_books:
  assumes "settled l s" "rc_books {#} s {#} s' cs"
  shows "settled l s'"
proof -
  obtain W R z where 1: "posted_sends l = works s + W + z" "posted_recvs l = receives s + R" "\<forall>w \<in># z. \<not> wr_signaled w"
    "image_mset completion_id (mset (polled l @ ring_list (completion_queue s))) = image_mset work_id W + image_mset recv_key R"
    using assms(1) by (auto simp: settled_def)
  obtain W' R' z' where 2: "works s = works s' + W' + z'" "receives s = receives s' + R'" "\<forall>w \<in># z'. \<not> wr_signaled w"
    "ring_list (completion_queue s') = ring_list (completion_queue s) @ cs"
    "image_mset completion_id (mset cs) = image_mset work_id W' + image_mset recv_key R'"
    using assms(2) by (auto simp: rc_books_def)
  have "posted_sends l = works s' + (W + W') + (z + z')" "posted_recvs l = receives s' + (R + R')"
    "\<forall>w \<in># z + z'. \<not> wr_signaled w" using 1(1-3) 2(1-3) by (auto simp: ac_simps)
  moreover have "image_mset completion_id (mset (polled l @ ring_list (completion_queue s'))) =
      image_mset work_id (W + W') + image_mset recv_key (R + R')"
    using 1(4) 2(5) by (simp add: 2(4) ac_simps)
  ultimately show ?thesis unfolding settled_def by blast
qed

lemma settled_cong:
  "works s' = works s \<Longrightarrow> receives s' = receives s \<Longrightarrow> ring_list (completion_queue s') = ring_list (completion_queue s) \<Longrightarrow>
   settled l s' = settled l s"
  by (simp add: settled_def)

section \<open>The invariant\<close>

definition qp_leases :: "RcQpSlot option \<Rightarrow> RegionLease multiset" where
  "qp_leases x = (case x of None \<Rightarrow> {#} | Some s \<Rightarrow> slot_leases s)"

definition ep_leases :: "'io RcEndpoint \<Rightarrow> RegionLease multiset" where
  "ep_leases ep = sum_list (map qp_leases (ep_qps ep))"

definition accounts :: "(nat \<Rightarrow> ledger) \<Rightarrow> 'io RcEndpoint \<Rightarrow> bool" where
  "accounts L ep \<longleftrightarrow> registry_inv (ep_memory ep) \<and> leased (ep_memory ep) (ep_leases ep) \<and>
     (\<forall>i s. qp_at ep i = Some s \<longrightarrow> slot_inv s \<and> settled (L i) s)"

lemma sum_list_update_add:
  fixes f :: "'a \<Rightarrow> 'b multiset"
  assumes "i < length xs"
  shows "sum_list (map f (xs[i := y])) + f (xs ! i) = sum_list (map f xs) + f y"
  using assms
proof (induction xs arbitrary: i)
  case (Cons x xs)
  then show ?case by (cases i) (auto simp: ac_simps)
qed simp

lemma qp_at_set_qp [simp]: "qp_at (set_qp i x ep) j = (if j = i \<and> i < length (ep_qps ep) then x else qp_at ep j)"
  by (auto simp: qp_at_def set_qp_def nth_list_update)

lemma qp_at_bound: "qp_at ep i = Some s \<Longrightarrow> i < length (ep_qps ep) \<and> ep_qps ep ! i = Some s"
  by (simp add: qp_at_def split: if_splits)

lemma set_qp_fields [simp]:
  "ep_memory (set_qp i x ep) = ep_memory ep" "ep_stats (set_qp i x ep) = ep_stats ep" "ep_io (set_qp i x ep) = ep_io ep"
  "ep_config (set_qp i x ep) = ep_config ep" "ep_store (set_qp i x ep) = ep_store ep"
  "requester_ready (set_qp i x ep) = requester_ready ep" "responder_ready (set_qp i x ep) = responder_ready ep"
  "timer_scheduler (set_qp i x ep) = timer_scheduler ep" "ep_qpn_index (set_qp i x ep) = ep_qpn_index ep"
  "ep_generations (set_qp i x ep) = ep_generations ep" "pending_control (set_qp i x ep) = pending_control ep"
  "length (ep_qps (set_qp i x ep)) = length (ep_qps ep)"
  by (simp_all add: set_qp_def)

lemma qp_at_fields [simp]:
  "qp_at (ep\<lparr>requester_ready := a\<rparr>) = qp_at ep" "qp_at (ep\<lparr>responder_ready := b\<rparr>) = qp_at ep"
  "qp_at (ep\<lparr>timer_scheduler := c\<rparr>) = qp_at ep" "qp_at (ep\<lparr>ep_stats := d\<rparr>) = qp_at ep"
  "qp_at (ep\<lparr>ep_io := io\<rparr>) = qp_at ep" "qp_at (ep\<lparr>ep_store := mem\<rparr>) = qp_at ep"
  "qp_at (ep\<lparr>ep_qpn_index := e\<rparr>) = qp_at ep" "qp_at (ep\<lparr>ep_generations := g\<rparr>) = qp_at ep"
  "qp_at (ep\<lparr>pending_control := h\<rparr>) = qp_at ep" "qp_at (ep\<lparr>next_data_tx_class := k\<rparr>) = qp_at ep"
  "qp_at (ep\<lparr>ep_memory := r\<rparr>) = qp_at ep"
  by (simp_all add: fun_eq_iff qp_at_def)

text \<open>The leases of the other queue pairs are the frame of a step on one of them.\<close>

lemma ep_leases_set:
  assumes "i < length (ep_qps ep)"
  shows "\<exists>others. ep_leases ep = qp_leases (ep_qps ep ! i) + others \<and> (\<forall>x. ep_leases (set_qp i x ep) = qp_leases x + others)"
proof -
  let ?A = "qp_leases (ep_qps ep ! i)"
  have set: "ep_leases (set_qp i x ep) + ?A = ep_leases ep + qp_leases x" for x
    using sum_list_update_add [OF assms, of qp_leases x] by (simp add: ep_leases_def set_qp_def)
  have none: "ep_leases ep = ep_leases (set_qp i None ep) + ?A" using set [of None] by (simp add: qp_leases_def [of None])
  have "ep_leases (set_qp i x ep) = qp_leases x + ep_leases (set_qp i None ep)" for x
  proof -
    have "ep_leases (set_qp i x ep) + ?A = (qp_leases x + ep_leases (set_qp i None ep)) + ?A"
      unfolding set by (subst none) (simp add: ac_simps)
    then show ?thesis by (rule add_right_imp_eq)
  qed
  moreover have "ep_leases ep = ?A + ep_leases (set_qp i None ep)" by (subst none) (simp add: ac_simps)
  ultimately show ?thesis by blast
qed

lemma accounts_slot:
  assumes "accounts L ep" "qp_at ep i = Some s"
  obtains others where "slot_inv s" "settled (L i) s" "registry_inv (ep_memory ep)"
    "leased (ep_memory ep) (slot_leases s + others)"
    "\<And>s' r l. slot_inv s' \<Longrightarrow> settled l s' \<Longrightarrow> registry_inv r \<Longrightarrow> leased r (slot_leases s' + others) \<Longrightarrow>
       accounts (L(i := l)) ((set_qp i (Some s') ep)\<lparr>ep_memory := r\<rparr>)"
proof -
  obtain others where o: "ep_leases ep = slot_leases s + others" "\<And>x. ep_leases (set_qp i x ep) = qp_leases x + others"
    using ep_leases_set [of i ep] qp_at_bound [OF assms(2)] by (auto simp: qp_leases_def)
  show thesis
  proof (rule that)
    show "slot_inv s" "settled (L i) s" "registry_inv (ep_memory ep)" "leased (ep_memory ep) (slot_leases s + others)"
      using assms o(1) by (auto simp: accounts_def)
    fix s' r l assume n: "slot_inv s'" "settled l s'" "registry_inv r" "leased r (slot_leases s' + others)"
    have "ep_leases ((set_qp i (Some s') ep)\<lparr>ep_memory := r\<rparr>) = slot_leases s' + others"
      using o(2) [of "Some s'"] by (simp add: ep_leases_def qp_leases_def)
    then show "accounts (L(i := l)) ((set_qp i (Some s') ep)\<lparr>ep_memory := r\<rparr>)"
      using assms n qp_at_bound [OF assms(2)] by (auto simp: accounts_def)
  qed
qed

text \<open>Fields that are not part of the books.\<close>

lemma accounts_frame:
  "ep_memory ep' = ep_memory ep \<Longrightarrow> ep_qps ep' = ep_qps ep \<Longrightarrow> accounts L ep' = accounts L ep"
  by (simp add: accounts_def ep_leases_def qp_at_def)

lemma accounts_fields [simp]:
  "accounts L (ep\<lparr>requester_ready := a\<rparr>) = accounts L ep" "accounts L (ep\<lparr>responder_ready := b\<rparr>) = accounts L ep"
  "accounts L (ep\<lparr>timer_scheduler := c\<rparr>) = accounts L ep" "accounts L (ep\<lparr>ep_stats := d\<rparr>) = accounts L ep"
  "accounts L (ep\<lparr>ep_io := io\<rparr>) = accounts L ep" "accounts L (ep\<lparr>ep_store := mem\<rparr>) = accounts L ep"
  "accounts L (ep\<lparr>ep_qpn_index := e\<rparr>) = accounts L ep" "accounts L (ep\<lparr>ep_generations := g\<rparr>) = accounts L ep"
  "accounts L (ep\<lparr>pending_control := h\<rparr>) = accounts L ep" "accounts L (ep\<lparr>next_data_tx_class := k\<rparr>) = accounts L ep"
  by (rule accounts_frame; simp)+

definition keeps :: "(rc_state \<Rightarrow> rc_state \<times> 'r) \<Rightarrow> bool" where
  "keeps f \<longleftrightarrow> (\<forall>others st. rc_inv others st \<longrightarrow> rc_inv others (fst (f st)) \<and>
     (\<exists>cs. rc_books {#} (the_slot st) {#} (the_slot (fst (f st))) cs))"

lemma keepsI: "(\<And>others st st' x. f st = (st', x) \<Longrightarrow> \<exists>n. rc_keeps others st st' n) \<Longrightarrow> keeps f"
  unfolding keeps_def rc_keeps_def by (metis prod.collapse)

definition borrowed :: "RcQpSlot \<Rightarrow> 'io RcEndpoint \<Rightarrow> rc_state" where
  "borrowed s ep = \<lparr>the_slot = s, the_registry = ep_memory ep, the_store = ep_store ep, the_stats = ep_stats ep\<rparr>"

lemma the_slot_borrowed [simp]: "the_slot (borrowed s ep) = s"
  by (simp add: borrowed_def)

lemma on_slot_ledger:
  assumes acc: "accounts L ep" and s: "qp_at ep i = Some s"
    and step: "\<And>others. rc_inv others (borrowed s ep) \<Longrightarrow> settled (L i) s \<Longrightarrow>
      rc_inv others (fst (f (borrowed s ep))) \<and> settled l (the_slot (fst (f (borrowed s ep))))"
  shows "accounts (L(i := l)) (fst (on_slot i x f ep))"
proof -
  obtain st' y where f: "f (borrowed s ep) = (st', y)" by fastforce
  obtain others where o: "slot_inv s" "settled (L i) s" "registry_inv (ep_memory ep)"
    "leased (ep_memory ep) (slot_leases s + others)"
    "\<And>s' r l. slot_inv s' \<Longrightarrow> settled l s' \<Longrightarrow> registry_inv r \<Longrightarrow> leased r (slot_leases s' + others) \<Longrightarrow>
       accounts (L(i := l)) ((set_qp i (Some s') ep)\<lparr>ep_memory := r\<rparr>)"
    using accounts_slot [OF acc s] by blast
  have "rc_inv others (borrowed s ep)" using o(1,3,4) by (simp add: rc_inv_def borrowed_def)
  then have "rc_inv others st'" "settled l (the_slot st')" using step [of others] o(2) f by simp_all
  then have "accounts (L(i := l)) ((set_qp i (Some (the_slot st')) ep)\<lparr>ep_memory := the_registry st'\<rparr>)"
    using o(5) by (simp add: rc_inv_def)
  then show ?thesis
    using f by (elim accounts_frame [THEN iffD2, rotated 2]) (simp_all add: on_slot_def s borrowed_def)
qed

lemma on_slot_accounts:
  assumes "accounts L ep" "keeps f"
  shows "accounts L (fst (on_slot i x f ep))"
proof (cases "qp_at ep i")
  case None
  then show ?thesis using assms(1) by (simp add: on_slot_def)
next
  case (Some s)
  have "accounts (L(i := L i)) (fst (on_slot i x f ep))"
  proof (rule on_slot_ledger [OF assms(1) Some])
    fix others assume st: "rc_inv others (borrowed s ep)" "settled (L i) s"
    then obtain cs where "rc_inv others (fst (f (borrowed s ep)))" "rc_books {#} s {#} (the_slot (fst (f (borrowed s ep)))) cs"
      using assms(2) unfolding keeps_def by (metis the_slot_borrowed)
    then show "rc_inv others (fst (f (borrowed s ep))) \<and> settled (L i) (the_slot (fst (f (borrowed s ep))))"
      using settled_books [OF st(2)] by blast
  qed
  then show ?thesis by simp
qed

text \<open>Queue pairs that appear, disappear, or change outside the books.\<close>

lemma accounts_set_same:
  assumes acc: "accounts L ep" and s: "qp_at ep i = Some s" and same: "slot_inv s' = slot_inv s" "slot_leases s' = slot_leases s"
      "works s' = works s" "receives s' = receives s" "ring_list (completion_queue s') = ring_list (completion_queue s)"
  shows "accounts L (set_qp i (Some s') ep)"
proof -
  obtain others where o: "slot_inv s" "settled (L i) s" "registry_inv (ep_memory ep)"
    "leased (ep_memory ep) (slot_leases s + others)"
    "\<And>s' r l. slot_inv s' \<Longrightarrow> settled l s' \<Longrightarrow> registry_inv r \<Longrightarrow> leased r (slot_leases s' + others) \<Longrightarrow>
       accounts (L(i := l)) ((set_qp i (Some s') ep)\<lparr>ep_memory := r\<rparr>)"
    using accounts_slot [OF acc s] by blast
  have "settled (L i) s'" using o(2) settled_cong [OF same(3-5)] by simp
  then have "accounts (L(i := L i)) ((set_qp i (Some s') ep)\<lparr>ep_memory := ep_memory ep\<rparr>)"
    using o(1,3,4) same(1,2) by (intro o(5)) simp_all
  then show ?thesis by (simp add: accounts_frame [of "(set_qp i (Some s') ep)\<lparr>ep_memory := ep_memory ep\<rparr>" "set_qp i (Some s') ep"])
qed

lemma accounts_create:
  assumes acc: "accounts L ep" and i: "i < length (ep_qps ep)" "ep_qps ep ! i = None"
    and new: "slot_inv s" "slot_leases s = {#}" "settled l s"
  shows "accounts (L(i := l)) (set_qp i (Some s) ep)"
proof -
  have "ep_leases (set_qp i (Some s) ep) = ep_leases ep"
    using ep_leases_set [OF i(1)] i(2) new(2) by (auto simp: qp_leases_def)
  then show ?thesis using acc new(1,3) i by (auto simp: accounts_def)
qed

lemma accounts_remove:
  assumes acc: "accounts L ep" and s: "qp_at ep i = Some s" and free: "slot_leases s = {#}"
  shows "accounts L (set_qp i None ep)"
proof -
  have "ep_leases (set_qp i None ep) = ep_leases ep"
    using ep_leases_set [of i ep] qp_at_bound [OF s] free by (auto simp: qp_leases_def)
  then show ?thesis using acc by (auto simp: accounts_def split: if_splits)
qed

section \<open>Scheduling\<close>

lemma deschedule_accounts: "accounts L ep \<Longrightarrow> accounts L (deschedule_qp i ep)"
proof -
  assume acc: "accounts L ep"
  let ?ep = "case u32_try_from i of
      Some q \<Rightarrow> ep\<lparr>requester_ready := fst (ready_cancel (requester_ready ep) i),
          responder_ready := fst (ready_cancel (responder_ready ep) i),
          timer_scheduler := fst (timer_sched_cancel (timer_scheduler ep) q)\<rparr>
    | None \<Rightarrow> ep\<lparr>requester_ready := fst (ready_cancel (requester_ready ep) i),
          responder_ready := fst (ready_cancel (responder_ready ep) i)\<rparr>"
  have e: "accounts L ?ep" using acc by (simp split: option.split)
  have d: "deschedule_qp i ep = (case qp_at ?ep i of
      Some s \<Rightarrow> set_qp i (Some (s\<lparr>requester_scheduled := False, responder_scheduled := False,
         timer_sequence := next_timer_sequence (timer_sequence s)\<rparr>)) ?ep
    | None \<Rightarrow> ?ep)"
    by (simp add: deschedule_qp_def Let_def split: option.split)
  show ?thesis
  proof (cases "qp_at ?ep i")
    case None
    then show ?thesis using e unfolding d by simp
  next
    case (Some s)
    then show ?thesis unfolding d using accounts_set_same [OF e Some] by (simp add: works_def receives_def)
  qed
qed

lemma synchronize_accounts: "accounts L ep \<Longrightarrow> accounts L (synchronize_qp i ep)"
proof (cases "qp_at ep i")
  case None
  then show "accounts L ep \<Longrightarrow> ?thesis" by (simp add: synchronize_qp_def deschedule_accounts)
next
  case (Some s)
  assume acc: "accounts L ep"
  obtain timers sequence where t: "synchronize_timer i s (timer_scheduler ep) = (timers, sequence)" by fastforce
  let ?ep = "ep\<lparr>requester_ready := (if requester_is_runnable s
        then fst (ready_schedule (requester_ready ep) i) else fst (ready_cancel (requester_ready ep) i)),
      responder_ready := (if responder_is_runnable s
        then fst (ready_schedule (responder_ready ep) i) else fst (ready_cancel (responder_ready ep) i)),
      timer_scheduler := timers\<rparr>"
  have "accounts L ?ep" "qp_at ?ep i = Some s" using acc Some by simp_all
  note same = accounts_set_same [OF this]
  have d: "synchronize_qp i ep = set_qp i (Some (s\<lparr>timer_sequence := sequence,
      requester_scheduled := is_scheduled (requester_ready ?ep) i, responder_scheduled := is_scheduled (responder_ready ?ep) i\<rparr>)) ?ep"
    using Some t by (simp add: synchronize_qp_def Let_def)
  show ?thesis unfolding d by (rule same) (simp_all add: works_def receives_def)
qed

lemma count_completions_accounts [simp]: "accounts L (count_completions n ep) = accounts L ep"
  by (simp add: count_completions_def Let_def)


section \<open>Control plane\<close>

lemma register_memory_accounts:
  "accounts L ep \<Longrightarrow> accounts L (fst (register_memory region access ep))"
  using register_inv [of "ep_memory ep" None region access "()"] leased_register [of "ep_memory ep" "ep_leases ep" None region access "()"]
  by (auto simp: register_memory_def register_def accounts_def ep_leases_def split: prod.splits)

lemma register_generator_accounts:
  "accounts L ep \<Longrightarrow> accounts L (fst (register_memory_with_key_generator gen region access g ep))"
  using register_inv [of "ep_memory ep" "Some gen" region access g] leased_register [of "ep_memory ep" "ep_leases ep" "Some gen" region access g]
  by (auto simp: register_memory_with_key_generator_def register_with_key_generator_def accounts_def ep_leases_def split: prod.splits)

lemma deregister_memory_accounts:
  assumes "accounts L ep"
  shows "accounts L (fst (deregister_memory h ep))"
proof -
  obtain r res where d: "deregister h (ep_memory ep) = (r, res)" by fastforce
  have "registry_inv (ep_memory ep)" "leased (ep_memory ep) (ep_leases ep)" using assms by (simp_all add: accounts_def)
  then have "registry_inv r" "leased r (ep_leases ep)"
    using deregister_inv [of "ep_memory ep" h r] deregister_unchanged [of h "ep_memory ep" r] leased_deregister [OF _ _ d] d
    by (cases res; auto)+
  then show ?thesis using assms by (simp add: deregister_memory_def d accounts_def ep_leases_def)
qed

lemma slot_new_empty:
  assumes "slot_new sq rq cq gen config = Inr s"
  shows "slot_inv s" "slot_leases s = {#}" "settled ledger_new s" "qs_generation s = gen"
  using assms by (auto simp: slot_new_def result_simps slot_inv_def slot_pre_def queues_ok_def all_leased_def memory_held_def
    owed_def works_def receives_def inbound_receives_def slot_leases_def queue_leases_def settled_def ledger_new_def
    ring_len_list simp del: length_ring_list)

lemma free_qp_None: "free_qp ep = Some i \<Longrightarrow> i < length (ep_qps ep) \<and> ep_qps ep ! i = None"
  by (auto simp: free_qp_def find_Some_iff Option.is_none_def split: option.splits)

text \<open>A successful creation returns a handle to the slot it fills, with an empty ledger.\<close>

lemma create_qp_cases:
  assumes "create_qp sq rq cq config ep = (ep', res)"
  obtains (failed) e index where "res = Inl e" "ep' = ep\<lparr>ep_qpn_index := index\<rparr>"
  | (created) i s index gen where "res = Inr \<lparr>handle_slot = of_nat i, handle_generation = qs_generation s\<rparr>"
      "i < length (ep_qps ep)" "ep_qps ep ! i = None" "i < 2 ^ 32" "slot_new sq rq cq gen config = Inr s"
      "gen = max (ep_generations ep ! i + 1) 1"
      "insert_qpn (ep_qpn_index ep) (local_qpn (transport config)) i = (index, Inr (of_nat i))"
      "ep' = set_qp i (Some s) (ep\<lparr>ep_qpn_index := index, ep_generations := (ep_generations ep)[i := gen]\<rparr>)"
proof -
  have same: "ep = ep\<lparr>ep_qpn_index := ep_qpn_index ep\<rparr>" by simp
  show thesis
  proof (cases "qc_rnr_nak_timer config > MAX_RNR_TIMER \<or> qpn_get (ep_qpn_index ep) (local_qpn (transport config)) \<noteq> None \<or>
      (\<exists>e. check_qp_limits config ep = Inl e) \<or> free_qp ep = None")
    case True
    then have "\<exists>e. res = Inl e \<and> ep' = ep" using assms by (auto simp: create_qp_def split: if_splits sum.splits)
    then show thesis using failed same by metis
  next
    case False
    then obtain i where i: "free_qp ep = Some i" by auto
    let ?gen = "max (ep_generations ep ! i + 1) 1"
    obtain u where lim: "check_qp_limits config ep = Inr u" using False by (cases "check_qp_limits config ep") auto
    show thesis
    proof (cases "slot_new sq rq cq ?gen config")
      case (Inl e)
      then have "res = Inl e \<and> ep' = ep" using assms False i lim by (simp add: create_qp_def Let_def)
      then show thesis using failed same by metis
    next
      case (Inr s)
      obtain index x where ins: "insert_qpn (ep_qpn_index ep) (local_qpn (transport config)) i = (index, x)" by fastforce
      show thesis
      proof (cases x)
        case (Inl e)
        then show thesis using failed [of e index] assms False i lim Inr ins by (simp add: create_qp_def Let_def)
      next
        case n: (Inr n)
        have "n = of_nat i" "i < 2 ^ 32"
          using ins n by (auto simp: insert_qpn_def u32_try_from_def split: if_splits prod.splits sum.splits QpnInsertError.splits)
        then show thesis
          using created [of i s ?gen index] assms False i lim Inr ins n free_qp_None [OF i] slot_new_empty(4) [OF Inr]
          by (simp add: create_qp_def Let_def)
      qed
    qed
  qed
qed

lemma create_qp_accounts:
  assumes "accounts L ep" "create_qp sq rq cq config ep = (ep', res)"
  shows "accounts (case res of Inl _ \<Rightarrow> L | Inr h \<Rightarrow> L(unat (handle_slot h) := ledger_new)) ep'"
  using assms(2)
proof (cases rule: create_qp_cases)
  case (failed e index)
  then show ?thesis using assms(1) by simp
next
  case (created i s index gen)
  have "accounts (L(i := ledger_new)) ep'"
    unfolding created(8)
    by (rule accounts_create) (use assms(1) created(2,3) slot_new_empty [OF created(5)] in simp_all)
  then show ?thesis using created(1,4) by (simp add: unat_of_nat)
qed

lemma idle_leases:
  assumes "slot_inv s" "\<not> is_busy s"
  shows "slot_leases s = {#}" "active_request s = None" "inbound_message s = None" "read_response s = None"
  using assms
  by (auto simp: is_busy_def slot_inv_def memory_held_def slot_leases_def ring_is_empty_list queue_leases_def)


lemma deschedule_slot:
  "qp_at (deschedule_qp i ep) i = map_option (\<lambda>s. s\<lparr>requester_scheduled := False, responder_scheduled := False,
     timer_sequence := next_timer_sequence (timer_sequence s)\<rparr>) (qp_at ep i)"
  using qp_at_bound [of ep i]
  by (cases "qp_at ep i") (auto simp: deschedule_qp_def Let_def split: option.split)

lemma remove_qp_accounts:
  assumes "accounts L ep"
  shows "accounts L (fst (remove_qp h ep))"
proof (cases "\<exists>i s. qp_index ep h = Inr i \<and> qp_at ep i = Some s \<and> \<not> is_busy s")
  case True
  then obtain i s where s: "qp_index ep h = Inr i" "qp_at ep i = Some s" "\<not> is_busy s" by blast
  have "slot_leases s = {#}" using assms s idle_leases(1) by (auto simp: accounts_def)
  then have free: "slot_leases (s\<lparr>requester_scheduled := False, responder_scheduled := False,
     timer_sequence := next_timer_sequence (timer_sequence s)\<rparr>) = {#}" by simp
  have at: "qp_at (deschedule_qp i ep) i = Some (s\<lparr>requester_scheduled := False, responder_scheduled := False,
     timer_sequence := next_timer_sequence (timer_sequence s)\<rparr>)" by (simp add: deschedule_slot s)
  show ?thesis
    using accounts_remove [OF deschedule_accounts [OF assms] at free] by (simp add: remove_qp_def s at Let_def)
qed (use assms in \<open>auto simp: remove_qp_def split: sum.splits option.splits\<close>)

lemma reset_transport_books:
  assumes "active_request s = None" "inbound_message s = None" "read_response s = None"
  shows "slot_inv (reset_transport_state s) = slot_inv s" "slot_leases (reset_transport_state s) = slot_leases s"
    "works (reset_transport_state s) = works s" "receives (reset_transport_state s) = receives s"
    "completion_queue (reset_transport_state s) = completion_queue s"
  using assms
  by (simp_all add: reset_transport_state_def Let_def slot_inv_def slot_pre_def queues_ok_def all_leased_def memory_held_def
    owed_def works_def receives_def slot_leases_def)

lemma reconfigure_qp_accounts:
  assumes acc: "accounts L ep"
  shows "accounts L (fst (reconfigure_qp h config ep))"
proof -
  have step: "accounts L (synchronize_qp i (set_qp i (Some (reset_transport_state (s\<lparr>machine := m, qs_path := qc_path config,
      qs_rnr_nak_timer := qc_rnr_nak_timer config\<rparr>))) (ep\<lparr>ep_qpn_index := index\<rparr>)))"
    if s: "qp_at ep i = Some s" "\<not> is_busy s" for i s m index
  proof (intro synchronize_accounts accounts_set_same)
    let ?s = "s\<lparr>machine := m, qs_path := qc_path config, qs_rnr_nak_timer := qc_rnr_nak_timer config\<rparr>"
    have inv: "slot_inv s" using acc s by (auto simp: accounts_def)
    have "active_request ?s = None" "inbound_message ?s = None" "read_response ?s = None"
      using idle_leases [OF inv s(2)] by simp_all
    note same = reset_transport_books [OF this]
    show "slot_inv (reset_transport_state ?s) = slot_inv s" "slot_leases (reset_transport_state ?s) = slot_leases s"
      "works (reset_transport_state ?s) = works s" "receives (reset_transport_state ?s) = receives s"
      "ring_list (completion_queue (reset_transport_state ?s)) = ring_list (completion_queue s)"
      by (simp_all only: same) (simp_all add: works_def receives_def)
    show "accounts L (ep\<lparr>ep_qpn_index := index\<rparr>)" "qp_at (ep\<lparr>ep_qpn_index := index\<rparr>) i = Some s" using acc s by simp_all
  qed
  show ?thesis
    using acc step step [where index = "ep_qpn_index ep"] by (auto simp: reconfigure_qp_def Let_def split: sum.splits option.splits prod.splits if_splits)
qed


lemma flush_pending_keeps: "flush_pending st = (st', n) \<Longrightarrow> rc_keeps others st st' n"
  using flush_pending_all(1,2) [where E = "{#}"] emptied_owns by (intro rc_keeps_step) (auto simp: rc_inv_pre)

lemma machine_keeps: "rc_keeps others st (st\<lparr>the_slot := (the_slot st)\<lparr>machine := m\<rparr>\<rparr>) 0"
  by (rule rc_keeps_frame) (simp_all add: works_def receives_def)

lemma reset_transport_keeps:
  assumes "emptied (the_slot st)"
  shows "rc_keeps others st (st\<lparr>the_slot := reset_transport_state (the_slot st)\<rparr>) 0"
proof -
  have "active_request (the_slot st) = None" "inbound_message (the_slot st) = None" "read_response (the_slot st) = None"
    using assms by (simp_all add: emptied_def)
  note same = reset_transport_books [OF this]
  show ?thesis by (simp add: rc_keeps_def rc_inv_def same rc_books_same)
qed

lemma transition_slot_keeps: "keeps (transition_slot destination)"
proof (rule keepsI)
  fix others st st' x
  assume t: "transition_slot destination st = (st', x)"
  obtain m res where q: "qp_transition (machine (the_slot st)) destination = (m, res)" by fastforce
  let ?st = "st\<lparr>the_slot := (the_slot st)\<lparr>machine := m\<rparr>\<rparr>"
  obtain st1 n where f: "flush_pending ?st = (st1, n)" by fastforce
  note flushed = rc_keeps_trans [OF machine_keeps [of others st m] flush_pending_keeps [OF f]]
  have "rc_keeps others st (st1\<lparr>the_slot := reset_transport_state (the_slot st1)\<rparr>) (0 + n + 0)" if "rc_inv others st"
  proof (rule rc_keeps_trans [OF flushed reset_transport_keeps])
    have "rc_pre {#} others ?st" using that by (simp add: rc_inv_def rc_pre_def slot_inv_def)
    then show "emptied (the_slot st1)" using f by (rule flush_pending_all)
  qed
  then have "rc_keeps others st (st1\<lparr>the_slot := reset_transport_state (the_slot st1)\<rparr>) n" by (auto simp: rc_keeps_def)
  then show "\<exists>n. rc_keeps others st st' n"
    using t q f flushed machine_keeps [of others st m] by (cases res) (auto simp: transition_slot_def Let_def split: if_splits intro: exI [where x = 0])
qed

lemma on_slot_keeps_pair:
  "keeps f \<Longrightarrow> accounts L ep \<Longrightarrow> on_slot i x f ep = (ep', y) \<Longrightarrow> accounts L ep'"
  using on_slot_accounts [of L ep f i x] by simp

lemma transition_qp_accounts: "accounts L ep \<Longrightarrow> accounts L (fst (transition_qp h destination ep))"
  by (auto simp: transition_qp_def split: sum.splits prod.splits
    intro: synchronize_accounts on_slot_keeps_pair [OF transition_slot_keeps])

section \<open>Posting\<close>

lemma queue_leases_append [simp]: "queue_leases (xs @ ys) = queue_leases xs + queue_leases ys"
  by (simp add: queue_leases_def)

lemma send_posted:
  assumes inv: "rc_inv others st" and r: "registry_inv r" "leased r (queue_leases ps + (slot_leases (the_slot st) + others))"
    and ps: "\<forall>p \<in> set ps. posted_lease p \<noteq> None" "length ps \<le> completion_room (the_slot st)"
    and q: "ring_inv q" "ring_list q = ring_list (send_queue (the_slot st)) @ ps"
  shows "rc_inv others (st\<lparr>the_slot := (the_slot st)\<lparr>completion_reservations := completion_reservations (the_slot st) + length ps,
    send_queue := q\<rparr>, the_registry := r\<rparr>)"
proof -
  let ?s = "the_slot st"
  let ?s' = "?s\<lparr>completion_reservations := completion_reservations ?s + length ps, send_queue := q\<rparr>"
  have "slot_leases ?s' = queue_leases ps + slot_leases ?s" by (simp add: slot_leases_def q ac_simps)
  moreover have "size (owed ?s') = size (owed ?s) + length ps" by (simp add: owed_def works_def receives_def q)
  then have "slot_inv ?s'"
    using inv ps q by (auto simp: rc_inv_def slot_inv_def slot_pre_def queues_ok_def all_leased_def memory_held_def completion_room_def)
  ultimately show ?thesis using r by (simp add: rc_inv_def ac_simps)
qed

lemma receive_posted:
  assumes inv: "rc_inv others st" and r: "registry_inv r" "leased r (queue_leases ps + (slot_leases (the_slot st) + others))"
    and ps: "\<forall>p \<in> set ps. posted_lease p \<noteq> None" "length ps \<le> completion_room (the_slot st)"
    and q: "ring_inv q" "ring_list q = ring_list (receive_queue (the_slot st)) @ ps"
  shows "rc_inv others (st\<lparr>the_slot := (the_slot st)\<lparr>completion_reservations := completion_reservations (the_slot st) + length ps,
    receive_queue := q\<rparr>, the_registry := r\<rparr>)"
proof -
  let ?s = "the_slot st"
  let ?s' = "?s\<lparr>completion_reservations := completion_reservations ?s + length ps, receive_queue := q\<rparr>"
  have "slot_leases ?s' = queue_leases ps + slot_leases ?s" by (simp add: slot_leases_def q ac_simps)
  moreover have "size (owed ?s') = size (owed ?s) + length ps" by (simp add: owed_def works_def receives_def q)
  then have "slot_inv ?s'"
    using inv ps q by (auto simp: rc_inv_def slot_inv_def slot_pre_def queues_ok_def all_leased_def memory_held_def completion_room_def)
  ultimately show ?thesis using r by (simp add: rc_inv_def ac_simps)
qed

definition post_ledger :: "WorkRequest list \<Rightarrow> RecvWorkRequest list \<Rightarrow> ledger \<Rightarrow> ledger" where
  "post_ledger ws rs l = l\<lparr>posted_sends := mset ws + posted_sends l, posted_recvs := mset rs + posted_recvs l\<rparr>"

lemma settled_posted:
  assumes "settled l s" "works s' = mset ws + works s" "receives s' = mset rs + receives s"
    "completion_queue s' = completion_queue s"
  shows "settled (post_ledger ws rs l) s'"
  using assms unfolding settled_def post_ledger_def by (auto simp: ac_simps)

lemma room_completion: "can_reserve_completion s \<longleftrightarrow> 1 \<le> completion_room s"
  by (auto simp: can_reserve_completion_def completion_room_def)

lemma room_ring: "ring_inv q \<Longrightarrow> \<not> ring_is_full q \<Longrightarrow> length (ring_list q) < ring_capacity q"
  using ring.fifo_bounded [of q] by (simp add: ring_is_full_list less_le)

lemma release_Some_lease:
  "registry_inv r \<Longrightarrow> leased r (add_mset l M) \<Longrightarrow> registry_inv (fst (release_lease r (Some l))) \<and> leased (fst (release_lease r (Some l))) M"
  using leased_release [of r l M] by (fastforce simp: release_lease_def)


text \<open>What a post accepts is added to the books of the queue pair; what it refuses is not.\<close>

definition posts :: "(rc_state \<Rightarrow> rc_state \<times> (ApiError + unit)) \<Rightarrow> WorkRequest list \<Rightarrow> RecvWorkRequest list \<Rightarrow> rc_state \<Rightarrow> bool" where
  "posts f ws rs st \<longleftrightarrow> (\<forall>others st' res. rc_inv others st \<longrightarrow> f st = (st', res) \<longrightarrow> rc_inv others st' \<and>
     completion_queue (the_slot st') = completion_queue (the_slot st) \<and>
     works (the_slot st') = mset (case res of Inr _ \<Rightarrow> ws | Inl _ \<Rightarrow> []) + works (the_slot st) \<and>
     receives (the_slot st') = mset (case res of Inr _ \<Rightarrow> rs | Inl _ \<Rightarrow> []) + receives (the_slot st))"

lemma post_send_posts: "posts (post_send work) [work] [] st"
  unfolding posts_def
proof (intro allI impI)
  fix others st' res
  assume inv: "rc_inv others st" and p: "post_send work st = (st', res)"
  let ?s = "the_slot st" and ?post = "\<lambda>l. \<lparr>posted_work = work, posted_lease = Some l\<rparr>"
  have q: "ring_inv (send_queue ?s)" using inv by (simp add: rc_inv_def slot_inv_def slot_pre_def queues_ok_def)
  show "rc_inv others st' \<and> completion_queue (the_slot st') = completion_queue ?s \<and>
     works (the_slot st') = mset (case res of Inr _ \<Rightarrow> [work] | Inl _ \<Rightarrow> []) + works ?s \<and>
     receives (the_slot st') = mset (case res of Inr _ \<Rightarrow> [] | Inl _ \<Rightarrow> []) + receives ?s"
  proof (cases "ring_is_full (send_queue ?s) \<or> \<not> can_reserve_completion ?s")
    case True
    then show ?thesis using p inv by (auto simp: post_send_def reserve_completion_def split: if_splits)
  next
    case False
    obtain r x where x: "retain_local (sge_lkey (wr_sge work)) (the_registry st) = (r, x)" by fastforce
    have r: "registry_inv r" "case x of Inr l \<Rightarrow> leased r (add_mset l (slot_leases ?s + others)) | Inl _ \<Rightarrow> r = the_registry st"
      using leased_retain [of "the_registry st" _ _ LocalKey r x] inv x by (auto simp: rc_inv_def retain_local_def)
    show ?thesis
    proof (cases x)
      case (Inl e)
      then show ?thesis using p x r False inv by (auto simp: post_send_def reserve_completion_def drop_reservation_def)
    next
      case (Inr l)
      obtain q' where q': "ring_push (send_queue ?s) (?post l) = (q', Inr ())" "ring_inv q'"
        "ring_list q' = ring_list (send_queue ?s) @ [?post l]"
        using ring.push_room [OF q room_ring [OF q]] False by metis
      have "rc_inv others (st\<lparr>the_slot := ?s\<lparr>completion_reservations := completion_reservations ?s + length [?post l],
          send_queue := q'\<rparr>, the_registry := r\<rparr>)"
        by (rule send_posted [OF inv r(1)]) (use r(2) Inr q' False in \<open>simp_all add: room_completion\<close>)
      then show ?thesis
        using p x Inr q' False by (auto simp: post_send_def reserve_completion_def works_def receives_def)
    qed
  qed
qed

lemma post_recv_posts: "posts (post_recv work) [] [work] st"
  unfolding posts_def
proof (intro allI impI)
  fix others st' res
  assume inv: "rc_inv others st" and p: "post_recv work st = (st', res)"
  let ?s = "the_slot st" and ?post = "\<lambda>l. \<lparr>posted_work = work, posted_lease = Some l\<rparr>"
  have q: "ring_inv (receive_queue ?s)" using inv by (simp add: rc_inv_def slot_inv_def slot_pre_def queues_ok_def)
  show "rc_inv others st' \<and> completion_queue (the_slot st') = completion_queue ?s \<and>
     works (the_slot st') = mset (case res of Inr _ \<Rightarrow> [] | Inl _ \<Rightarrow> []) + works ?s \<and>
     receives (the_slot st') = mset (case res of Inr _ \<Rightarrow> [work] | Inl _ \<Rightarrow> []) + receives ?s"
  proof (cases "ring_is_full (receive_queue ?s) \<or> \<not> can_reserve_completion ?s")
    case True
    then show ?thesis using p inv by (auto simp: post_recv_def reserve_completion_def split: if_splits)
  next
    case False
    obtain r x where x: "retain_local (sge_lkey (recv_sge work)) (the_registry st) = (r, x)" by fastforce
    have r: "registry_inv r" "case x of Inr l \<Rightarrow> leased r (add_mset l (slot_leases ?s + others)) | Inl _ \<Rightarrow> r = the_registry st"
      using leased_retain [of "the_registry st" _ _ LocalKey r x] inv x by (auto simp: rc_inv_def retain_local_def)
    show ?thesis
    proof (cases x)
      case (Inl e)
      then show ?thesis using p x r False inv by (auto simp: post_recv_def reserve_completion_def drop_reservation_def)
    next
      case (Inr l)
      obtain q' where q': "ring_push (receive_queue ?s) (?post l) = (q', Inr ())" "ring_inv q'"
        "ring_list q' = ring_list (receive_queue ?s) @ [?post l]"
        using ring.push_room [OF q room_ring [OF q]] False by metis
      have "rc_inv others (st\<lparr>the_slot := ?s\<lparr>completion_reservations := completion_reservations ?s + length [?post l],
          receive_queue := q'\<rparr>, the_registry := r\<rparr>)"
        by (rule receive_posted [OF inv r(1)]) (use r(2) Inr q' False in \<open>simp_all add: room_completion\<close>)
      then show ?thesis
        using p x Inr q' False by (auto simp: post_recv_def reserve_completion_def works_def receives_def)
    qed
  qed
qed

definition leases_of :: "RegionLease option list \<Rightarrow> RegionLease multiset" where
  "leases_of ls = (\<Sum>l \<leftarrow> ls. opt_mset l)"

lemma leases_of_simps [simp]: "leases_of [] = {#}" "leases_of (l # ls) = opt_mset l + leases_of ls"
  "leases_of (xs @ ys) = leases_of xs + leases_of ys"
  by (simp_all add: leases_of_def)

lemma release_all:
  assumes "registry_inv r" "leased r (leases_of leases + M)" "None \<notin> set leases"
  shows "registry_inv (fold (\<lambda>lease r. fst (release_lease r lease)) leases r) \<and>
    leased (fold (\<lambda>lease r. fst (release_lease r lease)) leases r) M"
  using assms
proof (induction leases arbitrary: r)
  case (Cons x leases)
  obtain l where "x = Some l" using Cons.prems(3) by (cases x) auto
  then show ?case using Cons release_Some_lease [of r l "leases_of leases + M"] by simp
qed simp

lemma retain_batch_leased:
  assumes "registry_inv r" "leased r (leases_of leases + M)" "None \<notin> set leases" "retain_batch r leases ks = (r', res)"
  shows "registry_inv r' \<and> (case res of Inl _ \<Rightarrow> leased r' M
    | Inr ls \<Rightarrow> length ls = length leases + length ks \<and> None \<notin> set ls \<and> leased r' (leases_of ls + M))"
  using assms
proof (induction ks arbitrary: r leases)
  case (Cons k ks)
  obtain r1 x where x: "retain_local k r = (r1, x)" by fastforce
  have r1: "registry_inv r1" "case x of Inr l \<Rightarrow> leased r1 (add_mset l (leases_of leases + M)) | Inl _ \<Rightarrow> r1 = r"
    using leased_retain [OF Cons.prems(1,2), of k LocalKey r1 x] x by (simp_all add: retain_local_def)
  show ?case
  proof (cases x)
    case (Inl e)
    then show ?thesis using Cons.prems x r1 release_all [OF Cons.prems(1-3)] by auto
  next
    case (Inr l)
    then show ?thesis using Cons.IH [of r1 "leases @ [Some l]"] Cons.prems x r1 by (auto split: sum.splits)
  qed
qed auto

lemma push_all_list:
  assumes "ring_inv q" "length (ring_list q) + length ps \<le> ring_capacity q"
  shows "ring_inv (push_all ps q) \<and> ring_list (push_all ps q) = ring_list q @ map (\<lambda>(w, l). \<lparr>posted_work = w, posted_lease = l\<rparr>) ps"
  using assms
proof (induction ps arbitrary: q)
  case (Cons p ps)
  obtain w l where p: "p = (w, l)" by fastforce
  obtain q' where "ring_push q \<lparr>posted_work = w, posted_lease = l\<rparr> = (q', Inr ())" "ring_inv q'"
      "ring_capacity q' = ring_capacity q" "ring_list q' = ring_list q @ [\<lparr>posted_work = w, posted_lease = l\<rparr>]"
    using ring.push_room [OF Cons.prems(1), of "\<lparr>posted_work = w, posted_lease = l\<rparr>"] Cons.prems(2) by auto
  then show ?case using Cons.IH [of q'] Cons.prems(2) p by (simp add: push_all_def)
qed (simp add: push_all_def)


lemma leased_posts: "length ls = length ws \<Longrightarrow> queue_leases (map (\<lambda>(w, l). \<lparr>posted_work = w, posted_lease = l\<rparr>) (zip ws ls)) = leases_of ls"
  by (induction ls ws rule: list_induct2) simp_all

lemma posted_works: "length ls = length ws \<Longrightarrow> map posted_work (map (\<lambda>(w, l). \<lparr>posted_work = w, posted_lease = l\<rparr>) (zip ws ls)) = ws"
  by (induction ls ws rule: list_induct2) simp_all

lemma posted_leases: "None \<notin> set ls \<Longrightarrow> p \<in> set (map (\<lambda>(w, l). \<lparr>posted_work = w, posted_lease = l\<rparr>) (zip ws ls)) \<Longrightarrow> posted_lease p \<noteq> None"
  by clarsimp (metis not_None_eq set_zip_rightD)

lemma post_send_batch_posts:
  assumes room: "length batch \<le> ring_remaining_capacity (send_queue (the_slot st))" "length batch \<le> completion_room (the_slot st)"
  shows "posts (post_send_batch batch) batch [] st"
  unfolding posts_def
proof (intro allI impI)
  fix others st' res
  assume inv: "rc_inv others st" and p: "post_send_batch batch st = (st', res)"
  let ?s = "the_slot st"
  obtain r x where x: "retain_batch (the_registry st) [] (map (\<lambda>w. sge_lkey (wr_sge w)) batch) = (r, x)" by fastforce
  have r: "registry_inv r" "case x of Inl _ \<Rightarrow> leased r (slot_leases ?s + others)
    | Inr ls \<Rightarrow> length ls = length batch \<and> None \<notin> set ls \<and> leased r (leases_of ls + (slot_leases ?s + others))"
    using retain_batch_leased [OF _ _ _ x, of "slot_leases ?s + others"] inv by (auto simp: rc_inv_def split: sum.splits)
  show "rc_inv others st' \<and> completion_queue (the_slot st') = completion_queue ?s \<and>
     works (the_slot st') = mset (case res of Inr _ \<Rightarrow> batch | Inl _ \<Rightarrow> []) + works ?s \<and>
     receives (the_slot st') = mset (case res of Inr _ \<Rightarrow> [] | Inl _ \<Rightarrow> []) + receives ?s"
  proof (cases x)
    case (Inl e)
    then show ?thesis using p x r inv by (auto simp: post_send_batch_def rc_inv_def)
  next
    case (Inr ls)
    let ?ps = "map (\<lambda>(w, l). \<lparr>posted_work = w, posted_lease = l\<rparr>) (zip batch ls)"
    have ls: "length ls = length batch" "None \<notin> set ls" "leased r (leases_of ls + (slot_leases ?s + others))" using r(2) Inr by simp_all
    have q: "ring_inv (send_queue ?s)" using inv by (simp add: rc_inv_def slot_inv_def slot_pre_def queues_ok_def)
    have q': "ring_inv (push_all (zip batch ls) (send_queue ?s))"
        "ring_list (push_all (zip batch ls) (send_queue ?s)) = ring_list (send_queue ?s) @ ?ps"
      using push_all_list [OF q, of "zip batch ls"] room(1) ring.fifo_bounded [OF q] ls(1) by (simp_all add: ring_remaining_capacity_def)
    have "rc_inv others (st\<lparr>the_slot := ?s\<lparr>completion_reservations := completion_reservations ?s + length ?ps,
        send_queue := push_all (zip batch ls) (send_queue ?s)\<rparr>, the_registry := r\<rparr>)"
      by (rule send_posted [OF inv r(1) _ _ _ q'])
        (use ls room(2) posted_leases [OF ls(2)] in \<open>auto simp: leased_posts\<close>)
    then show ?thesis using p x Inr ls(1) q' posted_works [OF ls(1)]
      by (auto simp: post_send_batch_def works_def receives_def Let_def simp flip: mset_map)
  qed
qed

lemma post_recv_batch_posts:
  assumes room: "length batch \<le> ring_remaining_capacity (receive_queue (the_slot st))" "length batch \<le> completion_room (the_slot st)"
  shows "posts (post_recv_batch batch) [] batch st"
  unfolding posts_def
proof (intro allI impI)
  fix others st' res
  assume inv: "rc_inv others st" and p: "post_recv_batch batch st = (st', res)"
  let ?s = "the_slot st"
  obtain r x where x: "retain_batch (the_registry st) [] (map (\<lambda>w. sge_lkey (recv_sge w)) batch) = (r, x)" by fastforce
  have r: "registry_inv r" "case x of Inl _ \<Rightarrow> leased r (slot_leases ?s + others)
    | Inr ls \<Rightarrow> length ls = length batch \<and> None \<notin> set ls \<and> leased r (leases_of ls + (slot_leases ?s + others))"
    using retain_batch_leased [OF _ _ _ x, of "slot_leases ?s + others"] inv by (auto simp: rc_inv_def split: sum.splits)
  show "rc_inv others st' \<and> completion_queue (the_slot st') = completion_queue ?s \<and>
     works (the_slot st') = mset (case res of Inr _ \<Rightarrow> [] | Inl _ \<Rightarrow> []) + works ?s \<and>
     receives (the_slot st') = mset (case res of Inr _ \<Rightarrow> batch | Inl _ \<Rightarrow> []) + receives ?s"
  proof (cases x)
    case (Inl e)
    then show ?thesis using p x r inv by (auto simp: post_recv_batch_def rc_inv_def)
  next
    case (Inr ls)
    let ?ps = "map (\<lambda>(w, l). \<lparr>posted_work = w, posted_lease = l\<rparr>) (zip batch ls)"
    have ls: "length ls = length batch" "None \<notin> set ls" "leased r (leases_of ls + (slot_leases ?s + others))" using r(2) Inr by simp_all
    have q: "ring_inv (receive_queue ?s)" using inv by (simp add: rc_inv_def slot_inv_def slot_pre_def queues_ok_def)
    have q': "ring_inv (push_all (zip batch ls) (receive_queue ?s))"
        "ring_list (push_all (zip batch ls) (receive_queue ?s)) = ring_list (receive_queue ?s) @ ?ps"
      using push_all_list [OF q, of "zip batch ls"] room(1) ring.fifo_bounded [OF q] ls(1) by (simp_all add: ring_remaining_capacity_def)
    have "rc_inv others (st\<lparr>the_slot := ?s\<lparr>completion_reservations := completion_reservations ?s + length ?ps,
        receive_queue := push_all (zip batch ls) (receive_queue ?s)\<rparr>, the_registry := r\<rparr>)"
      by (rule receive_posted [OF inv r(1) _ _ _ q'])
        (use ls room(2) posted_leases [OF ls(2)] in \<open>auto simp: leased_posts\<close>)
    then show ?thesis using p x Inr ls(1) q' posted_works [OF ls(1)]
      by (auto simp: post_recv_batch_def works_def receives_def Let_def simp flip: mset_map)
  qed
qed

lemma on_slot_posts:
  assumes acc: "accounts L ep" and s: "qp_at ep i = Some s" and f: "posts f ws rs (borrowed s ep)"
    and on: "on_slot i x f ep = (ep', res)"
  shows "accounts (case res of Inr _ \<Rightarrow> L(i := post_ledger ws rs (L i)) | Inl _ \<Rightarrow> L) ep'"
proof -
  obtain st' y where y: "f (borrowed s ep) = (st', y)" by fastforce
  then have res: "res = y" using on s by (simp add: on_slot_def borrowed_def split: prod.splits)
  let ?l = "case res of Inr _ \<Rightarrow> post_ledger ws rs (L i) | Inl _ \<Rightarrow> L i"
  have "settled ?l (the_slot st')" if "rc_inv others (borrowed s ep)" "settled (L i) s" for others
    using f that y settled_posted [OF that(2), of "the_slot st'"] settled_cong [of "the_slot st'" s "L i"]
    unfolding posts_def res by (auto split: sum.splits)
  then have "accounts (L(i := ?l)) (fst (on_slot i x f ep))"
    using f y by (intro on_slot_ledger [OF acc s]) (auto simp: posts_def)
  then show ?thesis using on by (simp split: sum.splits)
qed


lemma qp_index_slot: "qp_index ep h = Inr i \<Longrightarrow> i = unat (handle_slot h) \<and> (\<exists>s. qp_at ep i = Some s \<and> qs_generation s = handle_generation h)"
  by (auto simp: qp_index_def Let_def split: option.splits if_splits)

text \<open>The endpoint's posts refuse before they touch the queue pair, or post to it.\<close>

lemma post_work_cases:
  assumes "post_work h work ep = (ep', res)"
  obtains (refused) e where "res = Inl e" "ep' = ep"
  | (posted) i s ep1 x where "i = unat (handle_slot h)" "qp_at ep i = Some s"
      "on_slot i (Inl InvalidQpHandle) (post_send work) ep = (ep1, x)"
      "\<exists>stats. (res, ep') = (case x of Inl e \<Rightarrow> (Inl e, ep1) | Inr _ \<Rightarrow> (Inr (), (synchronize_qp i ep1)\<lparr>ep_stats := stats\<rparr>))"
proof (cases "\<exists>e. res = Inl e \<and> ep' = ep")
  case False
  then obtain i s where s: "qp_index ep h = Inr i" "qp_at ep i = Some s" "qp_state (machine s) = Rts"
    "validate_posted_work (ep_memory ep) work (mtu_bytes (path_mtu (qp_config (machine s)))) = Inr ()"
    using assms by (auto simp: post_work_def split: sum.splits option.splits if_splits) metis+
  obtain ep1 x where x: "on_slot i (Inl InvalidQpHandle) (post_send work) ep = (ep1, x)" by fastforce
  show thesis
    by (rule posted [OF _ s(2) x]) (use assms s x qp_index_slot [OF s(1)] in \<open>auto simp: post_work_def Let_def split: sum.splits\<close>)
qed (use refused in blast)

lemma post_work_accounts:
  assumes acc: "accounts L ep" and p: "post_work h work ep = (ep', res)"
  shows "accounts (case res of Inr _ \<Rightarrow> L(unat (handle_slot h) := post_ledger [work] [] (L (unat (handle_slot h)))) | Inl _ \<Rightarrow> L) ep'"
  using p
proof (cases rule: post_work_cases)
  case (refused e)
  then show ?thesis using acc by simp
next
  case (posted i s ep1 x)
  show ?thesis
    using on_slot_posts [OF acc posted(2) post_send_posts posted(3)] posted(1,4) by (auto split: sum.splits intro: synchronize_accounts)
qed


lemma post_receive_cases:
  assumes "post_receive h work ep = (ep', res)"
  obtains (refused) e where "res = Inl e" "ep' = ep"
  | (posted) i s ep1 x where "i = unat (handle_slot h)" "qp_at ep i = Some s"
      "on_slot i (Inl InvalidQpHandle) (post_recv work) ep = (ep1, x)"
      "\<exists>stats. (res, ep') = (case x of Inl e \<Rightarrow> (Inl e, ep1) | Inr _ \<Rightarrow> (Inr (), ep1\<lparr>ep_stats := stats\<rparr>))"
proof (cases "\<exists>e. res = Inl e \<and> ep' = ep")
  case False
  then obtain i s where s: "qp_index ep h = Inr i" "qp_at ep i = Some s" "qp_state (machine s) \<in> {Rtr, Rts, Sqd, Sqe}"
    "validate_receive (ep_memory ep) work = Inr ()"
    using assms by (auto simp: post_receive_def split: sum.splits option.splits if_splits) metis+
  obtain ep1 x where x: "on_slot i (Inl InvalidQpHandle) (post_recv work) ep = (ep1, x)" by fastforce
  show thesis
    by (rule posted [OF _ s(2) x]) (use assms s x qp_index_slot [OF s(1)] in \<open>auto simp: post_receive_def Let_def split: sum.splits\<close>)
qed (use refused in blast)

lemma post_receive_accounts:
  assumes acc: "accounts L ep" and p: "post_receive h work ep = (ep', res)"
  shows "accounts (case res of Inr _ \<Rightarrow> L(unat (handle_slot h) := post_ledger [] [work] (L (unat (handle_slot h)))) | Inl _ \<Rightarrow> L) ep'"
  using p
proof (cases rule: post_receive_cases)
  case (refused e)
  then show ?thesis using acc by simp
next
  case (posted i s ep1 x)
  show ?thesis
    using on_slot_posts [OF acc posted(2) post_recv_posts posted(3)] posted(1,4) by (auto split: sum.splits)
qed

lemma post_work_batch_cases:
  assumes "post_work_batch h batch ep = (ep', res)"
  obtains (refused) e where "res = Inl e" "ep' = ep"
  | (nothing) "batch = []" "res = Inr 0" "ep' = ep"
  | (posted) i s ep1 x where "i = unat (handle_slot h)" "qp_at ep i = Some s"
      "length batch \<le> ring_remaining_capacity (send_queue s)" "length batch \<le> completion_room s"
      "on_slot i (Inl InvalidQpHandle) (post_send_batch batch) ep = (ep1, x)"
      "\<exists>stats. (res, ep') = (case x of Inl e \<Rightarrow> (Inl e, ep1)
         | Inr _ \<Rightarrow> (Inr (length batch), (synchronize_qp i ep1)\<lparr>ep_stats := stats\<rparr>))"
proof (cases "(\<exists>e. res = Inl e \<and> ep' = ep) \<or> batch = []")
  case False
  then obtain i s where s: "qp_index ep h = Inr i" "qp_at ep i = Some s" "qp_state (machine s) = Rts"
    "length batch \<le> ring_remaining_capacity (send_queue s)" "length batch \<le> completion_room s"
    "first_error (\<lambda>work. validate_posted_work (ep_memory ep) work (mtu_bytes (path_mtu (qp_config (machine s))))) batch = Inr ()"
    using assms by (auto simp: post_work_batch_def not_less split: sum.splits option.splits if_splits) metis+
  obtain ep1 x where x: "on_slot i (Inl InvalidQpHandle) (post_send_batch batch) ep = (ep1, x)" by fastforce
  show thesis
    by (rule posted [OF _ s(2,4,5) x])
      (use assms False s x qp_index_slot [OF s(1)] in \<open>auto simp: post_work_batch_def Let_def split: sum.splits\<close>)
qed (use refused nothing assms in \<open>auto simp: post_work_batch_def\<close>)

lemma post_work_batch_accounts:
  assumes acc: "accounts L ep" and p: "post_work_batch h batch ep = (ep', res)"
  shows "accounts (case res of Inr _ \<Rightarrow> L(unat (handle_slot h) := post_ledger batch [] (L (unat (handle_slot h)))) | Inl _ \<Rightarrow> L) ep'"
  using p
proof (cases rule: post_work_batch_cases)
  case (posted i s ep1 x)
  have "posts (post_send_batch batch) batch [] (borrowed s ep)" using posted(3,4) by (intro post_send_batch_posts) simp_all
  from on_slot_posts [OF acc posted(2) this posted(5)] show ?thesis
    using posted(1,6) by (auto split: sum.splits intro: synchronize_accounts)
qed (use acc in \<open>simp_all add: post_ledger_def\<close>)

lemma post_receive_batch_cases:
  assumes "post_receive_batch h batch ep = (ep', res)"
  obtains (refused) e where "res = Inl e" "ep' = ep"
  | (nothing) "batch = []" "res = Inr 0" "ep' = ep"
  | (posted) i s ep1 x where "i = unat (handle_slot h)" "qp_at ep i = Some s"
      "length batch \<le> ring_remaining_capacity (receive_queue s)" "length batch \<le> completion_room s"
      "on_slot i (Inl InvalidQpHandle) (post_recv_batch batch) ep = (ep1, x)"
      "\<exists>stats. (res, ep') = (case x of Inl e \<Rightarrow> (Inl e, ep1) | Inr _ \<Rightarrow> (Inr (length batch), ep1\<lparr>ep_stats := stats\<rparr>))"
proof (cases "(\<exists>e. res = Inl e \<and> ep' = ep) \<or> batch = []")
  case False
  then obtain i s where s: "qp_index ep h = Inr i" "qp_at ep i = Some s" "qp_state (machine s) \<in> {Rtr, Rts, Sqd, Sqe}"
    "length batch \<le> ring_remaining_capacity (receive_queue s)" "length batch \<le> completion_room s"
    "first_error (validate_receive (ep_memory ep)) batch = Inr ()"
    using assms by (auto simp: post_receive_batch_def not_less split: sum.splits option.splits if_splits) metis+
  obtain ep1 x where x: "on_slot i (Inl InvalidQpHandle) (post_recv_batch batch) ep = (ep1, x)" by fastforce
  show thesis
    by (rule posted [OF _ s(2,4,5) x])
      (use assms False s x qp_index_slot [OF s(1)] in \<open>auto simp: post_receive_batch_def Let_def split: sum.splits\<close>)
qed (use refused nothing assms in \<open>auto simp: post_receive_batch_def\<close>)

lemma post_receive_batch_accounts:
  assumes acc: "accounts L ep" and p: "post_receive_batch h batch ep = (ep', res)"
  shows "accounts (case res of Inr _ \<Rightarrow> L(unat (handle_slot h) := post_ledger [] batch (L (unat (handle_slot h)))) | Inl _ \<Rightarrow> L) ep'"
  using p
proof (cases rule: post_receive_batch_cases)
  case (posted i s ep1 x)
  have "posts (post_recv_batch batch) [] batch (borrowed s ep)" using posted(3,4) by (intro post_recv_batch_posts) simp_all
  from on_slot_posts [OF acc posted(2) this posted(5)] show ?thesis
    using posted(1,6) by (auto split: sum.splits)
qed (use acc in \<open>simp_all add: post_ledger_def\<close>)

section \<open>Polling\<close>

definition poll_ledger :: "Completion list \<Rightarrow> ledger \<Rightarrow> ledger" where
  "poll_ledger cs l = l\<lparr>polled := polled l @ cs\<rparr>"

lemma completions_taken:
  assumes inv: "rc_inv others st" "settled l (the_slot st)"
    and q: "ring_list (completion_queue (the_slot st)) = cs @ ring_list q" "ring_inv q"
      "ring_capacity q = ring_capacity (completion_queue (the_slot st))"
  shows "rc_inv others (st\<lparr>the_slot := (the_slot st)\<lparr>completion_queue := q\<rparr>\<rparr>)"
    "settled (poll_ledger cs l) ((the_slot st)\<lparr>completion_queue := q\<rparr>)"
proof -
  let ?s = "(the_slot st)\<lparr>completion_queue := q\<rparr>"
  have same: "works ?s = works (the_slot st)" "receives ?s = receives (the_slot st)" "slot_leases ?s = slot_leases (the_slot st)"
    by (simp_all add: works_def receives_def slot_leases_def)
  have "length (ring_list q) \<le> length (ring_list (completion_queue (the_slot st)))" by (subst q(1)) (simp del: length_ring_list)
  then have "slot_inv ?s" using inv(1) q(2,3)
    by (simp add: rc_inv_def slot_inv_def slot_pre_def owed_def same queues_ok_def all_leased_def memory_held_def)
  then show "rc_inv others (st\<lparr>the_slot := ?s\<rparr>)" using inv(1) by (simp add: rc_inv_def same)
  have "polled (poll_ledger cs l) @ ring_list (completion_queue ?s) = polled l @ ring_list (completion_queue (the_slot st))"
    "posted_sends (poll_ledger cs l) = posted_sends l" "posted_recvs (poll_ledger cs l) = posted_recvs l"
    by (simp_all add: poll_ledger_def q(1))
  then show "settled (poll_ledger cs l) ?s" using inv(2) unfolding settled_def same by presburger
qed

lemma pop_completion_books:
  assumes inv: "rc_inv others st" "settled l (the_slot st)" and p: "pop_completion st = (st', c)"
  shows "rc_inv others st' \<and> settled (poll_ledger (case c of None \<Rightarrow> [] | Some x \<Rightarrow> [x]) l) (the_slot st')"
proof -
  obtain q where q: "ring_pop (completion_queue (the_slot st)) = (q, c)"
    and st': "st' = st\<lparr>the_slot := (the_slot st)\<lparr>completion_queue := q\<rparr>\<rparr>"
    using p by (auto simp: pop_completion_def split: prod.splits)
  have r: "ring_inv (completion_queue (the_slot st))"
    using inv by (simp add: rc_inv_def slot_inv_def slot_pre_def queues_ok_def)
  have "ring_list (completion_queue (the_slot st)) = (case c of None \<Rightarrow> [] | Some x \<Rightarrow> [x]) @ ring_list q \<and> ring_inv q \<and>
      ring_capacity q = ring_capacity (completion_queue (the_slot st))"
    using ring.pop_nothing [OF r, of q] ring.pop_oldest [OF r, of q] q by (cases c) simp_all
  then show ?thesis using completions_taken [OF inv] unfolding st' by simp
qed

lemma pop_completions_books:
  assumes "rc_inv others st" "settled l (the_slot st)" "pop_completions n st = (st', cs)"
  shows "rc_inv others st' \<and> settled (poll_ledger cs l) (the_slot st')"
  using assms
proof (induction n arbitrary: st l cs)
  case (Suc n)
  obtain st1 c where 1: "pop_completion st = (st1, c)" by fastforce
  note b = pop_completion_books [OF Suc.prems(1,2) 1]
  show ?case
  proof (cases c)
    case None
    then show ?thesis using b 1 Suc.prems(3) by simp
  next
    case (Some x)
    then obtain cs' where r: "pop_completions n st1 = (st', cs')" "cs = x # cs'"
      using Suc.prems(3) 1 by (auto split: prod.splits)
    then show ?thesis using Suc.IH [of st1 "poll_ledger [x] l" cs'] b Some by (simp add: poll_ledger_def)
  qed
qed (simp add: poll_ledger_def)

lemma poll_completion_accounts:
  assumes acc: "accounts L ep" and p: "poll_completion h ep = (ep', res)"
  shows "accounts (case res of
      Inr (Some c) \<Rightarrow> L(unat (handle_slot h) := poll_ledger [c] (L (unat (handle_slot h)))) | _ \<Rightarrow> L) ep'"
proof (cases "qp_index ep h")
  case (Inl e)
  then show ?thesis using acc p by (auto simp: poll_completion_def)
next
  case (Inr i)
  obtain s where s: "i = unat (handle_slot h)" "qp_at ep i = Some s" using qp_index_slot [OF Inr] by blast
  obtain st c where c: "pop_completion (borrowed s ep) = (st, c)" by fastforce
  let ?f = "\<lambda>st. let (st, c) = pop_completion st in (st, Inr c :: ApiError + _)"
  have "accounts (L(i := poll_ledger (case c of None \<Rightarrow> [] | Some x \<Rightarrow> [x]) (L i))) (fst (on_slot i (Inl InvalidQpHandle) ?f ep))"
    by (rule on_slot_ledger [OF acc s(2)]) (use c pop_completion_books in fastforce)
  moreover have "res = Inr c" using p c s Inr by (auto simp: poll_completion_def on_slot_def borrowed_def)
  ultimately show ?thesis using p Inr s(1) by (cases c) (simp_all add: poll_completion_def poll_ledger_def)
qed

lemma poll_completions_accounts:
  assumes acc: "accounts L ep" and p: "poll_completions h n ep = (ep', res)"
  shows "accounts (case res of
      Inr cs \<Rightarrow> L(unat (handle_slot h) := poll_ledger cs (L (unat (handle_slot h)))) | _ \<Rightarrow> L) ep'"
proof (cases "qp_index ep h")
  case (Inl e)
  then show ?thesis using acc p by (auto simp: poll_completions_def)
next
  case (Inr i)
  obtain s where s: "i = unat (handle_slot h)" "qp_at ep i = Some s" using qp_index_slot [OF Inr] by blast
  obtain st cs where c: "pop_completions n (borrowed s ep) = (st, cs)" by fastforce
  let ?f = "\<lambda>st. let (st, c) = pop_completions n st in (st, Inr c :: ApiError + _)"
  have "accounts (L(i := poll_ledger cs (L i))) (fst (on_slot i (Inl InvalidQpHandle) ?f ep))"
    by (rule on_slot_ledger [OF acc s(2)]) (use c pop_completions_books in fastforce)
  moreover have "res = Inr cs" using p c s Inr by (auto simp: poll_completions_def on_slot_def borrowed_def)
  ultimately show ?thesis using p Inr s(1) by (simp add: poll_completions_def)
qed


section \<open>The data path\<close>

lemma handle_packet_keeps: "keeps (handle_packet now tps packet)"
  by (rule keepsI) (auto simp: handle_packet_def split: if_splits
    intro: handle_request_packet_keeps handle_response_packet_keeps)

lemma process_incoming_accounts:
  assumes acc: "accounts L ep" and p: "process_incoming now decoded ep = (ep', res)"
  shows "accounts L ep'"
proof -
  obtain ep1 x where x: "process_incoming_state now decoded ep = (ep1, x)" by fastforce
  have "accounts L ep1"
    using x acc
    by (auto simp: process_incoming_state_def Let_def split: option.splits if_splits prod.splits
      intro: on_slot_keeps_pair [OF handle_packet_keeps])
  then show ?thesis
    using p x by (auto simp: process_incoming_def split: sum.splits ApiError.splits intro: synchronize_accounts)
qed

lemma record_accounts [simp]:
  "accounts L (record_invalid_drop ep) = accounts L ep" "accounts L (record_io_error ep) = accounts L ep"
  "accounts L (record_control_transmit reply ep) = accounts L ep"
  by (simp_all add: record_invalid_drop_def record_io_error_def record_control_transmit_def Let_def)

lemma receive_one_accounts: "accounts L ep \<Longrightarrow> receive_one ops buffer ep = (ep', res) \<Longrightarrow> accounts L ep'"
  by (auto simp: receive_one_def Let_def split: prod.splits sum.splits option.splits if_splits)

lemma transmit_packet_accounts: "accounts L ep \<Longrightarrow> transmit_packet ops path spec output ep = (ep', res) \<Longrightarrow> accounts L ep'"
  by (auto simp: transmit_packet_def Let_def split: prod.splits sum.splits if_splits)

lemma transmit_pending_control_accounts:
  "accounts L ep \<Longrightarrow> transmit_pending_control ops output ep = (ep', res) \<Longrightarrow> accounts L ep'"
  by (auto simp: transmit_pending_control_def transmit_control_def split: prod.splits sum.splits option.splits
    dest: transmit_packet_accounts)

lemma active_map_keeps:
  assumes "\<And>a. ar_work (g a) = ar_work a"
  shows "rc_keeps others st (st\<lparr>the_slot := (the_slot st)\<lparr>active_request := map_option g (active_request (the_slot st))\<rparr>\<rparr>) 0"
  by (rule rc_keeps_frame; use assms in \<open>simp add: slot_inv_def slot_pre_def memory_held_def queues_ok_def
    all_leased_def owed_def works_def receives_def slot_leases_def option.map_comp comp_def\<close>)

lemma timer_action_keeps: "keeps (timer_action action)"
proof (rule keepsI)
  fix others st st' x
  assume t: "timer_action action st = (st', x)"
  show "\<exists>n. rc_keeps others st st' n"
  proof (cases action)
    case Sending
    then have "rc_keeps others st st' 0"
      using t active_map_keeps [of "\<lambda>active. active\<lparr>ar_timer := timer_cancel (ar_timer active)\<rparr>" others st] by auto
    then show ?thesis by blast
  next
    case Waiting
    let ?st = "st\<lparr>the_stats := (the_stats st)\<lparr>st_timeout_events := bump (st_timeout_events (the_stats st))\<rparr>\<rparr>"
    obtain st1 retry where r: "schedule_transport_retry ?st = (st1, retry)" by fastforce
    then have "rc_keeps others st st1 (hr_completions retry)"
      using schedule_transport_retry_keeps [OF r, of others] by (simp add: rc_keeps_stats)
    moreover have "st' = st1" using t Waiting r by (simp add: Let_def)
    ultimately show ?thesis by blast
  next
    case RnrWait
    show ?thesis
    proof (cases "active_request (the_slot st)")
      case None
      then show ?thesis using t RnrWait by (intro exI [where x = 0]) simp
    next
      case (Some active)
      have "rc_keeps others st (st\<lparr>the_slot := (the_slot st)\<lparr>active_request := Some (reset_for_retry active)\<rparr>\<rparr>) 0"
        using active_update_keeps(2) [OF Some] by (simp add: reset_for_retry_def)
      then have "rc_keeps others st st' 0" using t RnrWait Some by (auto simp: Let_def rc_keeps_stats_after)
      then show ?thesis by blast
    qed
  qed
qed

lemma keeps_map: "keeps f \<Longrightarrow> keeps (\<lambda>st. let (st, x) = f st in (st, g x))"
  by (simp add: keeps_def Let_def case_prod_unfold)

lemma service_timer_accounts:
  assumes acc: "accounts L ep" and t: "service_timer now entry ep = (ep', res)"
  shows "accounts L ep'"
proof (cases "Option.bind (qp_at ep (unat (te_slot entry))) (expired_phase now entry)")
  case None
  then show ?thesis using t acc by (auto simp: service_timer_def Let_def intro: synchronize_accounts)
next
  case (Some action)
  obtain ep1 x where x: "on_slot (unat (te_slot entry)) None (\<lambda>st. let (st, x) = timer_action action st in (st, Some x)) ep = (ep1, x)"
    by fastforce
  have "accounts L ep1" by (rule on_slot_keeps_pair [OF keeps_map [OF timer_action_keeps] acc x])
  then show ?thesis using t Some x synchronize_accounts [of L ep1] by (auto simp: service_timer_def Let_def)
qed

lemma service_timers_loop_accounts:
  assumes "service_timers_loop now budget counts ep = Some y" "accounts L ep"
  shows "accounts L (fst y)"
proof -
  have "accounts L ep \<longrightarrow> accounts L (fst y)"
  proof (rule service_timers_loop.raw_induct [where P = "\<lambda>now budget counts ep y. accounts L ep \<longrightarrow> accounts L (fst y)", OF _ assms(1)])
    fix loop :: "u64 \<Rightarrow> nat \<Rightarrow> usize \<times> usize \<Rightarrow> 'a RcEndpoint \<Rightarrow> ('a RcEndpoint \<times> usize \<times> usize) option"
    fix now budget counts ep y
    assume IH: "\<And>now budget counts ep y. loop now budget counts ep = Some y \<Longrightarrow> accounts L ep \<longrightarrow> accounts L (fst y)"
      and body: "(if budget = 0 then Some (ep, counts)
      else case pop_expired (timer_scheduler ep) now of
        (timers, None) \<Rightarrow> Some (ep\<lparr>timer_scheduler := timers\<rparr>, counts)
      | (timers, Some entry) \<Rightarrow>
        (case service_timer now entry (ep\<lparr>timer_scheduler := timers\<rparr>) of
           (ep, None) \<Rightarrow> loop now budget counts ep
         | (ep, Some (completions, retransmissions)) \<Rightarrow>
             loop now (budget - 1) (fst counts + completions, snd counts + retransmissions) ep)) = Some y"
    show "accounts L ep \<longrightarrow> accounts L (fst y)"
      using body
      by (auto split: if_splits prod.splits option.splits dest!: IH service_timer_accounts [where L = L, rotated])
  qed
  then show ?thesis using assms(2) by blast
qed

lemma service_timers_accounts:
  "accounts L ep \<Longrightarrow> service_timers now budget ep = Some (ep', counts) \<Longrightarrow> accounts L ep'"
  by (auto simp: service_timers_def dest: service_timers_loop_accounts)

lemma responder_unscheduled_keeps:
  "keeps (\<lambda>st. let s = (the_slot st)\<lparr>responder_scheduled := False\<rparr> in (st\<lparr>the_slot := s\<rparr>, ready_read_response i s))"
proof (rule keepsI)
  fix others x and st st' :: rc_state
  assume "(let s = (the_slot st)\<lparr>responder_scheduled := False\<rparr> in (st\<lparr>the_slot := s\<rparr>, ready_read_response i s)) = (st', x)"
  then have "st' = st\<lparr>the_slot := (the_slot st)\<lparr>responder_scheduled := False\<rparr>\<rparr>" by (auto simp: Let_def)
  then have "rc_keeps others st st' 0" by (auto intro!: rc_keeps_frame simp: works_def receives_def)
  then show "\<exists>n. rc_keeps others st st' n" by blast
qed

lemma dequeue_read_response_accounts:
  assumes "dequeue_read_response ep = Some y" "accounts L ep"
  shows "accounts L (fst y)"
proof -
  have "accounts L ep \<longrightarrow> accounts L (fst y)"
  proof (rule dequeue_read_response.raw_induct [where P = "\<lambda>ep y. accounts L ep \<longrightarrow> accounts L (fst y)", OF _ assms(1)])
    fix loop :: "'a RcEndpoint \<Rightarrow> ('a RcEndpoint \<times> ReadyReadResponse option) option" and ep y
    assume IH: "\<And>ep y. loop ep = Some y \<Longrightarrow> accounts L ep \<longrightarrow> accounts L (fst y)"
      and body: "(case ready_pop (responder_ready ep) of
        (q, None) \<Rightarrow> Some (ep\<lparr>responder_ready := q\<rparr>, None)
      | (q, Some i) \<Rightarrow>
        (case on_slot i None (\<lambda>st. let s = (the_slot st)\<lparr>responder_scheduled := False\<rparr>
                 in (st\<lparr>the_slot := s\<rparr>, ready_read_response i s)) (ep\<lparr>responder_ready := q\<rparr>) of
           (ep, Some ready) \<Rightarrow> Some (ep, Some ready)
         | (ep, None) \<Rightarrow> loop (synchronize_qp i ep))) = Some y"
    obtain q x where q: "ready_pop (responder_ready ep) = (q, x)" by fastforce
    show "accounts L ep \<longrightarrow> accounts L (fst y)"
    proof (cases x)
      case None
      then show ?thesis using body q by auto
    next
      case (Some i)
      obtain ep1 z where z: "on_slot i None (\<lambda>st. let s = (the_slot st)\<lparr>responder_scheduled := False\<rparr>
                 in (st\<lparr>the_slot := s\<rparr>, ready_read_response i s)) (ep\<lparr>responder_ready := q\<rparr>) = (ep1, z)" by fastforce
      have "accounts L ep1" if "accounts L ep"
        by (rule on_slot_keeps_pair [OF responder_unscheduled_keeps _ z]) (use that in simp)
      then show ?thesis using body q Some z IH [of "synchronize_qp i ep1" y] synchronize_accounts [of L ep1 i] by (cases z) auto
    qed
  qed
  then show ?thesis using assms(2) by blast
qed


lemma enter_error_keeps: "keeps enter_error"
proof (rule keepsI)
  fix others st st' x
  assume e: "enter_error st = (st', x)"
  have "rc_keeps others st st' x"
    using enter_error_all(1,2) [OF _ e, where E = "{#}"] emptied_owns by (intro rc_keeps_step) (auto simp: rc_inv_pre)
  then show "\<exists>n. rc_keeps others st st' n" by blast
qed

lemma fail_read_responder_accounts:
  assumes "accounts L ep" "fail_read_responder i ep = (ep', res)"
  shows "accounts L ep'"
proof -
  obtain ep1 n where n: "on_slot i 0 enter_error ep = (ep1, n)" by fastforce
  from on_slot_keeps_pair [OF enter_error_keeps assms(1) n] have "accounts L (synchronize_qp i ep1)"
    by (rule synchronize_accounts)
  then show ?thesis using assms(2) n by (auto simp: fail_read_responder_def)
qed

lemma advance_read_slot_keeps: "keeps (\<lambda>st. (advance_read_slot st, Inr () :: ApiError + unit))"
proof (rule keepsI)
  fix others st st' x
  assume "(advance_read_slot st, Inr () :: ApiError + unit) = (st', x)"
  then have st': "st' = advance_read_slot st" by simp
  show "\<exists>n. rc_keeps others st st' n"
  proof (cases "read_response (the_slot st)")
    case None
    then show ?thesis by (intro exI [where x = 0]) (simp add: st' advance_read_slot_def)
  next
    case (Some active)
    have inv: "rc_keeps others st (st\<lparr>the_slot := (the_slot st)\<lparr>read_response := Some active'\<rparr>\<rparr>) 0" for active'
      by (rule rc_keeps_frame; use Some in \<open>simp add: slot_inv_def slot_pre_def memory_held_def queues_ok_def
        all_leased_def owed_def works_def receives_def slot_leases_def\<close>)
    have "rc_keeps others st (release_read (st\<lparr>the_slot := (the_slot st)\<lparr>read_response := None\<rparr>\<rparr>)) 0"
    proof (rule rc_keeps_step)
      let ?st = "st\<lparr>the_slot := (the_slot st)\<lparr>read_response := None\<rparr>\<rparr>"
      assume rc: "rc_inv others st"
      have "rc_step others {#} st {#} ?st 0"
        by (rule rc_step_frame) (simp_all add: slot_pre_def queues_ok_def all_leased_def owed_def works_def receives_def slot_leases_def)
      then show "rc_step others {#} st {#} (release_read ?st) 0" using rc_step_trans [OF _ release_step(2)] by fastforce
      have "rc_pre {#} others ?st"
        using rc by (simp add: rc_inv_pre rc_pre_def slot_pre_def queues_ok_def all_leased_def owed_def works_def receives_def slot_leases_def)
      then have "read_memory (the_slot (release_read ?st)) = None" by (simp add: rc_pre_release_read)
      then show "memory_held (the_slot (release_read ?st))"
        using rc by (auto simp: rc_inv_pre memory_held_def release_read_def split: prod.splits)
    qed
    then show ?thesis using inv by (intro exI [where x = 0]) (simp add: st' advance_read_slot_def Some Let_def)
  qed
qed


lemma advance_read_response_accounts:
  assumes "accounts L ep" "advance_read_response i ep = (ep', res)"
  shows "accounts L ep'"
proof -
  obtain ep1 x where x: "on_slot i (Inl InvalidQpHandle) (\<lambda>st. (advance_read_slot st, Inr ())) ep = (ep1, x)" by fastforce
  from on_slot_keeps_pair [OF advance_read_slot_keeps assms(1) x] have "accounts L ep1" .
  then show ?thesis using assms(2) x synchronize_accounts [of L ep1 i] by (cases x) (auto simp: advance_read_response_def)
qed

lemma emit_ready_response_accounts:
  assumes acc: "accounts L ep" and e: "emit_ready_response ops output ready ep = (ep', res)"
  shows "accounts L ep'"
proof (cases "read_response_segment (rd_response ready) (rd_mtu ready)")
  case (Inl x)
  then show ?thesis using acc e by (auto simp: emit_ready_response_def intro: synchronize_accounts)
next
  case (Inr seg)
  obtain address len where seg: "seg = (address, len)" by fastforce
  show ?thesis
  proof (cases "read_remote (ep_memory ep) (ep_store ep) (rr_rkey (rd_response ready)) address len")
    case (Inl x)
    then show ?thesis using acc e Inr seg
      by (auto simp: emit_ready_response_def split: prod.splits dest: fail_read_responder_accounts)
  next
    case payload: (Inr payload)
    obtain ep1 x where x: "transmit_packet ops (rd_path ready) (read_response_packet ready payload) output ep = (ep1, x)" by fastforce
    have "accounts L ep1" by (rule transmit_packet_accounts [OF acc x])
    then show ?thesis using e Inr seg payload x advance_read_response_accounts [of L ep1 "rd_index ready"]
      by (auto simp: emit_ready_response_def split: sum.splits prod.splits intro: synchronize_accounts)
  qed
qed

lemma emit_read_response_accounts:
  assumes acc: "accounts L ep" and e: "emit_read_response ops output ep = Some (ep', res)"
  shows "accounts L ep'"
proof -
  obtain ep1 ready where d: "dequeue_read_response ep = Some (ep1, ready)"
    using e by (auto simp: emit_read_response_def)
  have "accounts L ep1" using dequeue_read_response_accounts [OF d acc] by simp
  then show ?thesis using e d emit_ready_response_accounts [of L ep1] by (cases ready) (auto simp: emit_read_response_def)
qed

lemma fail_active_keeps_slot: "keeps (fail_active_and_error status)"
  by (rule keepsI) (use fail_active_keeps in blast)

lemma mark_sent_keeps: "keeps (\<lambda>st. (st\<lparr>the_slot := mark_request_packet_sent now ticks (the_slot st)\<rparr>, x))"
  by (rule keepsI) (auto intro: exI [where x = 0] mark_request_packet_sent_keeps)

lemma emit_request_packet_accounts:
  assumes acc: "accounts L ep" and e: "emit_request_packet ops now output i active s generated ep = (ep', res)"
  shows "accounts L ep'"
proof (cases "ack_timeout_ticks (timeout (qp_config (machine s))) (ticks_per_second (ep_config ep))")
  case None
  then show ?thesis using acc e by (auto simp: emit_request_packet_def)
next
  case (Some ticks)
  let ?build = "build_request_packet (ep_memory ep) (ep_store ep) active (mtu_bytes (path_mtu (qp_config (machine s))))
    (remote_qpn (qp_config (machine s)))"
  consider (overflow) "?build = Inl PacketOverflow" | (protection) "?build = Inl LocalProtection" | (built) spec where "?build = Inr spec"
    by (cases ?build rule: sum.exhaust; simp; metis RequestPacketError.exhaust)
  then show ?thesis
  proof cases
    case overflow
    then show ?thesis using acc e Some by (auto simp: emit_request_packet_def intro: synchronize_accounts)
  next
    case protection
    obtain ep1 x where x: "on_slot i None (\<lambda>st. let (st, n) = fail_active_and_error LocalProtectionError st in (st, Some n)) ep = (ep1, x)"
      by fastforce
    have "accounts L ep1" by (rule on_slot_keeps_pair [OF keeps_map [OF fail_active_keeps_slot] acc x])
    then show ?thesis using e Some protection x
      by (auto simp: emit_request_packet_def split: option.splits intro: synchronize_accounts)
  next
    case built
    obtain ep1 x where x: "transmit_packet ops (qs_path s) spec output ep = (ep1, x)" by fastforce
    have 1: "accounts L ep1" by (rule transmit_packet_accounts [OF acc x])
    obtain ep2 y where y: "on_slot i None (\<lambda>st. (st\<lparr>the_slot := mark_request_packet_sent now ticks (the_slot st)\<rparr>, Some ())) ep1 = (ep2, y)"
      by fastforce
    have "accounts L ep2" by (rule on_slot_keeps_pair [OF mark_sent_keeps 1 y])
    then show ?thesis using 1 e Some built x y
      by (auto simp: emit_request_packet_def split: option.splits sum.splits intro: synchronize_accounts)
  qed
qed


lemma start_next_keeps:
  "keeps (\<lambda>st. (st\<lparr>the_slot := start_next_request tps ((the_slot st)\<lparr>requester_scheduled := False\<rparr>)\<rparr>, ()))"
proof (rule keepsI)
  fix others x and st st' :: rc_state
  assume "(st\<lparr>the_slot := start_next_request tps ((the_slot st)\<lparr>requester_scheduled := False\<rparr>)\<rparr>, ()) = (st', x)"
  then have st': "st' = st\<lparr>the_slot := start_next_request tps ((the_slot st)\<lparr>requester_scheduled := False\<rparr>)\<rparr>" by simp
  have "rc_keeps others st (st\<lparr>the_slot := (the_slot st)\<lparr>requester_scheduled := False\<rparr>\<rparr>) 0"
    by (rule rc_keeps_frame) (simp_all add: works_def receives_def)
  from rc_keeps_trans [OF this start_next_request_keeps [of others _ tps]]
  show "\<exists>n. rc_keeps others st st' n" unfolding st' by (intro exI) simp
qed

lemma start_next_accounts:
  assumes "accounts L ep" "qp_at ep i = Some s"
  shows "accounts L (set_qp i (Some (start_next_request tps (s\<lparr>requester_scheduled := False\<rparr>))) ep)"
  by (rule accounts_frame [THEN iffD1, rotated 2, OF on_slot_accounts [OF assms(1) start_next_keeps [of tps], of i "()"]])
    (simp_all add: on_slot_def assms(2))

lemma emit_requester_step_accounts:
  assumes acc: "accounts L ep" and e: "emit_requester_step ops now output i generated ep = (ep', res)"
  shows "accounts L ep'"
proof (cases "qp_at ep i")
  case None
  then show ?thesis using acc e by (auto simp: emit_requester_step_def)
next
  case (Some s)
  let ?s = "start_next_request (ticks_per_second (ep_config ep)) (s\<lparr>requester_scheduled := False\<rparr>)"
  have 1: "accounts L (set_qp i (Some ?s) ep)" by (rule start_next_accounts [OF acc Some])
  show ?thesis
  proof (cases "\<exists>active. active_request ?s = Some active \<and> phase active = Sending")
    case True
    then show ?thesis using e Some emit_request_packet_accounts [OF 1] by (auto simp: emit_requester_step_def Let_def)
  next
    case False
    then show ?thesis using e Some synchronize_accounts [OF 1, of i]
      by (auto simp: emit_requester_step_def Let_def split: option.splits if_splits)
  qed
qed

lemma emit_requester_loop_accounts:
  fixes ep :: "'a RcEndpoint" and ops :: "('a, 'b) PacketIo"
  assumes "emit_requester_loop ops now output generated ep = Some y" "accounts L ep"
  shows "accounts L (fst y)"
proof -
  have "accounts L ep \<longrightarrow> accounts L (fst y)"
  proof (rule emit_requester_loop.raw_induct [where P = "\<lambda>ops now output generated ep y. accounts L ep \<longrightarrow> accounts L (fst y)", OF _ assms(1)])
    fix loop :: "('a, 'b) PacketIo \<Rightarrow> u64 \<Rightarrow> octets \<Rightarrow> usize \<Rightarrow> 'a RcEndpoint \<Rightarrow> ('a RcEndpoint \<times> ('b PollError + EmitResult)) option"
    fix ops now buf generated ep y
    assume IH: "\<And>ops now buf generated ep y. loop ops now buf generated ep = Some y \<Longrightarrow> accounts L ep \<longrightarrow> accounts L (fst y)"
      and body: "(case ready_pop (requester_ready ep) of
        (q, None) \<Rightarrow>
          Some (count_completions generated (ep\<lparr>requester_ready := q\<rparr>),
                Inr \<lparr>er_transmitted = False, er_completions = generated\<rparr>)
      | (q, Some i) \<Rightarrow>
        (case emit_requester_step ops now buf i generated (ep\<lparr>requester_ready := q\<rparr>) of
           (ep, Inl res) \<Rightarrow> Some (ep, res)
         | (ep, Inr generated) \<Rightarrow> loop ops now buf generated ep)) = Some y"
    obtain q x where q: "ready_pop (requester_ready ep) = (q, x)" by fastforce
    show "accounts L ep \<longrightarrow> accounts L (fst y)"
    proof (cases x)
      case None
      then show ?thesis using body q by auto
    next
      case (Some i)
      obtain ep1 z where z: "emit_requester_step ops now buf i generated (ep\<lparr>requester_ready := q\<rparr>) = (ep1, z)" by fastforce
      have "accounts L ep1" if "accounts L ep" by (rule emit_requester_step_accounts [OF _ z]) (use that in simp)
      then show ?thesis using body q Some z IH [of ops now buf _ ep1 y] by (cases z) auto
    qed
  qed
  then show ?thesis using assms(2) by blast
qed

lemma emit_data_class_accounts:
  "accounts L ep \<Longrightarrow> emit_data_class ops c now output ep = Some (ep', res) \<Longrightarrow> accounts L ep'"
  using emit_requester_loop_accounts [of ops now "output" 0 ep "(ep', res)" L] emit_read_response_accounts [of L ep ops "output" ep' res]
  by (cases c) (simp_all add: emit_requester_def)

lemma emit_data_packet_accounts:
  assumes acc: "accounts L ep" and e: "emit_data_packet ops now output ep = Some (ep', res)"
  shows "accounts L ep'"
proof -
  obtain ep1 x where x: "emit_data_class ops (next_data_tx_class ep) now output ep = Some (ep1, x)"
    using e by (cases "emit_data_class ops (next_data_tx_class ep) now output ep") (auto simp: emit_data_packet_def)
  have 1: "accounts L ep1" by (rule emit_data_class_accounts [OF acc x])
  then show ?thesis using e x emit_data_class_accounts [OF 1]
    by (auto simp: emit_data_packet_def Let_def split: sum.splits if_splits option.splits)
qed

lemma progress_emit_accounts:
  "accounts L ep \<Longrightarrow> progress_emit ops now output progress ep = Some (ep', res) \<Longrightarrow> accounts L ep'"
  by (auto simp: progress_emit_def dest: emit_data_packet_accounts)


lemma progress_receive_accounts:
  assumes acc: "accounts L ep" and e: "progress_receive ops now decoded output progress ep = Some (ep', res)"
  shows "accounts L ep'"
proof -
  obtain ep1 x where x: "process_incoming now decoded ep = (ep1, x)" by fastforce
  have 1: "accounts L ep1" by (rule process_incoming_accounts [OF acc x])
  consider (failed) err where "x = Inl err" | (ignored) "x = Inr None" | (handled) h where "x = Inr (Some h)" by (metis option.exhaust sum.exhaust)
  then show ?thesis
  proof cases
    case failed
    then show ?thesis using e x 1 by (auto simp: progress_receive_def)
  next
    case ignored
    then show ?thesis using e x progress_emit_accounts [OF 1] by (auto simp: progress_receive_def)
  next
    case handled
    show ?thesis
    proof (cases "hr_reply h")
      case None
      then show ?thesis using e x handled progress_emit_accounts [OF 1] by (auto simp: progress_receive_def Let_def)
    next
      case (Some reply)
      obtain ep2 y where y: "transmit_pending_control ops output
          (ep1\<lparr>pending_control := fst (ring_push (pending_control ep1) reply)\<rparr>) = (ep2, y)" by fastforce
      have 2: "accounts L ep2" by (rule transmit_pending_control_accounts [OF _ y]) (use 1 in simp)
      show ?thesis using e x handled Some y 2 progress_emit_accounts [OF 2]
        by (auto simp: progress_receive_def Let_def split: sum.splits bool.splits)
    qed
  qed
qed

lemma rc_progress_accounts:
  assumes acc: "accounts L ep" and e: "rc_progress ops now rx tx ep = Some (ep', res)"
  shows "accounts L ep'"
proof (cases "validate_poll_buffers rx tx ep")
  case (Inl err)
  then show ?thesis using acc e by (auto simp: rc_progress_def)
next
  case (Inr u)
  then obtain ep1 c1 c2 where t: "service_timers now 1 ep = Some (ep1, c1, c2)"
    using e by (auto simp: rc_progress_def split: option.splits)
  have 1: "accounts L ep1" by (rule service_timers_accounts [OF acc t])
  obtain ep2 x where x: "transmit_pending_control ops tx ep1 = (ep2, x)" by fastforce
  have 2: "accounts L ep2" by (rule transmit_pending_control_accounts [OF 1 x])
  obtain ep3 y where y: "receive_one ops rx ep2 = (ep3, y)" by fastforce
  have 3: "accounts L ep3" by (rule receive_one_accounts [OF 2 y])
  show ?thesis
    using e Inr t x y 2 3 progress_emit_accounts [OF 3] progress_receive_accounts [OF 3]
    by (auto simp: rc_progress_def Let_def split: sum.splits bool.splits ReceiveOne.splits)
qed

end
