(* ===== verification/Spec2Isabelle.thy ===== *)
theory Spec2Isabelle
  imports Core_Ack Core_Ring Core_Qp Core_Retry Core_Segment Core_Shard Core_Qpn Core_Ready Core_Timer
    Mem_Lease Api_Packet Api_Connection Rc_Read Rc_Accounts
begin

text \<open>
  Verification of \<open>rocev2-rs\<close>, a user-space implementation of the RoCEv2
  Reliable Connected transport.

  Plan of the library: \<open>Prelude\<close> (vocabulary), the transport core
  (\<open>Core_*\<close>), the wire formats (\<open>Wire_*\<close>), the memory registry (\<open>Mem_*\<close>) and the
  Reliable Connected engine (\<open>Rc_*\<close>), each theory named after the part of the
  sources it models.
\<close>


section \<open>RDMA WRITE from memory to memory\<close>

text \<open>
  C1: An RDMA WRITE copies memory to memory.  The requester starts the request at the head
  of its send queue, builds its packets from its registered memory, and each is encoded and
  carried by a network that may lose, duplicate and reorder packets (\<open>arrivals\<close> is the
  sequence of packet indices that get through); the receiver decodes and handles what
  arrives.  If the two sides agree on the starting PSN and the MTU and the responder's region
  grants the access, then every packet decodes, the responder's memory is its old memory
  overwritten from the remote address on by exactly the segments that arrived in order, and
  it is overwritten by the whole source buffer as soon as all packets have arrived once in
  order.
\<close>

theorem rdma_write_end_to_end:
  assumes responder: "rc_inv others st" and requester: "registry_inv r"
    and start: "active_request s = None" "active_request (start_next_request tps s) = Some active"
    and work: "wr_kind (ar_work active) = WrRdmaWrite address rkey"
      "read_local r mem (sge_lkey (wr_sge (ar_work active))) (sge_address (wr_sge (ar_work active)))
         (unat (sge_length (wr_sge (ar_work active)))) = Inr bs"
    and mtu: "path_mtu (qp_config (machine s)) = m" and qpn: "qpn \<le> QPN_MASK"
    and psn: "next_to_send (send_window s) = psn_of f"
    and ready: "write_ready \<lparr>wm_address = address, wm_rkey = rkey, wm_data = bs, wm_psn = f, wm_mtu = mtu_bytes m\<rparr> st"
    and arrivals: "list_all (\<lambda>i. i < unat (packet_count_of active)) arrivals"
  shows "let pkt = sent_packet r mem active m qpn path; k = in_order 0 arrivals;
      st' = deliver_all respond (map (\<lambda>i. (i, the (pkt i))) arrivals) st
    in list_all (\<lambda>i. pkt i \<noteq> None) arrivals \<and>
      the_store st' = write_bytes (the_store st) address (take (k * mtu_bytes m) bs) \<and>
      (subseq [0..<unat (packet_count_of active)] arrivals \<longrightarrow>
         the_store st' = write_bytes (the_store st) address bs)"
proof -
  let ?m = "\<lparr>wm_address = address, wm_rkey = rkey, wm_data = bs, wm_psn = f, wm_mtu = mtu_bytes m\<rparr>"
  let ?pkt = "sent_packet r mem active m qpn path"
  let ?ds = "map (\<lambda>i. (i, the (?pkt i))) arrivals"
  note act = start_next_request_active(1,2) [OF start]
  have len: "length bs = unat (sge_length (wr_sge (ar_work active)))"
    by (rule read_local_part(3) [OF requester work(2), of 0 0]) simp
  have n: "unat (packet_count_of active) = wm_segments ?m"
    using act(2) packet_count_segs [of "mtu_bytes m"] by (simp add: mtu wm_segments_def len)
  have seg: "?pkt i \<noteq> None \<and> write_segment ?m i (the (?pkt i))" if "i < wm_segments ?m" for i
  proof -
    have "i < segs (unat (sge_length (wr_sge (ar_work active)))) (mtu_bytes m)" using that by (simp add: wm_segments_def len)
    from sent_packet_segment [OF requester refl act(1) [unfolded psn] act(2) [unfolded mtu] this qpn work(2)]
    obtain pkt where "?pkt i = Some pkt" "request_segment (ar_work active) bs f (mtu_bytes m) i pkt"
      by (auto simp: work(1))
    then show ?thesis by (simp add: request_segment_def work(1))
  qed
  have ds: "list_all (\<lambda>(i, pkt). i < wm_segments ?m \<and> write_segment ?m i pkt) ?ds"
    using arrivals seg by (auto simp: list_all_iff n)
  have "write_progress others st ?m (in_order 0 arrivals) (deliver_all respond ?ds st)"
    using write_rx.prefix_held [OF write_progress_start [OF responder ready] _ ds] by (simp add: comp_def)
  then have store: "the_store (deliver_all respond ?ds st) =
      write_bytes (the_store st) address (take (in_order 0 arrivals * mtu_bytes m) bs)"
    by (simp add: write_progress_def)
  have "in_order 0 arrivals = wm_segments ?m" if "subseq [0..<wm_segments ?m] arrivals"
    using in_order_complete [of 0 "wm_segments ?m" arrivals] arrivals that by (simp add: n)
  moreover have "take (wm_segments ?m * mtu_bytes m) bs = bs"
    using segs_cover [of "mtu_bytes m" "length bs"] by (simp add: wm_segments_def)
  moreover have "list_all (\<lambda>i. ?pkt i \<noteq> None) arrivals" using arrivals seg by (auto simp: list_all_iff n)
  ultimately show ?thesis using store unfolding Let_def n by simp
qed

definition sample_sender :: RcQpSlot where
  "sample_sender = (sample_qp [])\<lparr>send_window := send_window_new (Psn 9), send_queue :=
     fst (ring_push (ring_new 2) \<lparr>posted_work = sample_work\<lparr>wr_kind := WrRdmaWrite 4096 2631693420\<rparr>, posted_lease = None\<rparr>)\<rparr>"

lemma sample_sender_fields:
  "active_request sample_sender = None" "can_send (machine sample_sender)" "path_mtu (qp_config (machine sample_sender)) = Mtu256"
  "next_to_send (send_window sample_sender) = Psn 9"
  "reserve_many (send_window sample_sender) 1 = (\<lparr>oldest_unacknowledged = Psn 9, next_to_send = Psn 10\<rparr>, Some (Psn 9))"
  "retry_policy_new (retry_count (qp_config (machine sample_sender))) (rnr_retry_count (qp_config (machine sample_sender))) t =
     Some \<lparr>policy_retry_count = 3, policy_rnr_retry_count = 3, timeout_ticks = t\<rparr>"
  by (simp_all add: sample_sender_def sample_qp_def sample_config_def can_send_def reserve_many_def send_window_new_def outstanding_def
    MAX_OUTSTANDING_PACKETS_def retry_policy_new_def MAX_RETRY_CODE_def PSN_MODULUS_def forward_distance_from_def wrapping_add_def
    new_truncated_def PSN_MASK_def)

theorem rdma_write_end_to_end_witness:
  "let active = the (active_request (start_next_request 1000 sample_sender));
       pkt = sent_packet (sample_live 1) (\<lambda>_. 7) active Mtu256 17 sample_path;
       st' = deliver_all respond (map (\<lambda>i. (i, the (pkt i))) [0, 0]) sample_state
   in the_store st' = write_bytes (\<lambda>_. 0) 4096 [7, 7, 7]"
proof -
  let ?work = "sample_work\<lparr>wr_kind := WrRdmaWrite 4096 2631693420\<rparr>"
  let ?s = "start_next_request 1000 sample_sender"
  have count: "packet_count 3 256 = 1"
    by (simp add: packet_count_def u64_try_from_def u32_try_from_def div_ceil_def unat_of_nat)
  have ready: "write_ready \<lparr>wm_address = 4096, wm_rkey = 2631693420, wm_data = [7, 7, 7], wm_psn = 9, wm_mtu = 256\<rparr> sample_state"
    using sample_write_ready by (simp add: write_ready_def wm_segments_def sample_wm_def)
  obtain active where active: "active_request ?s = Some active" "ar_work active = ?work" "packet_count_of active = 1"
  proof -
    have "ring_front (send_queue sample_sender) = Some \<lparr>posted_work = ?work, posted_lease = None\<rparr>"
      "ring_pop (send_queue sample_sender) =
        (\<lparr>ring_slots = [None, None], ring_head = 1, ring_tail = 1, ring_len = 0\<rparr>, Some \<lparr>posted_work = ?work, posted_lease = None\<rparr>)"
      by (simp_all add: sample_sender_def ring_front_def ring_pop_def ring_push_def ring_new_def ring_capacity_def ring_is_full_def
        ring_is_empty_def numeral_2_eq_2)
    then have "\<exists>active. active_request ?s = Some active \<and> ar_work active = ?work \<and> packet_count_of active = 1"
      using count
      by (simp add: start_next_request_def sample_sender_fields sample_work_def Let_def)
    then show thesis using that by blast
  qed
  show ?thesis
    using rdma_write_end_to_end [OF sample_state_inv sample_registry_inv(2) _ active(1), of 4096 2631693420 "\<lambda>_. 7" "[7, 7, 7]" Mtu256 17 9 "[0, 0]"
      sample_path] sample_read [of 7] ready
    by (simp add: active Let_def sample_sender_fields sample_state_def psn_of_def QPN_MASK_def sample_work_def)
qed

end
